(* ===== verification/Chat_Prelude.thy ===== *)
theory Chat_Prelude
  imports Main "HOL-Library.Word" "HOL-Library.Monad_Syntax"
begin

text \<open>
  Shared vocabulary of the development: bytes and machine integers, memory accesses that
  are undefined out of range, C strings, and the generic lemmas the components share.

  A value of type \<open>'a option\<close> returned by a modelled operation is \<open>None\<close> exactly when the
  C++ code would have undefined behaviour there (a read, write or vector index outside the
  object). Every theorem that says an operation returns \<open>Some\<close> is therefore a memory
  safety statement.
\<close>

unbundle bit_operations_syntax

type_synonym u8 = "8 word"
type_synonym u16 = "16 word"
type_synonym u32 = "32 word"
type_synonym bytes = "u8 list"

named_theorems mem_simps "memory accesses inside the object"

text \<open>String literals of the source, as the bytes of a \<open>std::string\<close>.\<close>

definition str :: "string \<Rightarrow> bytes" where
  "str s = map of_char s"

text \<open>What a \<open>const char *\<close> reader sees of a byte string: everything before the first NUL.\<close>

definition c_str :: "bytes \<Rightarrow> bytes" where
  "c_str s = takeWhile (\<lambda>b. b \<noteq> 0) s"

lemma c_str_id [simp]: "0 \<notin> set s \<Longrightarrow> c_str s = s"
  unfolding c_str_def by (induction s) auto

lemma c_str_no_nul: "0 \<notin> set (c_str s)"
  by (auto simp: c_str_def dest: set_takeWhileD)

lemma c_str_idem [simp]: "c_str (c_str s) = c_str s"
  by (simp add: c_str_no_nul)

lemma c_str_cut: "0 \<notin> set p \<Longrightarrow> c_str (p @ 0 # s) = p"
  unfolding c_str_def by (induction p) auto

section \<open>Memory\<close>

text \<open>
  An object of memory is the list of its bytes; a pointer into it is an offset.
  \<open>at\<close> is \<open>v[i]\<close> of a vector or \<open>*(p + i)\<close>; \<open>put\<close> is \<open>v[i] = x\<close>; \<open>mem_read\<close> and
  \<open>mem_write\<close> are the two sides of a \<open>memcpy\<close>.
\<close>

definition at :: "'a list \<Rightarrow> nat \<Rightarrow> 'a option" where
  "at v i = (if i < length v then Some (v ! i) else None)"

definition put :: "'a list \<Rightarrow> nat \<Rightarrow> 'a \<Rightarrow> 'a list option" where
  "put v i x = (if i < length v then Some (v[i := x]) else None)"

definition mem_read :: "bytes \<Rightarrow> nat \<Rightarrow> nat \<Rightarrow> bytes option" where
  "mem_read m p n = (if p + n \<le> length m then Some (take n (drop p m)) else None)"

definition overwrite :: "bytes \<Rightarrow> nat \<Rightarrow> bytes \<Rightarrow> bytes" where
  "overwrite m p bs = take p m @ bs @ drop (p + length bs) m"

definition mem_write :: "bytes \<Rightarrow> nat \<Rightarrow> bytes \<Rightarrow> bytes option" where
  "mem_write m p bs = (if p + length bs \<le> length m then Some (overwrite m p bs) else None)"

lemma at_in [mem_simps]: "i < length v \<Longrightarrow> at v i = Some (v ! i)"
  by (simp add: at_def)

lemma at_0 [simp]: "v \<noteq> [] \<Longrightarrow> at v 0 = Some (v ! 0)"
  by (simp add: at_def)

lemma put_in [mem_simps]: "i < length v \<Longrightarrow> put v i x = Some (v[i := x])"
  by (simp add: put_def)

lemma mem_read_in [mem_simps]: "p + n \<le> length m \<Longrightarrow> mem_read m p n = Some (take n (drop p m))"
  by (simp add: mem_read_def)

lemma at_eq_Some: "at v i = Some x \<longleftrightarrow> i < length v \<and> x = v ! i"
  by (auto simp: at_def)

lemma put_eq_Some: "put v i x = Some v' \<longleftrightarrow> i < length v \<and> v' = v[i := x]"
  by (auto simp: put_def)

lemma mem_read_eq_Some: "mem_read m p n = Some bs \<longleftrightarrow> p + n \<le> length m \<and> bs = take n (drop p m)"
  by (auto simp: mem_read_def)

lemma mem_write_in [mem_simps]: "p + length bs \<le> length m \<Longrightarrow> mem_write m p bs = Some (overwrite m p bs)"
  by (simp add: mem_write_def)

lemma mem_write_eq_Some:
  "mem_write m p bs = Some m' \<longleftrightarrow> p + length bs \<le> length m \<and> m' = overwrite m p bs"
  by (auto simp: mem_write_def)

lemmas mem_Some = at_eq_Some put_eq_Some mem_read_eq_Some mem_write_eq_Some

lemma length_overwrite [simp]: "p + length bs \<le> length m \<Longrightarrow> length (overwrite m p bs) = length m"
  by (simp add: overwrite_def)

text \<open>
  Writing at the end of what has been written so far extends the written part, and writing
  just before it extends it to the left: the two shapes in which the serialisers of the
  protocol use \<open>memcpy\<close> (values one after the other, and the header in front of the payload).
\<close>

lemma overwrite_right [simp]:
  "q = p + length a \<Longrightarrow> p + length a + length b \<le> length m \<Longrightarrow>
   overwrite (overwrite m p a) q b = overwrite m p (a @ b)"
  by (simp add: overwrite_def ac_simps)

lemma overwrite_left:
  assumes "q = p + length a" and "q + length b \<le> length m"
  shows "overwrite (overwrite m q b) p a = overwrite m p (a @ b)"
  using assms by (simp add: overwrite_def ac_simps min_def)

lemma take_overwrite_0 [simp]: "n = length a \<Longrightarrow> take n (overwrite m 0 a) = a"
  by (simp add: overwrite_def)

section \<open>Bytes and lengths\<close>

lemma unat_u8_less [simp]: "unat (x :: u8) < 256"
  using unsigned_less [where ?'a = nat and w = x] by simp

lemma unat_u8_le [simp]: "unat (x :: u8) \<le> 255"
  using unat_u8_less [of x] by linarith

text \<open>\<open>static_cast<uint8_t>(n)\<close> of a size.\<close>

abbreviation u8_cast :: "nat \<Rightarrow> u8" where
  "u8_cast n \<equiv> of_nat n"

lemma unat_u8_cast: "unat (u8_cast n) = n mod 256"
  by (simp add: unat_of_nat)

lemma unat_u8_cast_small [simp]: "n \<le> 255 \<Longrightarrow> unat (u8_cast n) = n"
  by (simp add: unat_of_nat)

lemma unat_u8_cast_le: "unat (u8_cast n) \<le> n"
  by (simp add: unat_of_nat)

text \<open>\<open>static_cast<uint32_t>(n)\<close> of a size or a pointer difference.\<close>

abbreviation u32_cast :: "nat \<Rightarrow> u32" where
  "u32_cast n \<equiv> of_nat n"

lemma unat_u32_cast_small [simp]: "n < 4294967296 \<Longrightarrow> unat (u32_cast n) = n"
  by (simp add: unat_of_nat)

section \<open>Lists\<close>

lemma length_4E:
  assumes "length xs = 4"
  obtains a b c d where "xs = [a, b, c, d]"
  using assms by (auto simp: length_Suc_conv numeral_eq_Suc)

lemma list_update_map_upt:
  "xs = map f [0..<n] \<Longrightarrow> i < n \<Longrightarrow> xs[i := y] = map (\<lambda>j. if j = i then y else f j) [0..<n]"
  by (auto intro!: nth_equalityI simp: nth_list_update)

lemma drop_append_exact [simp]: "n = length xs \<Longrightarrow> drop n (xs @ ys) = ys"
  by simp

lemma take_append_exact [simp]: "n = length xs \<Longrightarrow> take n (xs @ ys) = xs"
  by simp

end
