(* ===== verification/Process.thy ===== *)
theory Process
  imports Chat_Prelude "HOL-Library.Multiset"
begin

text \<open>
  What the operating system keeps of a process and the start-up and shut-down code changes: its
  open descriptors, which of them are non-blocking and which listen, the address lists of
  \<open>getaddrinfo\<close> that were not freed, and the files of its directory. The locale
  \<open>resource_table\<close> is the interface: what is held after acquiring and releasing.
\<close>

record process =
  open_fds :: "int list"
  nonblocking :: "int list"
  listening :: "int list"
  address_lists :: nat
  files :: "bytes list"
  db_open :: bool

definition acquire :: "int \<Rightarrow> process \<Rightarrow> process" where
  "acquire fd p = p\<lparr>open_fds := fd # open_fds p\<rparr>"

text \<open>\<open>close(fd)\<close>\<close>

definition release :: "int \<Rightarrow> process \<Rightarrow> process" where
  "release fd p = p\<lparr>open_fds := remove1 fd (open_fds p), nonblocking := remove1 fd (nonblocking p),
     listening := remove1 fd (listening p)\<rparr>"

definition freeaddrinfo :: "process \<Rightarrow> process" where
  "freeaddrinfo p = p\<lparr>address_lists := address_lists p - 1\<rparr>"

definition held :: "process \<Rightarrow> int multiset" where
  "held p = mset (open_fds p)"

locale resource_table =
  fixes acq :: "'r \<Rightarrow> 'p \<Rightarrow> 'p" and rel :: "'r \<Rightarrow> 'p \<Rightarrow> 'p" and contents :: "'p \<Rightarrow> 'r multiset"
  assumes contents_acq: "contents (acq r p) = add_mset r (contents p)"
    and contents_rel: "contents (rel r p) = contents p - {#r#}"
begin

lemma rel_acq: "contents (rel r (acq r p)) = contents p"
  by (simp add: contents_acq contents_rel)

text \<open>Whatever is taken in some order and given back in any order leaves nothing behind.\<close>

lemma acquire_all: "contents (fold acq rs p) = contents p + mset rs"
  by (induction rs arbitrary: p) (simp_all add: contents_acq)

lemma release_all: "contents (fold rel rs p) = contents p - mset rs"
  by (induction rs arbitrary: p) (simp_all add: contents_rel)

lemma balanced: "mset ss = mset rs \<Longrightarrow> contents (fold rel ss (fold acq rs p)) = contents p"
  by (simp add: acquire_all release_all)

end

interpretation fds: resource_table acquire release held
  by unfold_locales (simp_all add: acquire_def release_def held_def)

end
