(* ===== verification/Conn_Flags.thy ===== *)
theory Conn_Flags
  imports Chat_Prelude
begin

text \<open>
  The connection flags of \<open>include/shared.hpp\<close> and \<open>src/shared.cpp\<close>: an 8-bit mask and the
  operators on it, and \<open>string_to_lower\<close>. The lemmas read a mask bit by bit, so that every
  update of the flags in the connection table is decided by the simplifier.
\<close>

type_synonym ConnFlags = u8

definition NONE :: ConnFlags where "NONE = 0"
definition WANT_READ :: ConnFlags where "WANT_READ = push_bit 0 1"
definition WANT_WRITE :: ConnFlags where "WANT_WRITE = push_bit 1 1"
definition WANT_CLOSE :: ConnFlags where "WANT_CLOSE = push_bit 2 1"
definition IS_ACTIVE :: ConnFlags where "IS_ACTIVE = push_bit 3 1"
definition IS_AUTH :: ConnFlags where "IS_AUTH = push_bit 4 1"

definition flag_or :: "ConnFlags \<Rightarrow> ConnFlags \<Rightarrow> ConnFlags" where
  "flag_or lhs rhs = lhs OR rhs"

definition flag_and :: "ConnFlags \<Rightarrow> ConnFlags \<Rightarrow> ConnFlags" where
  "flag_and lhs rhs = lhs AND rhs"

definition flag_not :: "ConnFlags \<Rightarrow> ConnFlags" where
  "flag_not flag = NOT flag"

text \<open>The assignment forms return the new value, which is also what \<open>lhs\<close> becomes.\<close>

definition flag_or_assign :: "ConnFlags \<Rightarrow> ConnFlags \<Rightarrow> ConnFlags" where
  "flag_or_assign lhs rhs = flag_or lhs rhs"

definition flag_and_assign :: "ConnFlags \<Rightarrow> ConnFlags \<Rightarrow> ConnFlags" where
  "flag_and_assign lhs rhs = flag_and lhs rhs"

definition has_flag :: "ConnFlags \<Rightarrow> ConnFlags \<Rightarrow> bool" where
  "has_flag m flag \<longleftrightarrow> (m AND flag) \<noteq> 0"

text \<open>
  \<open>string_to_lower\<close>: \<open>std::tolower\<close> on every byte, in the C locale the program runs in (it
  never calls \<open>setlocale\<close>), which maps \<open>A..Z\<close> only.
\<close>

definition tolower :: "u8 \<Rightarrow> u8" where
  "tolower c = (if 65 \<le> c \<and> c \<le> 90 then c + 32 else c)"

definition string_to_lower :: "bytes \<Rightarrow> bytes" where
  "string_to_lower s = map tolower s"

section \<open>Reading a mask bit by bit\<close>

named_theorems flag_simps "flags as bits"

lemma has_flag_bit_pos: "n < 8 \<Longrightarrow> has_flag m (push_bit n 1) \<longleftrightarrow> bit m n"
  unfolding has_flag_def
  by (simp add: and_exp_eq_0_iff_not_bit push_bit_of_1)

lemma has_flag_bits [flag_simps]:
  "has_flag m WANT_READ \<longleftrightarrow> bit m 0"
  "has_flag m WANT_WRITE \<longleftrightarrow> bit m 1"
  "has_flag m WANT_CLOSE \<longleftrightarrow> bit m 2"
  "has_flag m IS_ACTIVE \<longleftrightarrow> bit m 3"
  "has_flag m IS_AUTH \<longleftrightarrow> bit m 4"
  unfolding WANT_READ_def WANT_WRITE_def WANT_CLOSE_def IS_ACTIVE_def IS_AUTH_def
  by (simp_all only: has_flag_bit_pos)

lemma bit_flag_or [flag_simps]: "bit (flag_or a b) n \<longleftrightarrow> bit a n \<or> bit b n"
  by (simp add: flag_or_def bit_or_iff)

lemma bit_flag_and [flag_simps]: "bit (flag_and a b) n \<longleftrightarrow> bit a n \<and> bit b n"
  by (simp add: flag_and_def bit_and_iff)

lemma bit_flag_not [flag_simps]: "n < 8 \<Longrightarrow> bit (flag_not a) n \<longleftrightarrow> \<not> bit a n"
  by (simp add: flag_not_def bit_not_iff)

lemmas [flag_simps] = flag_or_assign_def flag_and_assign_def

lemma bit_constants [flag_simps]:
  "\<not> bit NONE n"
  "bit WANT_READ n \<longleftrightarrow> n = 0"
  "bit WANT_WRITE n \<longleftrightarrow> n = 1"
  "bit WANT_CLOSE n \<longleftrightarrow> n = 2"
  "bit IS_ACTIVE n \<longleftrightarrow> n = 3"
  "bit IS_AUTH n \<longleftrightarrow> n = 4"
  by (auto simp: NONE_def WANT_READ_def WANT_WRITE_def WANT_CLOSE_def IS_ACTIVE_def IS_AUTH_def
        bit_push_bit_iff bit_1_iff
        simp del: push_bit_of_1 push_bit_Suc One_nat_def)

lemma flag_distinct:
  "distinct [WANT_READ, WANT_WRITE, WANT_CLOSE, IS_ACTIVE, IS_AUTH]"
  by (simp add: WANT_READ_def WANT_WRITE_def WANT_CLOSE_def IS_ACTIVE_def IS_AUTH_def)

text \<open>The three mask updates the server makes, for any queried flag.\<close>

lemma has_flag_or [simp]: "has_flag (flag_or a b) f \<longleftrightarrow> has_flag a f \<or> has_flag b f"
proof -
  have "(a OR b) AND f = (a AND f) OR (b AND f)"
    by (simp add: bit.conj_disj_distrib2)
  then show ?thesis by (auto simp: has_flag_def flag_or_def or_eq_0_iff)
qed

lemma has_flag_none [simp]: "\<not> has_flag m NONE" "\<not> has_flag NONE f"
  by (simp_all add: has_flag_def NONE_def)

section \<open>Lower-casing\<close>

lemma unat_tolower: "unat (tolower c) = (if 65 \<le> unat c \<and> unat c \<le> 90 then unat c + 32 else unat c)"
  by (simp add: tolower_def word_le_nat_alt unat_word_ariths)

lemma tolower_idem [simp]: "tolower (tolower c) = tolower c"
  by (rule unsigned_word_eqI [where ?'a = nat]) (simp add: unat_tolower)

lemma string_to_lower_idem [simp]: "string_to_lower (string_to_lower s) = string_to_lower s"
  by (simp add: string_to_lower_def)

lemma string_to_lower_length [simp]: "length (string_to_lower s) = length s"
  by (simp add: string_to_lower_def)

lemma tolower_zero_iff [simp]: "tolower c = 0 \<longleftrightarrow> c = 0"
  using unat_tolower [of c] by (auto simp: unat_eq_0 [symmetric] split: if_splits)

lemma c_str_string_to_lower: "c_str (string_to_lower s) = string_to_lower (c_str s)"
  by (induction s) (simp_all add: c_str_def string_to_lower_def)

end
