(* ===== verification/Signals.thy ===== *)
theory Signals
  imports Chat_Prelude
begin

text \<open>
  How a process ends, and its signals: \<open>exit\<close> and \<open>return\<close> from \<open>main\<close> give a status, a signal kills.
  A signal has the disposition the process has set for it; \<open>main\<close> of \<open>src/server.cpp\<close> sets those of
  \<open>SIGINT\<close> and \<open>SIGTERM\<close> and leaves \<open>SIGPIPE\<close> as it found it.
\<close>

datatype signal = SIGINT | SIGTERM | SIGPIPE

text \<open>How the process ended, as its parent learns it.\<close>

datatype status = Status int | Signalled signal

datatype 'a outcome = Running 'a | Exited status

text \<open>The handlers of the server end in \<open>exit\<close>, with the given status.\<close>

datatype disposition = Default | Ignored | Handler int

type_synonym dispositions = "signal \<Rightarrow> disposition"

text \<open>\<open>signal(s, h)\<close> of the C library.\<close>

definition signal_call :: "signal \<Rightarrow> disposition \<Rightarrow> dispositions \<Rightarrow> dispositions" where
  "signal_call s h ds = ds(s := h)"

text \<open>
  What a raised signal does to the process: nothing when it is ignored; the default action of all
  three is to kill it.
\<close>

definition raised :: "signal \<Rightarrow> dispositions \<Rightarrow> status option" where
  "raised s ds = (case ds s of
     Default \<Rightarrow> Some (Signalled s)
   | Ignored \<Rightarrow> None
   | Handler code \<Rightarrow> Some (Status code))"

text \<open>The two calls at the beginning of \<open>main\<close>; the server is started with the default dispositions.\<close>

definition main_signals :: dispositions where
  "main_signals = signal_call SIGTERM (Handler 0) (signal_call SIGINT (Handler 0) (\<lambda>_. Default))"

lemma raised_main_signals:
  "raised s main_signals = Some (if s = SIGPIPE then Signalled SIGPIPE else Status 0)"
  by (cases s) (simp_all add: raised_def main_signals_def signal_call_def)

lemma sigpipe_kills [simp]: "raised SIGPIPE main_signals = Some (Signalled SIGPIPE)"
  by (simp add: raised_main_signals)

end
