(* ===== verification/Conn_Table.thy ===== *)
theory Conn_Table
  imports Conn_Flags Signals
begin

text \<open>
  The connection table of \<open>include/server_utils.hpp\<close> and \<open>src/server_utils.cpp\<close>: a structure of
  arrays indexed by file descriptor, the state changes of a connection with their epoll
  registrations, adding and removing connections, and the counts of the metrics command.
  The server state extends the table with the database, the registrations made with epoll,
  and the bytes handed to the sockets. The invariant \<open>table_inv\<close> is proved for every operation.
\<close>

record connection_manager =
  flags :: "ConnFlags list"
  incoming_buffers :: "bytes list"
  outgoing_buffers :: "bytes list"
  user_ids :: "u32 list"
  usernames :: "bytes list"

datatype ConnState = READING | WRITING | CLOSING

text \<open>What a connection is registered for with epoll, always edge-triggered.\<close>

datatype interest = EPOLLIN_ET | EPOLLOUT_ET

text \<open>
  The state the handlers share. \<open>db\<close> is the SQLite connection, \<open>epoll\<close> the registrations of
  connection sockets, \<open>wire fd\<close> all the bytes \<open>write\<close> has accepted on that socket so far.
\<close>

record 'db server = connection_manager +
  db :: 'db
  epoll :: "nat \<rightharpoonup> interest"
  wire :: "nat \<Rightarrow> bytes"

definition INITIAL_CAPACITY :: nat where "INITIAL_CAPACITY = 10000"

definition get_size :: "'a connection_manager_scheme \<Rightarrow> nat" where
  "get_size m = length (flags m)"

text \<open>One round of the loop that creates the slots, and the loop.\<close>

definition push_slot :: "connection_manager \<Rightarrow> connection_manager" where
  "push_slot m = \<lparr>flags = flags m @ [NONE], incoming_buffers = incoming_buffers m @ [[]],
     outgoing_buffers = outgoing_buffers m @ [[]], user_ids = user_ids m @ [0],
     usernames = usernames m @ [str ''user'']\<rparr>"

definition create_connection_manager :: "nat \<Rightarrow> connection_manager" where
  "create_connection_manager N = (push_slot ^^ N)
     \<lparr>flags = [], incoming_buffers = [], outgoing_buffers = [], user_ids = [], usernames = []\<rparr>"

definition resize :: "'a list \<Rightarrow> nat \<Rightarrow> 'a \<Rightarrow> 'a list" where
  "resize v n d = take n v @ replicate (n - length v) d"

text \<open>
  \<open>epoll_ctl(EPOLL_CTL_MOD)\<close> changes the registration of a registered descriptor and fails on
  any other; the code logs the failure and goes on.
\<close>

definition epoll_mod :: "nat \<Rightarrow> interest \<Rightarrow> (nat \<rightharpoonup> interest) \<Rightarrow> (nat \<rightharpoonup> interest)" where
  "epoll_mod fd ev e = (if e fd = None then e else e(fd \<mapsto> ev))"

definition set_connection_state :: "nat \<Rightarrow> ConnState \<Rightarrow> 'db server \<Rightarrow> 'db server option" where
  "set_connection_state connfd next_state st = do {
     current_flags \<leftarrow> at (flags st) connfd;
     (case next_state of
        READING \<Rightarrow> do {
          let f = flag_or_assign current_flags WANT_READ;
          let f = flag_and_assign f (flag_not WANT_WRITE);
          fls \<leftarrow> put (flags st) connfd f;
          Some (st\<lparr>flags := fls, epoll := epoll_mod connfd EPOLLIN_ET (epoll st)\<rparr>) }
      | WRITING \<Rightarrow> do {
          let f = flag_and_assign current_flags (flag_not WANT_READ);
          let f = flag_or_assign f WANT_WRITE;
          fls \<leftarrow> put (flags st) connfd f;
          Some (st\<lparr>flags := fls, epoll := epoll_mod connfd EPOLLOUT_ET (epoll st)\<rparr>) }
      | CLOSING \<Rightarrow> do {
          let f = flag_or_assign current_flags WANT_CLOSE;
          fls \<leftarrow> put (flags st) connfd f;
          Some (st\<lparr>flags := fls\<rparr>) }) }"

text \<open>
  A failing \<open>fcntl\<close> ends the process by \<open>exit\<close>. The answers of the two \<open>fcntl\<close> calls and of \<open>EPOLL_CTL_ADD\<close> for a new connection are the kernel's.
\<close>

record admission =
  getfl_rc :: int
  setfl_rc :: int
  ctl_rc :: int

definition set_nonblocking_fd :: "admission \<Rightarrow> unit outcome" where
  "set_nonblocking_fd k =
     (if getfl_rc k = -1 then Exited (Status (-1)) else if setfl_rc k = -1 then Exited (Status (-1)) else Running ())"

definition add_connection :: "nat \<Rightarrow> admission \<Rightarrow> 'db server \<Rightarrow> 'db server outcome option" where
  "add_connection connfd k st =
     (case set_nonblocking_fd k of
        Exited code \<Rightarrow> Some (Exited code)
      | Running _ \<Rightarrow>
          if ctl_rc k = -1 then Some (Running st)
          else do {
            let st = st\<lparr>epoll := (epoll st)(connfd \<mapsto> EPOLLIN_ET)\<rparr>;
            let new_size = connfd + 1;
            let st = (if get_size st \<le> connfd
              then st\<lparr>flags := resize (flags st) new_size NONE,
                     incoming_buffers := resize (incoming_buffers st) new_size [],
                     outgoing_buffers := resize (outgoing_buffers st) new_size [],
                     user_ids := resize (user_ids st) new_size 0,
                     usernames := resize (usernames st) new_size []\<rparr>
              else st);
            fls \<leftarrow> put (flags st) connfd (flag_or IS_ACTIVE WANT_READ);
            Some (Running (st\<lparr>flags := fls\<rparr>)) })"

definition remove_connection :: "nat \<Rightarrow> 'db server \<Rightarrow> 'db server option" where
  "remove_connection connfd st = do {
     fls \<leftarrow> put (flags st) connfd NONE;
     Some (st\<lparr>flags := fls, epoll := (epoll st)(connfd := None)\<rparr>) }"

text \<open>The two counters of \<open>log_server_metrics\<close>: connected and authenticated.\<close>

fun count_connections :: "ConnFlags list \<Rightarrow> nat \<times> nat \<Rightarrow> nat \<times> nat" where
  "count_connections [] acc = acc"
| "count_connections (conn # conns) (num_connected, num_auth) =
     (if \<not> has_flag conn IS_ACTIVE then count_connections conns (num_connected, num_auth)
      else if \<not> has_flag conn IS_AUTH then count_connections conns (num_connected + 1, num_auth)
      else count_connections conns (num_connected + 1, num_auth + 1))"

section \<open>The invariant of the table\<close>

named_theorems table_simps "projections of the table after an operation"

text \<open>
  A slot is unused (no flag at all) or active, and then it wants exactly one of reading and
  writing, and epoll is asked for exactly that. Only active slots can be authenticated.
\<close>

definition slot_ok :: "ConnFlags \<Rightarrow> interest option \<Rightarrow> bool" where
  "slot_ok f e \<longleftrightarrow>
     (f = NONE \<and> e = None) \<or>
     (has_flag f IS_ACTIVE \<and>
      (has_flag f WANT_READ \<and> \<not> has_flag f WANT_WRITE \<and> e = Some EPOLLIN_ET \<or>
       has_flag f WANT_WRITE \<and> \<not> has_flag f WANT_READ \<and> e = Some EPOLLOUT_ET))"

definition same_sizes :: "'a connection_manager_scheme \<Rightarrow> bool" where
  "same_sizes m \<longleftrightarrow>
     length (incoming_buffers m) = get_size m \<and> length (outgoing_buffers m) = get_size m \<and>
     length (user_ids m) = get_size m \<and> length (usernames m) = get_size m"

definition table_inv :: "'db server \<Rightarrow> bool" where
  "table_inv st \<longleftrightarrow> same_sizes st \<and>
     (\<forall>i < get_size st. slot_ok (flags st ! i) (epoll st i)) \<and>
     (\<forall>i. get_size st \<le> i \<longrightarrow> epoll st i = None)"

lemma slot_ok_auth: "slot_ok f e \<Longrightarrow> has_flag f IS_AUTH \<Longrightarrow> has_flag f IS_ACTIVE"
  by (auto simp: slot_ok_def)

lemma slot_ok_reg: "slot_ok f e \<Longrightarrow> e \<noteq> None \<longleftrightarrow> has_flag f IS_ACTIVE"
  by (auto simp: slot_ok_def)

lemma table_inv_slot: "table_inv st \<Longrightarrow> i < get_size st \<Longrightarrow> slot_ok (flags st ! i) (epoll st i)"
  by (simp add: table_inv_def)

lemma table_inv_registered: "table_inv st \<Longrightarrow> epoll st i \<noteq> None \<Longrightarrow> i < get_size st"
  by (auto simp: table_inv_def not_le [symmetric])

section \<open>The operations keep it\<close>

lemma slot_ok_writing:
  "slot_ok f e \<Longrightarrow> has_flag f IS_ACTIVE \<Longrightarrow>
   slot_ok (flag_or_assign (flag_and_assign f (flag_not WANT_READ)) WANT_WRITE)
     (if e = None then None else Some EPOLLOUT_ET)"
  by (auto simp: slot_ok_def flag_simps)

lemma slot_ok_reading:
  "slot_ok f e \<Longrightarrow> has_flag f IS_ACTIVE \<Longrightarrow>
   slot_ok (flag_and_assign (flag_or_assign f WANT_READ) (flag_not WANT_WRITE))
     (if e = None then None else Some EPOLLIN_ET)"
  by (auto simp: slot_ok_def flag_simps)

lemma slot_ok_or:
  "slot_ok f e \<Longrightarrow> has_flag f IS_ACTIVE \<Longrightarrow> g = WANT_CLOSE \<or> g = IS_AUTH \<Longrightarrow>
   slot_ok (flag_or_assign f g) e"
  by (auto simp: slot_ok_def flag_simps)

text \<open>What each state change does to the flags of its slot.\<close>

fun state_flags :: "ConnState \<Rightarrow> ConnFlags \<Rightarrow> ConnFlags" where
  "state_flags READING f = flag_and_assign (flag_or_assign f WANT_READ) (flag_not WANT_WRITE)"
| "state_flags WRITING f = flag_or_assign (flag_and_assign f (flag_not WANT_READ)) WANT_WRITE"
| "state_flags CLOSING f = flag_or_assign f WANT_CLOSE"

fun state_epoll :: "nat \<Rightarrow> ConnState \<Rightarrow> (nat \<rightharpoonup> interest) \<Rightarrow> (nat \<rightharpoonup> interest)" where
  "state_epoll fd READING e = epoll_mod fd EPOLLIN_ET e"
| "state_epoll fd WRITING e = epoll_mod fd EPOLLOUT_ET e"
| "state_epoll fd CLOSING e = e"

definition mark :: "nat \<Rightarrow> ConnState \<Rightarrow> 'db server \<Rightarrow> 'db server" where
  "mark fd s st = st\<lparr>flags := (flags st)[fd := state_flags s (flags st ! fd)],
     epoll := state_epoll fd s (epoll st)\<rparr>"

lemma set_connection_state_eq:
  "fd < get_size st \<Longrightarrow> set_connection_state fd s st = Some (mark fd s st)"
  by (cases s) (simp_all add: set_connection_state_def mark_def get_size_def at_in put_in Let_def)

lemma set_connection_state_Some:
  "set_connection_state fd s st = Some st' \<longleftrightarrow> fd < get_size st \<and> st' = mark fd s st"
proof (cases "fd < get_size st")
  case True
  then show ?thesis by (auto simp: set_connection_state_eq)
next
  case False
  then show ?thesis by (auto simp: set_connection_state_def get_size_def at_eq_Some bind_eq_Some_conv)
qed

lemma mark_fields [table_simps]:
  "get_size (mark fd s st) = get_size st" "incoming_buffers (mark fd s st) = incoming_buffers st"
  "outgoing_buffers (mark fd s st) = outgoing_buffers st" "user_ids (mark fd s st) = user_ids st"
  "usernames (mark fd s st) = usernames st" "db (mark fd s st) = db st" "wire (mark fd s st) = wire st"
  "epoll (mark fd s st) = state_epoll fd s (epoll st)"
  "same_sizes (mark fd s st) \<longleftrightarrow> same_sizes st"
  by (simp_all add: mark_def get_size_def same_sizes_def)

lemma mark_nth [table_simps]:
  "fd < get_size st \<Longrightarrow> flags (mark fd s st) ! i =
    (if i = fd then state_flags s (flags st ! fd) else flags st ! i)"
  by (simp add: mark_def get_size_def nth_list_update)

lemma state_flags_keep [flag_simps]:
  "has_flag (state_flags s f) IS_AUTH \<longleftrightarrow> has_flag f IS_AUTH"
  "has_flag (state_flags s f) IS_ACTIVE \<longleftrightarrow> has_flag f IS_ACTIVE"
  by (cases s; simp add: flag_simps)+

lemma state_epoll_other [simp]: "i \<noteq> fd \<Longrightarrow> state_epoll fd s e i = e i"
  by (cases s) (simp_all add: epoll_mod_def)

lemma slot_ok_state:
  "slot_ok f (e fd) \<Longrightarrow> has_flag f IS_ACTIVE \<Longrightarrow> slot_ok (state_flags s f) (state_epoll fd s e fd)"
  using slot_ok_writing [of f "e fd"] slot_ok_reading [of f "e fd"] slot_ok_or [of f "e fd" WANT_CLOSE]
  by (cases s) (auto simp: epoll_mod_def split: if_splits)

lemma mark_inv:
  assumes "table_inv st" "fd < get_size st" "has_flag (flags st ! fd) IS_ACTIVE"
  shows "table_inv (mark fd s st)"
proof -
  have "slot_ok (flags (mark fd s st) ! i) (epoll (mark fd s st) i)" if "i < get_size st" for i
    using that assms(2,3) table_inv_slot [OF assms(1) that]
    by (cases "i = fd") (auto simp: table_simps slot_ok_state)
  moreover have "epoll (mark fd s st) i = None" if "get_size st \<le> i" for i
    using assms(1,2) that by (simp add: table_inv_def table_simps)
  ultimately show ?thesis
    using assms(1) by (simp add: table_inv_def table_simps)
qed

lemma set_connection_state_inv:
  "table_inv st \<Longrightarrow> has_flag (flags st ! fd) IS_ACTIVE \<Longrightarrow> set_connection_state fd s st = Some st' \<Longrightarrow>
   table_inv st'"
  by (auto simp: set_connection_state_Some intro: mark_inv)

text \<open>A new connection: its slot is active and reading, every other slot and all buffers are kept.\<close>

lemma resize_grow: "length v \<le> n \<Longrightarrow> resize v n d = v @ replicate (n - length v) d"
  by (simp add: resize_def)

lemma resize_nth:
  "i < n \<Longrightarrow> length v \<le> n \<Longrightarrow> resize v n d ! i = (if i < length v then v ! i else d)"
  by (simp add: resize_grow nth_append)

lemma length_resize [simp]: "length (resize v n d) = n"
  by (simp add: resize_def min_def)

lemma add_connection_total: "\<exists>r. add_connection fd k st = Some r"
  by (simp add: add_connection_def put_def get_size_def Let_def split: outcome.split)

lemma add_connection_slot:
  assumes "add_connection fd k st = Some (Running st')" "ctl_rc k \<noteq> -1"
  shows "get_size st' = max (get_size st) (Suc fd)"
    and "flags st' ! fd = flag_or IS_ACTIVE WANT_READ"
    and "i < get_size st' \<Longrightarrow> i \<noteq> fd \<Longrightarrow>
      flags st' ! i = (if i < get_size st then flags st ! i else NONE)"
    and "epoll st' = (epoll st)(fd \<mapsto> EPOLLIN_ET)" "wire st' = wire st" "db st' = db st"
  using assms
  by (auto simp: add_connection_def get_size_def Let_def put_eq_Some bind_eq_Some_conv max_def
      resize_nth split: outcome.splits if_splits)

lemma add_connection_sizes:
  assumes "add_connection fd k st = Some (Running st')" "same_sizes st"
  shows "same_sizes st'"
  using assms
  by (auto simp: add_connection_def same_sizes_def get_size_def Let_def put_eq_Some
      bind_eq_Some_conv split: outcome.splits if_splits)

lemma add_connection_inv:
  assumes "table_inv st" "add_connection fd k st = Some (Running st')"
  shows "table_inv st'"
proof (cases "ctl_rc k = -1")
  case True
  with assms show ?thesis by (auto simp: add_connection_def split: outcome.splits)
next
  case False
  note slot = add_connection_slot [OF assms(2) False]
  have "slot_ok (flags st' ! i) (epoll st' i)" if "i < get_size st'" for i
    using that slot(2) slot(3) [OF that] slot(4) assms(1)
    by (cases "i = fd") (auto simp: table_inv_def slot_ok_def flag_simps split: if_splits)
  moreover have "epoll st' i = None" if "get_size st' \<le> i" for i
    using that slot(1,4) assms(1) by (simp add: table_inv_def)
  ultimately show ?thesis
    using add_connection_sizes [OF assms(2)] assms(1) by (simp add: table_inv_def)
qed

text \<open>Buffers survive: those of an existing slot are the ones it had, those of a new one empty.\<close>

lemma add_connection_buffers:
  assumes "add_connection fd k st = Some (Running st')" "same_sizes st" "i < get_size st'"
  shows "outgoing_buffers st' ! i = (if i < get_size st then outgoing_buffers st ! i else [])"
    and "incoming_buffers st' ! i = (if i < get_size st then incoming_buffers st ! i else [])"
  using assms
  by (auto simp: add_connection_def same_sizes_def get_size_def Let_def put_eq_Some resize_nth
      bind_eq_Some_conv split: outcome.splits if_splits)

lemma remove_connection_Some:
  "remove_connection fd st = Some st' \<longleftrightarrow> fd < get_size st \<and>
     st' = st\<lparr>flags := (flags st)[fd := NONE], epoll := (epoll st)(fd := None)\<rparr>"
  by (auto simp: remove_connection_def put_eq_Some get_size_def bind_eq_Some_conv)

lemma remove_connection_inv:
  "table_inv st \<Longrightarrow> remove_connection fd st = Some st' \<Longrightarrow> table_inv st'"
  by (auto simp: remove_connection_Some table_inv_def same_sizes_def get_size_def nth_list_update
      slot_ok_def)

section \<open>The table at start, and the counts\<close>

lemma create_connection_manager_eq:
  "create_connection_manager N = \<lparr>flags = replicate N NONE, incoming_buffers = replicate N [],
     outgoing_buffers = replicate N [], user_ids = replicate N 0,
     usernames = replicate N (str ''user'')\<rparr>"
proof (induction N)
  case 0
  then show ?case by (simp add: create_connection_manager_def)
next
  case (Suc N)
  then show ?case
    by (simp add: create_connection_manager_def push_slot_def replicate_append_same)
qed

text \<open>The server when the event loop starts, with the database that \<open>init_db\<close> opened.\<close>

definition initial_server :: "'db \<Rightarrow> 'db server" where
  "initial_server d = connection_manager.extend (create_connection_manager INITIAL_CAPACITY)
     \<lparr>db = d, epoll = (\<lambda>_. None), wire = (\<lambda>_. [])\<rparr>"

lemma initial_server_fields:
  "flags (initial_server d) = replicate INITIAL_CAPACITY NONE"
  "incoming_buffers (initial_server d) = replicate INITIAL_CAPACITY []"
  "outgoing_buffers (initial_server d) = replicate INITIAL_CAPACITY []"
  "user_ids (initial_server d) = replicate INITIAL_CAPACITY 0"
  "usernames (initial_server d) = replicate INITIAL_CAPACITY (str ''user'')"
  "epoll (initial_server d) = (\<lambda>_. None)" "wire (initial_server d) = (\<lambda>_. [])"
  "db (initial_server d) = d"
  by (simp_all add: initial_server_def create_connection_manager_eq connection_manager.defs)

lemma initial_server_inv: "table_inv (initial_server d)"
  by (simp add: table_inv_def same_sizes_def get_size_def slot_ok_def initial_server_fields)

lemma count_connections_filter:
  "count_connections fs (a, b) =
     (a + length (filter (\<lambda>f. has_flag f IS_ACTIVE) fs),
      b + length (filter (\<lambda>f. has_flag f IS_ACTIVE \<and> has_flag f IS_AUTH) fs))"
  by (induction fs arbitrary: a b) auto

text \<open>Under the invariant the second count is that of the authenticated connections.\<close>

lemma count_connections_inv:
  assumes "table_inv st"
  shows "count_connections (flags st) (0, 0) =
    (card {i. i < get_size st \<and> has_flag (flags st ! i) IS_ACTIVE},
     card {i. i < get_size st \<and> has_flag (flags st ! i) IS_AUTH})"
proof -
  have "{i. i < get_size st \<and> has_flag (flags st ! i) IS_ACTIVE \<and> has_flag (flags st ! i) IS_AUTH}
      = {i. i < get_size st \<and> has_flag (flags st ! i) IS_AUTH}"
    using assms by (auto dest: table_inv_slot slot_ok_auth)
  then show ?thesis
    by (simp add: count_connections_filter length_filter_conv_card get_size_def)
qed

end
