(* ===== verification/Console.thy ===== *)
theory Console
  imports Chat_Prelude
begin

text \<open>
  The standard-input helpers of \<open>src/shared.cpp\<close> and the word splitting of the streams they use.
  \<open>std::cin\<close> is what is still unread and the two error bits of the stream; \<open>stdin\<close> of the C
  functions is the unread bytes alone. The end of the bytes is a permanent end of file (a closed
  pipe or a terminal that was hung up).
\<close>

section \<open>Words\<close>

text \<open>\<open>std::isspace\<close> in the C locale, \<open>stream >> word\<close> and \<open>std::getline(stream >> std::ws, line)\<close>.\<close>

definition is_space :: "u8 \<Rightarrow> bool" where
  "is_space c \<longleftrightarrow> c = 32 \<or> 9 \<le> c \<and> c \<le> 13"

definition skip_ws :: "bytes \<Rightarrow> bytes" where
  "skip_ws ss = dropWhile is_space ss"

definition next_word :: "bytes \<Rightarrow> bytes \<times> bytes" where
  "next_word ss = (takeWhile (\<lambda>c. \<not> is_space c) (skip_ws ss), dropWhile (\<lambda>c. \<not> is_space c) (skip_ws ss))"

definition rest_of_line :: "bytes \<Rightarrow> bytes" where
  "rest_of_line ss = takeWhile (\<lambda>c. c \<noteq> 10) (skip_ws ss)"

lemma next_word_append:
  assumes "w \<noteq> []" "\<forall>c \<in> set w. \<not> is_space c" "is_space c"
  shows "next_word (w @ c # ss) = (w, c # ss)"
  using assms by (cases w) (auto simp: next_word_def skip_ws_def takeWhile_append dropWhile_append)

lemma next_word_last:
  assumes "\<forall>c \<in> set w. \<not> is_space c"
  shows "next_word w = (w, [])"
  using assms by (cases w) (auto simp: next_word_def skip_ws_def takeWhile_eq_all_conv)

lemma next_word_space: "is_space c \<Longrightarrow> next_word (c # ss) = next_word ss"
  by (simp add: next_word_def skip_ws_def)

text \<open>The bytes after the end of the current line.\<close>

definition skip_line :: "bytes \<Rightarrow> bytes" where
  "skip_line s = (case dropWhile (\<lambda>c. c \<noteq> 10) s of [] \<Rightarrow> [] | _ # t \<Rightarrow> t)"

lemma skip_line_append: "10 \<notin> set line \<Longrightarrow> skip_line (line @ 10 # s) = s"
  by (induction line) (auto simp: skip_line_def)

section \<open>std::cin\<close>

record cin =
  unread :: bytes
  eofbit :: bool
  failbit :: bool

definition good :: "cin \<Rightarrow> bool" where
  "good c \<longleftrightarrow> \<not> eofbit c \<and> \<not> failbit c"

definition clear :: "cin \<Rightarrow> cin" where
  "clear c = c\<lparr>eofbit := False, failbit := False\<rparr>"

text \<open>\<open>std::cin >> buffer\<close>: at the end of the input the string keeps its value.\<close>

definition extract_word :: "cin \<Rightarrow> bytes \<Rightarrow> cin \<times> bytes" where
  "extract_word c buffer =
     (if \<not> good c then (c\<lparr>failbit := True\<rparr>, buffer)
      else if skip_ws (unread c) = [] then (c\<lparr>unread := [], eofbit := True, failbit := True\<rparr>, buffer)
      else let (word, s) = next_word (unread c) in (c\<lparr>unread := s, eofbit := (s = [])\<rparr>, word))"

definition ignore_line :: "cin \<Rightarrow> cin" where
  "ignore_line c =
     (if \<not> good c then c\<lparr>failbit := True\<rparr>
      else c\<lparr>unread := skip_line (unread c), eofbit := 10 \<notin> set (unread c)\<rparr>)"

datatype input = Exit int | Word cin bytes

text \<open>The loop may not end: then the value is \<open>None\<close>.\<close>

partial_function (option) get_string_cin :: "cin \<Rightarrow> bytes \<Rightarrow> input option" where
  "get_string_cin c buffer =
     (let (c, buffer) = extract_word c buffer in
      if failbit c then
        if \<not> eofbit c then Some (Exit (-1))
        else get_string_cin (ignore_line (clear c)) buffer
      else Some (Word (ignore_line c) buffer))"

lemma skip_ws_blank: "(\<forall>x \<in> set s. is_space x) \<longleftrightarrow> skip_ws s = []"
  by (simp add: skip_ws_def)

text \<open>At the end of the input every iteration fails with the end-of-file bit set.\<close>

lemma get_string_cin_stuck:
  assumes "get_string_cin c b = Some r" "unread c = []" "good c \<or> eofbit c"
  shows False
proof -
  have step: "unread c = [] \<longrightarrow> \<not> (good c \<or> eofbit c)"
    if ih: "\<And>c b r. get c b = Some r \<Longrightarrow> unread c = [] \<longrightarrow> \<not> (good c \<or> eofbit c)"
      and run: "(let (c, buffer) = extract_word c b in
        if failbit c then if \<not> eofbit c then Some (Exit (-1)) else get (ignore_line (clear c)) buffer
        else Some (Word (ignore_line c) buffer)) = Some r" for get c b r
  proof (intro impI notI)
    assume c: "unread c = []" "good c \<or> eofbit c"
    obtain c' b' where e: "extract_word c b = (c', b')" by (rule prod.exhaust)
    with c have c': "failbit c'" "eofbit c'" "unread c' = []"
      by (auto simp: extract_word_def skip_ws_def split: if_splits)
    with run e have "get (ignore_line (clear c')) b' = Some r" by simp
    from ih [OF this] c' show False by (simp add: ignore_line_def clear_def good_def skip_line_def)
  qed
  have "unread c = [] \<longrightarrow> \<not> (good c \<or> eofbit c)"
    by (rule get_string_cin.raw_induct [where P = "\<lambda>c b r. unread c = [] \<longrightarrow> \<not> (good c \<or> eofbit c)", OF _ assms(1)])
      (erule step [rotated], blast)
  with assms(2,3) show ?thesis by blast
qed

lemma get_string_cin_decided:
  assumes "good c"
  shows "get_string_cin c b =
    (if \<exists>x \<in> set (unread c). \<not> is_space x
     then let (word, s) = next_word (unread c) in
       Some (Word (ignore_line (c\<lparr>unread := s, eofbit := (s = [])\<rparr>)) word)
     else None)"
proof (cases "skip_ws (unread c) = []")
  case True
  then have blank: "\<not> (\<exists>x \<in> set (unread c). \<not> is_space x)" using skip_ws_blank by blast
  let ?c = "ignore_line (clear (c\<lparr>unread := [], eofbit := True, failbit := True\<rparr>))"
  have "get_string_cin c b = get_string_cin ?c b"
    using assms True by (subst get_string_cin.simps) (simp add: extract_word_def)
  moreover have "get_string_cin ?c b = None"
    using get_string_cin_stuck [of ?c b]
    by (cases "get_string_cin ?c b") (auto simp: ignore_line_def clear_def good_def skip_line_def)
  ultimately show ?thesis using blank by simp
next
  case False
  then have word: "\<exists>x \<in> set (unread c). \<not> is_space x" using skip_ws_blank by blast
  with assms False show ?thesis
    by (subst get_string_cin.simps) (auto simp: extract_word_def good_def split: prod.splits)
qed

section \<open>fgets\<close>

text \<open>\<open>fgets(buffer, n, stdin)\<close>: the bytes it stores in front of the final NUL, or NULL.\<close>

definition fgets :: "nat \<Rightarrow> bytes \<Rightarrow> (bytes \<times> bytes) option" where
  "fgets n s =
     (if n = 0 then None
      else if n = 1 then Some ([], s)
      else if s = [] then None
      else
        let line = takeWhile (\<lambda>c. c \<noteq> 10) s;
            line = (if 10 \<in> set s then line @ [10] else line);
            got = take (n - 1) line
        in Some (got, drop (length got) s))"

text \<open>The buffer and what is left of \<open>stdin\<close>, or the exit.\<close>

datatype gotten = Exits int | Got bytes bytes

definition get_stdin :: "bytes \<Rightarrow> nat \<Rightarrow> bytes \<Rightarrow> gotten option" where
  "get_stdin buffer buf_size s =
     (case fgets buf_size s of
        None \<Rightarrow> Some (Exits (-1))
      | Some (got, s) \<Rightarrow> do {
          buffer \<leftarrow> mem_write buffer 0 (got @ [0]);
          if 10 \<in> set (c_str buffer) then do {
            buffer \<leftarrow> put buffer (length (takeWhile (\<lambda>c. c \<noteq> 10) buffer)) 0;
            Some (Got buffer s) }
          else Some (Got buffer (skip_line s)) })"

text \<open>
  A line is read up to the size of the buffer, the rest of it is thrown away, and the next line is
  left for the next call.
\<close>

lemma get_stdin_line:
  assumes "10 \<notin> set line" "0 \<notin> set line" "1 < n" "n \<le> length buffer"
  shows "\<exists>b. get_stdin buffer n (line @ 10 # s) = Some (Got b s) \<and> c_str b = take (n - 1) line \<and>
    length b = length buffer"
proof -
  have tw: "takeWhile (\<lambda>c. c \<noteq> 10) (line @ 10 # s) = line"
    using assms(1) by (simp add: takeWhile_append)
  let ?got = "take (n - 1) (line @ [10])"
  have f: "fgets n (line @ 10 # s) = Some (?got, drop (length ?got) (line @ 10 # s))"
    using assms(3) tw by (simp add: fgets_def Let_def del: take_append length_append length_take)
  have fits: "0 + length (?got @ [0]) \<le> length buffer" using assms(3,4) by simp
  define m where "m = overwrite buffer 0 (?got @ [0])"
  have m: "mem_write buffer 0 (?got @ [0]) = Some m" "length m = length buffer"
    using fits by (simp_all add: m_def mem_write_in)
  have pre: "m = ?got @ 0 # drop (length ?got + 1) buffer" by (simp add: m_def overwrite_def)
  have nz: "0 \<notin> set ?got" using assms(2) by (auto dest: in_set_takeD)
  have cs: "c_str m = ?got" unfolding pre by (rule c_str_cut [OF nz])
  show ?thesis
  proof (cases "n - 1 \<le> length line")
    case True
    then have got: "?got = take (n - 1) line" by simp
    with assms(1) have "10 \<notin> set (c_str m)" using cs by (auto dest: in_set_takeD)
    moreover have "10 \<notin> set (drop (n - 1) line)" using assms(1) by (auto dest: in_set_dropD)
    then have "skip_line (drop (length ?got) (line @ 10 # s)) = s"
      using True got by (simp add: min_def skip_line_append)
    ultimately show ?thesis using f m cs got by (simp add: get_stdin_def)
  next
    case False
    then have got: "?got = line @ [10]" by simp
    have tm: "takeWhile (\<lambda>c. c \<noteq> 10) m = line"
      using assms(1) unfolding pre got by (simp add: takeWhile_append)
    have "c_str (m[length line := 0]) = line"
      unfolding pre got using c_str_cut [OF assms(2)] by (simp add: list_update_append)
    moreover have "length line < length m" unfolding pre got by simp
    ultimately show ?thesis
      using f m cs got tm False by (simp add: get_stdin_def put_in)
  qed
qed

end
