(* ===== verification/Byte_Order.thy ===== *)
theory Byte_Order
  imports Chat_Prelude
begin

text \<open>
  Object representations and byte order. The server is built for Linux on a little-endian
  host, so copying a \<open>uint32_t\<close> object byte by byte yields its low byte first, and \<open>htonl\<close>,
  \<open>ntohl\<close>, \<open>htons\<close> of \<open>arpa/inet.h\<close> reverse the bytes. What reaches the wire, the bytes of
  \<open>htonl w\<close>, is \<open>be_bytes w\<close>, most significant byte first.
\<close>

definition bytes_of_u32 :: "u32 \<Rightarrow> bytes" where
  "bytes_of_u32 w = [ucast w, ucast (drop_bit 8 w), ucast (drop_bit 16 w), ucast (drop_bit 24 w)]"

definition u32_of_bytes :: "bytes \<Rightarrow> u32" where
  "u32_of_bytes bs = foldr (\<lambda>b w. ucast b OR push_bit 8 w) bs 0"

definition bytes_of_u16 :: "u16 \<Rightarrow> bytes" where
  "bytes_of_u16 w = [ucast w, ucast (drop_bit 8 w)]"

definition u16_of_bytes :: "bytes \<Rightarrow> u16" where
  "u16_of_bytes bs = foldr (\<lambda>b w. ucast b OR push_bit 8 w) bs 0"

definition htonl :: "u32 \<Rightarrow> u32" where
  "htonl w = u32_of_bytes (rev (bytes_of_u32 w))"

definition ntohl :: "u32 \<Rightarrow> u32" where
  "ntohl w = u32_of_bytes (rev (bytes_of_u32 w))"

definition htons :: "u16 \<Rightarrow> u16" where
  "htons w = u16_of_bytes (rev (bytes_of_u16 w))"

definition be_bytes :: "u32 \<Rightarrow> bytes" where
  "be_bytes w = rev (bytes_of_u32 w)"

section \<open>Round trips\<close>

lemma length_bytes_of_u32 [simp]: "length (bytes_of_u32 w) = 4"
  by (simp add: bytes_of_u32_def)

lemma length_be_bytes [simp]: "length (be_bytes w) = 4"
  by (simp add: be_bytes_def)

lemma bytes_of_u32_of_bytes:
  assumes "length bs = 4"
  shows "bytes_of_u32 (u32_of_bytes bs) = bs"
proof -
  from assms obtain a b c d where bs: "bs = [a, b, c, d]"
    by (rule length_4E)
  define w :: u32 where "w = u32_of_bytes bs"
  have bits: "bit w n = (if n < 8 then bit a n else if n < 16 then bit b (n - 8)
      else if n < 24 then bit c (n - 16) else n < 32 \<and> bit d (n - 24))" for n
    by (auto simp: w_def bs u32_of_bytes_def bit_simps dest: bit_imp_le_length)
  have "ucast w = a" "ucast (drop_bit 8 w) = b" "ucast (drop_bit 16 w) = c" "ucast (drop_bit 24 w) = d"
    by (rule bit_word_eqI, simp add: bits bit_simps)+
  then show ?thesis by (simp add: bytes_of_u32_def bs flip: w_def [unfolded bs])
qed

lemma u32_of_bytes_of_u32 [simp]: "u32_of_bytes (bytes_of_u32 w) = w"
proof (rule bit_word_eqI)
  fix n assume n: "n < LENGTH(32)"
  consider "n < 8" | "8 \<le> n" "n < 16" | "16 \<le> n" "n < 24" | "24 \<le> n" by linarith
  then show "bit (u32_of_bytes (bytes_of_u32 w)) n = bit w n"
    using n by cases (auto simp: u32_of_bytes_def bytes_of_u32_def bit_simps)
qed

lemma bytes_of_htonl [simp]: "bytes_of_u32 (htonl w) = be_bytes w"
  by (simp add: htonl_def be_bytes_def bytes_of_u32_of_bytes)

lemma ntohl_be_bytes [simp]: "ntohl (u32_of_bytes (be_bytes w)) = w"
  by (simp add: ntohl_def be_bytes_def bytes_of_u32_of_bytes)

lemma be_bytes_ntohl: "length bs = 4 \<Longrightarrow> be_bytes (ntohl (u32_of_bytes bs)) = bs"
  by (simp add: ntohl_def be_bytes_def bytes_of_u32_of_bytes)

lemma ntohl_htonl [simp]: "ntohl (htonl w) = w"
  by (simp add: ntohl_def flip: be_bytes_def) (simp add: be_bytes_def)

lemma be_bytes_append_inject: "be_bytes a @ x = be_bytes b @ y \<longleftrightarrow> a = b \<and> x = y"
proof
  assume eq: "be_bytes a @ x = be_bytes b @ y"
  have "length (be_bytes a) = length (be_bytes b)" by (simp only: length_be_bytes)
  with eq have "be_bytes a = be_bytes b \<and> x = y" by (metis append_eq_append_conv)
  then show "a = b \<and> x = y" by (metis ntohl_be_bytes)
qed (simp only:)

end
