(* ===== verification/Message.thy ===== *)
theory Message
  imports Byte_Order
begin

text \<open>
  The message layer of \<open>include/protocol.hpp\<close> and \<open>src/protocol.cpp\<close>: the seven-byte header,
  the message struct, serialisation into a connection's outgoing buffer, parsing from an
  incoming buffer, and the specification they meet: a stream of frames.
\<close>

definition MSG_HEADER_SIZE :: nat where "MSG_HEADER_SIZE = 7"
definition MSG_MAX_PAYLOAD_SIZE :: nat where "MSG_MAX_PAYLOAD_SIZE = 4096"
definition MAX_USERNAME_SIZE :: nat where "MAX_USERNAME_SIZE = 32"
definition MAX_PASSWORD_SIZE :: nat where "MAX_PASSWORD_SIZE = 32"
definition MAX_MSG_CONTENT_SIZE :: nat where "MAX_MSG_CONTENT_SIZE = 255"

lemmas size_defs = MSG_HEADER_SIZE_def MSG_MAX_PAYLOAD_SIZE_def MAX_USERNAME_SIZE_def
  MAX_PASSWORD_SIZE_def MAX_MSG_CONTENT_SIZE_def

datatype msg_type_t = REGISTER | LOGIN | CHAT | LIST

primrec mtype :: "msg_type_t \<Rightarrow> u8" where
  "mtype REGISTER = 0"
| "mtype LOGIN = 1"
| "mtype CHAT = 2"
| "mtype LIST = 3"

datatype response_code_t =
    RESP_OK
  | RESP_ERROR_MALFORMED
  | RESP_ERROR_USER_EXISTS
  | RESP_ERROR_USER_NOT_FOUND
  | RESP_ERROR_INVALID_CREDENTIALS
  | RESP_ERROR_INTERNAL
  | RESP_ERROR_UNKNOWN_COMMAND

text \<open>The handlers pass response codes around as \<open>int\<close>, so a code is also its integer.\<close>

primrec rcode :: "response_code_t \<Rightarrow> int" where
  "rcode RESP_OK = 0"
| "rcode RESP_ERROR_MALFORMED = 1"
| "rcode RESP_ERROR_USER_EXISTS = 2"
| "rcode RESP_ERROR_USER_NOT_FOUND = 3"
| "rcode RESP_ERROR_INVALID_CREDENTIALS = 4"
| "rcode RESP_ERROR_INTERNAL = 5"
| "rcode RESP_ERROR_UNKNOWN_COMMAND = 6"

datatype tlv_tag_t =
    TAG_USERNAME
  | TAG_PASSWORD
  | TAG_RESPONSE_CODE
  | TAG_RESPONSE_MESSAGE
  | TAG_WORLD_BROADCAST
  | TAG_P2P_BROADCAST
  | TAG_USER_ID
  | TAG_ROOM_ID
  | TAG_IS_AUTH
  | TAG_SENDER_USERNAME
  | TAG_RECIPIENT_USERNAME
  | TAG_MESSAGE_CONTENT
  | TAG_TIMESTAMP

primrec tag :: "tlv_tag_t \<Rightarrow> u8" where
  "tag TAG_USERNAME = 0"
| "tag TAG_PASSWORD = 1"
| "tag TAG_RESPONSE_CODE = 2"
| "tag TAG_RESPONSE_MESSAGE = 3"
| "tag TAG_WORLD_BROADCAST = 4"
| "tag TAG_P2P_BROADCAST = 5"
| "tag TAG_USER_ID = 6"
| "tag TAG_ROOM_ID = 7"
| "tag TAG_IS_AUTH = 8"
| "tag TAG_SENDER_USERNAME = 9"
| "tag TAG_RECIPIENT_USERNAME = 10"
| "tag TAG_MESSAGE_CONTENT = 11"
| "tag TAG_TIMESTAMP = 12"

text \<open>
  \<open>message_t\<close>. The payload pointer is \<open>None\<close> for \<open>NULL\<close>, otherwise the memory it can reach:
  the bytes from the pointer to the end of the object it points into (the rest of an incoming
  buffer, or a stack array).
\<close>

record message_t =
  payload_length :: u32
  msg_version :: u8
  msg_type :: u8
  msg_rc :: u8
  payload :: "bytes option"

text \<open>The memory reachable through a payload pointer; nothing is reachable through \<open>NULL\<close>.\<close>

definition payload_mem :: "message_t \<Rightarrow> bytes" where
  "payload_mem m = (case payload m of None \<Rightarrow> [] | Some bs \<Rightarrow> bs)"

text \<open>\<open>message_t m{}\<close>: every field zero.\<close>

definition message_zero :: message_t where
  "message_zero = \<lparr>payload_length = 0, msg_version = 0, msg_type = 0, msg_rc = 0, payload = None\<rparr>"

fun dec_digits :: "nat \<Rightarrow> bytes" where
  "dec_digits n = (if n < 10 then [u8_cast (48 + n)]
                   else dec_digits (n div 10) @ [u8_cast (48 + n mod 10)])"

declare dec_digits.simps [simp del]

text \<open>\<open>std::to_string(int)\<close>.\<close>

definition to_string :: "int \<Rightarrow> bytes" where
  "to_string i = (if i < 0 then 45 # dec_digits (nat (- i)) else dec_digits (nat i))"

definition get_response_message :: "int \<Rightarrow> bytes" where
  "get_response_message code =
     (if code = rcode RESP_OK then str ''Success''
      else if code = rcode RESP_ERROR_MALFORMED then str ''Malformed request''
      else if code = rcode RESP_ERROR_USER_EXISTS then str ''Username already taken''
      else if code = rcode RESP_ERROR_USER_NOT_FOUND then str ''User not found''
      else if code = rcode RESP_ERROR_INVALID_CREDENTIALS then str ''Invalid credentials''
      else if code = rcode RESP_ERROR_INTERNAL then str ''Internal server error''
      else if code = rcode RESP_ERROR_UNKNOWN_COMMAND then str ''Unknown command''
      else str ''Unknown response code ('' @ to_string code @ str '')'')"

definition buf_append :: "bytes \<Rightarrow> bytes \<Rightarrow> nat \<Rightarrow> bytes option" where
  "buf_append buf data len = do { bs \<leftarrow> mem_read data 0 len; Some (buf @ bs) }"

text \<open>\<open>erase(begin, begin + n)\<close> past the end is undefined.\<close>

definition buf_consume :: "bytes \<Rightarrow> nat \<Rightarrow> bytes option" where
  "buf_consume buf n = (if n \<le> length buf then Some (drop n buf) else None)"

definition write_message_to_buffer :: "bytes \<Rightarrow> message_t \<Rightarrow> bytes option" where
  "write_message_to_buffer buffer message = do {
     buffer \<leftarrow> buf_append buffer [msg_version message] 1;
     buffer \<leftarrow> buf_append buffer [msg_type message] 1;
     buffer \<leftarrow> buf_append buffer [msg_rc message] 1;
     let net_payload_len = htonl (payload_length message);
     buffer \<leftarrow> buf_append buffer (bytes_of_u32 net_payload_len) 4;
     case payload message of
       None \<Rightarrow> Some buffer
     | Some p \<Rightarrow> if payload_length message > 0
                 then buf_append buffer p (unat (payload_length message))
                 else Some buffer }"

text \<open>
  \<open>&buffer[MSG_HEADER_SIZE]\<close> names an element of the vector, so the eighth byte must exist.
\<close>

definition parse_message :: "bytes \<Rightarrow> message_t \<Rightarrow> message_t option" where
  "parse_message buffer message = do {
     v \<leftarrow> at buffer 0;
     t \<leftarrow> at buffer 1;
     r \<leftarrow> at buffer 2;
     len \<leftarrow> mem_read buffer 3 4;
     _ \<leftarrow> at buffer MSG_HEADER_SIZE;
     Some (message\<lparr>msg_version := v, msg_type := t, msg_rc := r,
       payload_length := ntohl (u32_of_bytes len),
       payload := Some (drop MSG_HEADER_SIZE buffer)\<rparr>) }"

text \<open>\<open>*request.payload\<close>.\<close>

definition peek_broadcast_type :: "message_t \<Rightarrow> u8 option" where
  "peek_broadcast_type request = at (payload_mem request) 0"

text \<open>The assignment of the response code to \<open>uint8_t\<close> keeps its low byte.\<close>

definition build_server_response :: "u8 \<Rightarrow> int \<Rightarrow> bytes option \<Rightarrow> u32 \<Rightarrow> message_t" where
  "build_server_response ty rc pl len =
     \<lparr>payload_length = len, msg_version = 1, msg_type = ty, msg_rc = word_of_int rc, payload = pl\<rparr>"

section \<open>Specification: frames\<close>

text \<open>
  A frame is what one message is on the wire: three header bytes, the length of the payload
  as four bytes most significant first, and the payload.
\<close>

record frame =
  f_version :: u8
  f_type :: u8
  f_rc :: u8
  f_payload :: bytes

definition frame_ok :: "frame \<Rightarrow> bool" where
  "frame_ok f \<longleftrightarrow> length (f_payload f) \<le> MSG_MAX_PAYLOAD_SIZE"

definition encode_frame :: "frame \<Rightarrow> bytes" where
  "encode_frame f =
     [f_version f, f_type f, f_rc f] @ be_bytes (u32_cast (length (f_payload f))) @ f_payload f"

definition encode_frames :: "frame list \<Rightarrow> bytes" where
  "encode_frames fs = concat (map encode_frame fs)"

text \<open>The frame a message struct stands for, and the structs that stand for one.\<close>

definition message_ok :: "message_t \<Rightarrow> bool" where
  "message_ok m \<longleftrightarrow> unat (payload_length m) \<le> length (payload_mem m) \<and>
     unat (payload_length m) \<le> MSG_MAX_PAYLOAD_SIZE"

definition message_frame :: "message_t \<Rightarrow> frame" where
  "message_frame m = \<lparr>f_version = msg_version m, f_type = msg_type m, f_rc = msg_rc m,
     f_payload = take (unat (payload_length m)) (payload_mem m)\<rparr>"

text \<open>The payload bytes a message announces, and that they lie inside the object pointed to.\<close>

definition msg_payload :: "message_t \<Rightarrow> bytes" where
  "msg_payload m = take (unat (payload_length m)) (payload_mem m)"

definition payload_inside :: "message_t \<Rightarrow> bool" where
  "payload_inside m \<longleftrightarrow> unat (payload_length m) \<le> length (payload_mem m)"

named_theorems msg_simps "facts about messages and frames"

lemma encode_frames_simps [simp]:
  "encode_frames [] = []"
  "encode_frames (f # fs) = encode_frame f @ encode_frames fs"
  "encode_frames (fs @ gs) = encode_frames fs @ encode_frames gs"
  by (simp_all add: encode_frames_def)

lemma length_encode_frame: "length (encode_frame f) = 7 + length (f_payload f)"
  by (simp add: encode_frame_def)

lemma payload_mem_simps [simp]:
  "payload_mem (m\<lparr>payload := Some bs\<rparr>) = bs"
  "payload m = None \<Longrightarrow> payload_mem m = []"
  "payload m = Some bs \<Longrightarrow> payload_mem m = bs"
  by (simp_all add: payload_mem_def)

lemma message_frame_ok [msg_simps]: "message_ok m \<Longrightarrow> frame_ok (message_frame m)"
  by (simp add: message_ok_def message_frame_def frame_ok_def)

lemma write_message_frame:
  assumes "message_ok m"
  shows "write_message_to_buffer buffer m = Some (buffer @ encode_frame (message_frame m))"
proof (cases "payload m")
  case None
  with assms have "payload_length m = 0"
    by (simp add: message_ok_def unat_eq_0)
  with None show ?thesis
    by (simp add: write_message_to_buffer_def buf_append_def mem_read_in encode_frame_def
          message_frame_def payload_mem_def)
next
  case (Some p)
  then have len: "u32_cast (length (take (unat (payload_length m)) p)) = payload_length m"
    using assms by (simp add: message_ok_def min_absorb2)
  show ?thesis
    using Some assms len
    by (auto simp: write_message_to_buffer_def buf_append_def mem_read_in encode_frame_def
          message_frame_def message_ok_def word_gt_0 Let_def simp del: length_take)
qed

lemma parse_message_frame:
  assumes "length (f_payload f) < 2 ^ 32" and "f_payload f @ rest \<noteq> []"
  shows "parse_message (encode_frame f @ rest) m = Some (m\<lparr>
     payload_length := u32_cast (length (f_payload f)), msg_version := f_version f,
     msg_type := f_type f, msg_rc := f_rc f, payload := Some (f_payload f @ rest)\<rparr>)"
proof -
  obtain a b c d where be: "be_bytes (u32_cast (length (f_payload f))) = [a, b, c, d]"
    by (rule length_4E [OF length_be_bytes])
  have "ntohl (u32_of_bytes [a, b, c, d]) = u32_cast (length (f_payload f))"
    by (simp flip: be)
  with be assms(2) show ?thesis
    by (simp add: parse_message_def encode_frame_def at_in mem_read_in MSG_HEADER_SIZE_def
          nth_append numeral_eq_Suc Suc_le_eq)
qed

text \<open>Frames can be read off their encoding in one way only.\<close>

lemma encode_frame_inject:
  assumes "frame_ok f" "frame_ok g" "encode_frame f @ x = encode_frame g @ y"
  shows "f = g \<and> x = y"
proof -
  have eq: "f_version f = f_version g \<and> f_type f = f_type g \<and> f_rc f = f_rc g \<and>
      be_bytes (u32_cast (length (f_payload f))) @ f_payload f @ x =
      be_bytes (u32_cast (length (f_payload g))) @ f_payload g @ y"
    using assms(3) by (simp only: encode_frame_def append_assoc append_Cons append_Nil list.inject)
  then have "unat (u32_cast (length (f_payload f))) = unat (u32_cast (length (f_payload g)))"
    by (simp only: be_bytes_append_inject)
  then have "length (f_payload f) = length (f_payload g)"
    using assms(1,2) by (simp add: frame_ok_def MSG_MAX_PAYLOAD_SIZE_def)
  moreover have "f_payload f @ x = f_payload g @ y" using eq by (simp only: be_bytes_append_inject)
  ultimately have "f_payload f = f_payload g \<and> x = y" by (metis append_eq_append_conv)
  with eq show ?thesis by (cases f; cases g) simp
qed

lemma encode_frames_inject:
  "list_all frame_ok fs \<Longrightarrow> list_all frame_ok gs \<Longrightarrow> encode_frames fs = encode_frames gs \<Longrightarrow> fs = gs"
proof (induction fs arbitrary: gs)
  case Nil
  then show ?case by (cases gs) (simp_all add: encode_frame_def)
next
  case (Cons f fs)
  then obtain g hs where g: "gs = g # hs" by (cases gs) (simp_all add: encode_frame_def)
  then have "encode_frame f @ encode_frames fs = encode_frame g @ encode_frames hs"
    using Cons.prems(3) by (simp only: encode_frames_simps)
  with Cons.prems(1,2) g have "f = g" "encode_frames fs = encode_frames hs"
    using encode_frame_inject [of f g "encode_frames fs" "encode_frames hs"] by (simp_all only: list.pred_inject simp_thms)
  with Cons.IH [of hs] Cons.prems(1,2) show ?case by (simp only: g list.pred_inject simp_thms)
qed

text \<open>Conversely every buffer of at least eight bytes parses, whatever it holds.\<close>

lemma parse_message_total:
  assumes "MSG_HEADER_SIZE + 1 \<le> length buffer"
  shows "parse_message buffer m = Some (m\<lparr>
     payload_length := ntohl (u32_of_bytes (take 4 (drop 3 buffer))), msg_version := buffer ! 0,
     msg_type := buffer ! 1, msg_rc := buffer ! 2, payload := Some (drop 7 buffer)\<rparr>)"
proof -
  from assms have "buffer \<noteq> []" by auto
  then show ?thesis
    using assms by (simp add: parse_message_def at_in mem_read_in MSG_HEADER_SIZE_def)
qed

end
