(* ===== verification/Numbers.thy ===== *)
theory Numbers
  imports Console Message
begin

text \<open>
  Decimal numbers as the C library and the streams read them, \<open>atoi\<close>, and the rest of the console
  helpers of \<open>src/shared.cpp\<close>: \<open>get_valid_input_range\<close>, \<open>msg\<close> and \<open>die\<close>. Reading gives back what
  printing (\<open>to_string\<close>) wrote, and the input loop ends only with a number in its range.
\<close>

section \<open>Numbers\<close>

definition is_digit :: "u8 \<Rightarrow> bool" where
  "is_digit c \<longleftrightarrow> 48 \<le> c \<and> c \<le> 57"

definition digits_value :: "bytes \<Rightarrow> int" where
  "digits_value ds = foldl (\<lambda>v c. 10 * v + (uint c - 48)) 0 ds"

text \<open>
  A decimal number of a stream, with its white space and sign: \<open>%d\<close> of \<open>scanf\<close>, \<open>strtol\<close> and
  \<open>stream >> n\<close>. The bytes looked at in vain are used up.
\<close>

datatype scan = Scanned int bytes | No_Number bytes

definition scan_int :: "bytes \<Rightarrow> scan" where
  "scan_int s =
     (let s = skip_ws s;
          (neg, s) = (case s of [] \<Rightarrow> (False, [])
            | c # s' \<Rightarrow> if c = 45 then (True, s') else if c = 43 then (False, s') else (False, s));
          ds = takeWhile is_digit s
      in if ds = [] then No_Number s
         else Scanned (if neg then - digits_value ds else digits_value ds) (dropWhile is_digit s))"

definition int_range :: "int \<Rightarrow> bool" where
  "int_range v \<longleftrightarrow> - (2 ^ 31) \<le> v \<and> v < 2 ^ 31"

text \<open>\<open>atoi\<close>; undefined when the number is not an \<open>int\<close>.\<close>

definition atoi :: "bytes \<Rightarrow> int option" where
  "atoi s =
     (case scan_int (c_str s) of
        No_Number _ \<Rightarrow> Some 0
      | Scanned v _ \<Rightarrow> if int_range v then Some v else None)"

lemma digits_value_append: "digits_value (ds @ [c]) = 10 * digits_value ds + (uint c - 48)"
  by (simp add: digits_value_def)

lemma digit_code: "k < 10 \<Longrightarrow> is_digit (u8_cast (48 + k)) \<and> uint (u8_cast (48 + k)) = 48 + int k"
proof -
  assume "k < 10"
  then have "unat (u8_cast (48 + k)) = 48 + k" by (intro unat_u8_cast_small) simp
  then show ?thesis
    using \<open>k < 10\<close> by (simp add: is_digit_def word_le_nat_alt) (simp add: uint_nat)
qed

lemma dec_digits_number: "digits_value (dec_digits n) = int n \<and> (\<forall>c \<in> set (dec_digits n). is_digit c) \<and> dec_digits n \<noteq> []"
proof (induction n rule: dec_digits.induct)
  case (1 n)
  show ?case
  proof (cases "n < 10")
    case True
    with digit_code [OF True] show ?thesis by (simp add: dec_digits.simps [of n] digits_value_def)
  next
    case False
    have "10 * int (n div 10) + int (n mod 10) = int n" by presburger
    with False 1 [OF False] digit_code [of "n mod 10"] show ?thesis
      by (simp add: dec_digits.simps [of n] digits_value_append)
  qed
qed

lemma digit_not_space: "is_digit c \<Longrightarrow> \<not> is_space c \<and> c \<noteq> 45 \<and> c \<noteq> 43"
  by (auto simp: is_digit_def is_space_def word_le_nat_alt)

text \<open>Reading back what was printed.\<close>

lemma scan_to_string:
  assumes "rest = [] \<or> \<not> is_digit (hd rest)"
  shows "scan_int (to_string i @ rest) = Scanned i rest"
proof -
  have d: "takeWhile is_digit (dec_digits n @ rest) = dec_digits n"
    "dropWhile is_digit (dec_digits n @ rest) = rest" for n
    using dec_digits_number [of n] assms
    by (cases rest; simp add: takeWhile_append dropWhile_append)+
  have "\<exists>c ds. dec_digits n @ rest = c # ds \<and> is_digit c" for n
    using dec_digits_number [of n] by (cases "dec_digits n") auto
  then obtain c ds where pos: "dec_digits (nat i) @ rest = c # ds" "is_digit c" by blast
  show ?thesis
  proof (cases "i < 0")
    case True
    have "\<not> is_space 45" by (simp add: is_space_def)
    with True d dec_digits_number [of "nat (- i)"] show ?thesis
      by (simp add: scan_int_def to_string_def skip_ws_def)
  next
    case False
    have "skip_ws (dec_digits (nat i) @ rest) = dec_digits (nat i) @ rest"
      using digit_not_space [OF pos(2)] by (simp add: skip_ws_def pos(1))
    moreover have "(case dec_digits (nat i) @ rest of [] \<Rightarrow> (False, [])
        | c # s' \<Rightarrow> if c = 45 then (True, s') else if c = 43 then (False, s') else (False, dec_digits (nat i) @ rest))
        = (False, dec_digits (nat i) @ rest)"
      using digit_not_space [OF pos(2)] by (simp add: pos(1))
    ultimately show ?thesis
      using False d dec_digits_number [of "nat i"] by (simp add: scan_int_def to_string_def)
  qed
qed

lemma c_str_to_string: "0 \<notin> set (to_string i)"
proof -
  have "0 \<notin> set (dec_digits n)" for n
    using dec_digits_number [of n] by (auto simp: is_digit_def)
  then show ?thesis by (simp add: to_string_def)
qed

lemma atoi_to_string: "int_range i \<Longrightarrow> atoi (to_string i) = Some i"
  using scan_to_string [of "[]" i] by (simp add: atoi_def c_str_to_string)

text \<open>How many digits there can be.\<close>

lemma length_dec_digits: "n < 10 ^ k \<Longrightarrow> 0 < k \<Longrightarrow> length (dec_digits n) \<le> k"
proof (induction k arbitrary: n)
  case (Suc k)
  show ?case
  proof (cases "n < 10")
    case False
    then have "0 < k" using Suc.prems(1) by (cases k) auto
    moreover have "n div 10 < 10 ^ k" using Suc.prems(1) by (simp add: less_mult_imp_div_less)
    ultimately show ?thesis using Suc.IH [of "n div 10"] False by (simp add: dec_digits.simps [of n])
  qed (simp add: dec_digits.simps [of n])
qed simp

section \<open>get_valid_input_range\<close>

text \<open>\<open>while (getchar() != '\n');\<close>, which never ends at the end of the input.\<close>

partial_function (option) discard_line :: "bytes \<Rightarrow> bytes option" where
  "discard_line s =
     (case s of
        [] \<Rightarrow> discard_line []
      | c # s' \<Rightarrow> if c = 10 then Some s' else discard_line s')"

datatype number = Number int bytes | Undefined

text \<open>A number that is not an \<open>int\<close> is undefined behaviour of \<open>scanf\<close>.\<close>

partial_function (option) get_valid_input_range :: "int \<Rightarrow> int \<Rightarrow> bytes \<Rightarrow> number option" where
  "get_valid_input_range mn mx s =
     (case scan_int s of
        No_Number s \<Rightarrow> do {
          s \<leftarrow> discard_line s;
          get_valid_input_range mn mx s }
      | Scanned value s \<Rightarrow>
          if \<not> int_range value then Some Undefined
          else if value < mn \<or> value > mx then get_valid_input_range mn mx s
          else Some (Number value s))"

lemma discard_line_end: "discard_line [] = None"
proof -
  have "s \<noteq> []" if "discard_line s = Some t" for s t
    using that
  proof (rule discard_line.raw_induct [where P = "\<lambda>s t. s \<noteq> []", rotated])
    fix f :: "bytes \<Rightarrow> bytes option" and s t
    assume "\<And>s t. f s = Some t \<Longrightarrow> s \<noteq> []"
      and "(case s of [] \<Rightarrow> f [] | c # s' \<Rightarrow> if c = 10 then Some s' else f s') = Some t"
    then show "s \<noteq> []" by (cases s) auto
  qed
  then show ?thesis by (cases "discard_line []") auto
qed

lemma discard_line_eq: "discard_line s = (if 10 \<in> set s then Some (skip_line s) else None)"
proof (induction s)
  case Nil
  show ?case by (simp add: discard_line_end)
next
  case (Cons c s)
  then show ?case by (subst discard_line.simps) (simp add: skip_line_def)
qed

lemma input_range_result:
  assumes "get_valid_input_range mn mx s = Some (Number v s')"
  shows "mn \<le> v \<and> v \<le> mx \<and> int_range v"
proof -
  have "r = Number v s' \<longrightarrow> mn \<le> v \<and> v \<le> mx \<and> int_range v"
    if "get_valid_input_range mn mx s = Some r" for mn mx s r
    using that
  proof (rule get_valid_input_range.raw_induct
      [where P = "\<lambda>mn mx s r. r = Number v s' \<longrightarrow> mn \<le> v \<and> v \<le> mx \<and> int_range v", rotated])
    fix f :: "int \<Rightarrow> int \<Rightarrow> bytes \<Rightarrow> number option" and mn mx s r
    assume "\<And>mn mx s r. f mn mx s = Some r \<Longrightarrow> r = Number v s' \<longrightarrow> mn \<le> v \<and> v \<le> mx \<and> int_range v"
      and "(case scan_int s of
        No_Number s \<Rightarrow> do { s \<leftarrow> discard_line s; f mn mx s }
      | Scanned value s \<Rightarrow>
          if \<not> int_range value then Some Undefined
          else if value < mn \<or> value > mx then f mn mx s
          else Some (Number value s)) = Some r"
    then show "r = Number v s' \<longrightarrow> mn \<le> v \<and> v \<le> mx \<and> int_range v"
      by (auto split: scan.splits if_splits simp: bind_eq_Some_conv)
  qed
  with assms show ?thesis by blast
qed

text \<open>Without a digit left in the input it loops for ever.\<close>

lemma set_skip_line: "set (skip_line s) \<subseteq> set s"
  by (induction s) (auto simp: skip_line_def)

lemma length_skip_line: "10 \<in> set s \<Longrightarrow> length (skip_line s) < length s"
  by (induction s) (auto simp: skip_line_def)

lemma scan_no_digit:
  assumes "\<forall>c \<in> set s. \<not> is_digit c"
  obtains t where "scan_int s = No_Number t" "set t \<subseteq> set s" "length t \<le> length s"
proof -
  have ws: "set (skip_ws s) \<subseteq> set s" "length (skip_ws s) \<le> length s"
    by (auto simp: skip_ws_def length_dropWhile_le dest: set_dropWhileD)
  have nd: "takeWhile is_digit t = []" if "set t \<subseteq> set s" for t
    using that assms by (cases t) auto
  show thesis
  proof (cases "skip_ws s")
    case Nil
    then show thesis by (intro that [of "[]"]) (simp_all add: scan_int_def)
  next
    case (Cons c t)
    with ws nd [of t] nd [of "c # t"] show thesis
      by (cases "c = 45 \<or> c = 43"; intro that [of "if c = 45 \<or> c = 43 then t else c # t"])
        (auto simp: scan_int_def)
  qed
qed

lemma input_range_stuck:
  assumes "\<forall>c \<in> set s. \<not> is_digit c"
  shows "get_valid_input_range mn mx s = None"
  using assms
proof (induction s rule: length_induct)
  case (1 s)
  from scan_no_digit [OF 1(2)] obtain t where
    t: "scan_int s = No_Number t" "set t \<subseteq> set s" "length t \<le> length s" .
  show ?case
  proof (cases "10 \<in> set t")
    case True
    have "length (skip_line t) < length s" using length_skip_line [OF True] t(3) by simp
    moreover have "\<forall>c \<in> set (skip_line t). \<not> is_digit c" using set_skip_line [of t] t(2) 1(2) by blast
    ultimately have "get_valid_input_range mn mx (skip_line t) = None" using 1(1) by blast
    with t(1) True show ?thesis by (subst get_valid_input_range.simps) (simp add: discard_line_eq)
  next
    case False
    with t(1) show ?thesis by (subst get_valid_input_range.simps) (simp add: discard_line_eq)
  qed
qed

text \<open>\<open>msg\<close> and \<open>die\<close>: what goes to \<open>stderr\<close>; \<open>die\<close> then aborts.\<close>

definition msg :: "bytes \<Rightarrow> bytes" where
  "msg text = c_str text @ [10]"

definition die :: "int \<Rightarrow> bytes \<Rightarrow> bytes" where
  "die errno text = str ''['' @ to_string errno @ str ''] '' @ c_str text @ [10]"

end
