(* ===== verification/Server_Admin.thy ===== *)
theory Server_Admin
  imports Conn_Table Numbers
begin

text \<open>
  The operator's side of the server: the logger of \<open>src/logger.cpp\<close>, and the commands read from
  standard input with the \<open>/metrics\<close> command of \<open>src/server_utils.cpp\<close>. What the operating system
  reports of the memory is an argument; the report is the text that is logged.
\<close>

section \<open>The logger\<close>

datatype LogLevel = LOG_DEBUG | LOG_INFO | LOG_WARN | LOG_ERROR

primrec level_to_string :: "LogLevel \<Rightarrow> bytes" where
  "level_to_string LOG_DEBUG = str ''DEBUG''"
| "level_to_string LOG_INFO = str ''INFO''"
| "level_to_string LOG_WARN = str ''WARN''"
| "level_to_string LOG_ERROR = str ''ERROR''"

text \<open>\<open>strrchr(file, '/')\<close>: the part of the path after its last slash, or all of it.\<close>

fun file_name :: "bytes \<Rightarrow> bytes \<Rightarrow> bytes" where
  "file_name found [] = found"
| "file_name found (c # cs) = (if c = of_char CHR ''/'' then file_name cs cs else file_name found cs)"

text \<open>What a call prints; \<open>message\<close> is the formatted text, cut to the 1024-byte buffer.\<close>

definition logger_log :: "bool \<Rightarrow> LogLevel \<Rightarrow> bytes \<Rightarrow> int \<Rightarrow> bytes \<Rightarrow> bytes" where
  "logger_log should_log level file line message =
     (if \<not> should_log then []
      else str ''['' @ level_to_string level @ str ''] '' @ file_name file file @ str '':'' @
        to_string line @ str '' - '' @ take 1023 message)"

text \<open>The result and the new value of \<open>should_log\<close>.\<close>

definition init_logger :: "int \<Rightarrow> bool \<Rightarrow> int \<times> bool" where
  "init_logger enable_logging should_log =
     (if enable_logging \<noteq> 0 \<and> enable_logging \<noteq> 1 then (-1, should_log)
      else (0, enable_logging = 1))"

lemma file_name_spec:
  "of_char CHR ''/'' \<notin> set name \<Longrightarrow> file_name found (dir @ of_char CHR ''/'' # name) = name"
proof (induction dir arbitrary: found)
  case Nil
  have "of_char CHR ''/'' \<notin> set name \<Longrightarrow> file_name f name = f" for f :: bytes
    by (induction name) auto
  with Nil show ?case by simp
qed auto

section \<open>The metrics report\<close>

type_synonym u64 = "64 word"

abbreviation u64_cast :: "int \<Rightarrow> u64" where
  "u64_cast i \<equiv> word_of_int i"

definition long_range :: "int \<Rightarrow> bool" where
  "long_range v \<longleftrightarrow> - (2 ^ 63) \<le> v \<and> v < 2 ^ 63"

record MemoryMetrics =
  virtual_mem_bytes :: int
  physical_ram_bytes :: int

text \<open>
  What the system says: the text of \<open>/proc/self/statm\<close> if it can be opened, the page size, and
  three fields of \<open>mallinfo2\<close>.
\<close>

record memory_source =
  statm :: "bytes option"
  page_size :: int
  uordblks :: u64
  fordblks :: u64
  arena :: u64

text \<open>\<open>stream >> n\<close> for a \<open>long\<close>: a number out of range fails like none at all.\<close>

definition extract_long :: "bytes \<Rightarrow> (int \<times> bytes) option" where
  "extract_long s =
     (case scan_int s of
        No_Number _ \<Rightarrow> None
      | Scanned v s \<Rightarrow> if long_range v then Some (v, s) else None)"

text \<open>A product that is not a \<open>long\<close> is undefined.\<close>

definition long_mult :: "int \<Rightarrow> int \<Rightarrow> int option" where
  "long_mult a b = (if long_range (a * b) then Some (a * b) else None)"

definition get_memory_usage :: "memory_source \<Rightarrow> MemoryMetrics option" where
  "get_memory_usage src =
     (case do { s \<leftarrow> statm src; (vm_pages, s) \<leftarrow> extract_long s; (rss_pages, s) \<leftarrow> extract_long s;
                Some (vm_pages, rss_pages) } of
        Some (vm_pages, rss_pages) \<Rightarrow> do {
          v \<leftarrow> long_mult vm_pages (page_size src);
          r \<leftarrow> long_mult rss_pages (page_size src);
          Some \<lparr>virtual_mem_bytes = v, physical_ram_bytes = r\<rparr> }
      | None \<Rightarrow> Some \<lparr>virtual_mem_bytes = 0, physical_ram_bytes = 0\<rparr>)"

text \<open>
  \<open>snprintf(buf + offset, sizeof(buf) - offset, ...)\<close> with the formatted text: what fits with a
  NUL behind it. The size is unsigned, so an offset behind the end would make it huge.
\<close>

definition snprintf :: "bytes \<Rightarrow> nat \<Rightarrow> bytes \<Rightarrow> bytes option" where
  "snprintf buf offset text =
     (let n = unat (u64_cast (int (length buf)) - u64_cast (int offset)) in
      if n = 0 then Some buf else mem_write buf offset (take (n - 1) text @ [0]))"

text \<open>The report in \<open>buf\<close>; the value is the text \<open>LOG_INFO\<close> formats with \<open>%s\<close> and a newline.\<close>

definition log_server_metrics :: "ConnFlags list \<Rightarrow> memory_source \<Rightarrow> bytes option" where
  "log_server_metrics fls src = do {
     let (num_connected, num_auth) = count_connections fls (0, 0);
     mem \<leftarrow> get_memory_usage src;
     let buf = replicate 512 0;
     let line = str ''Num connections = '' @ to_string (int num_connected) @ str '', num auth = '' @
       to_string (uint (u64_cast (int num_auth))) @ [10];
     buf \<leftarrow> snprintf buf 0 line;
     let offset = length line;
     let line = str ''Physical RAM Usage (bytes) = '' @
       to_string (uint (u64_cast (physical_ram_bytes mem))) @ [10];
     buf \<leftarrow> snprintf buf offset line;
     let offset = offset + length line;
     let line = str ''Heap Used = '' @ to_string (uint (uordblks src)) @ str '' bytes, heap free = '' @
       to_string (uint (fordblks src)) @ str '' bytes, total heap = '' @ to_string (uint (arena src)) @ [10];
     buf \<leftarrow> snprintf buf offset line;
     Some (c_str buf @ [10]) }"

text \<open>The report as it is meant: the three lines.\<close>

definition metrics_text :: "nat \<Rightarrow> nat \<Rightarrow> int \<Rightarrow> memory_source \<Rightarrow> bytes" where
  "metrics_text num_connected num_auth ram src =
     str ''Num connections = '' @ to_string (int num_connected) @ str '', num auth = '' @
       to_string (int num_auth) @ [10] @
     str ''Physical RAM Usage (bytes) = '' @ to_string (uint (u64_cast ram)) @ [10] @
     str ''Heap Used = '' @ to_string (uint (uordblks src)) @ str '' bytes, heap free = '' @
       to_string (uint (fordblks src)) @ str '' bytes, total heap = '' @ to_string (uint (arena src)) @ [10]"

lemma snprintf_fits:
  assumes "offset + length text < length buf" "length buf < 2 ^ 64"
  shows "snprintf buf offset text = Some (overwrite buf offset (text @ [0]))"
proof -
  have "unat (u64_cast (int (length buf)) - u64_cast (int offset)) = length buf - offset"
    using assms by (simp add: unat_sub_if' unat_of_nat flip: of_nat_diff)
  with assms show ?thesis by (simp add: snprintf_def Let_def mem_write_in)
qed

text \<open>A text that is written over the NUL of the one before it.\<close>

lemma overwrite_text:
  assumes "q = p + length a" "b \<noteq> []" "q + length b \<le> length buf"
  shows "overwrite (overwrite buf p (a @ [0])) q b = overwrite buf p (a @ b)"
  using assms by (cases b) (simp_all add: overwrite_def ac_simps)

lemma snprintf_next:
  assumes "snprintf buf 0 a = Some buf'" "length a + length b < length buf" "length buf < 2 ^ 64"
  shows "snprintf buf' (length a) b = snprintf buf 0 (a @ b)"
proof -
  have "buf' = overwrite buf 0 (a @ [0])"
    using assms snprintf_fits [of 0 a buf] by simp
  then show ?thesis
    using assms(2,3) snprintf_fits [of "length a" b buf'] snprintf_fits [of 0 "a @ b" buf]
      overwrite_text [of "length a" 0 a "b @ [0]" buf]
    by simp
qed

lemma length_to_string_nat: "n < 10 ^ k \<Longrightarrow> 0 < k \<Longrightarrow> length (to_string (int n)) \<le> k"
  by (simp add: to_string_def length_dec_digits)

lemma length_to_string_u64: "length (to_string (uint (w :: u64))) \<le> 20"
proof -
  have "unat w < 10 ^ 20" using unsigned_less [where ?'a = nat and w = w] by simp
  then have "length (to_string (int (unat w))) \<le> 20" by (rule length_to_string_nat) simp
  then show ?thesis by (simp only: uint_nat)
qed

lemma c_str_overwrite: "0 \<notin> set t \<Longrightarrow> c_str (overwrite buf 0 (t @ [0])) = t"
  by (simp add: overwrite_def c_str_cut)

lemma snprintf_three:
  assumes "length a + length b + length c < length buf" "length buf < 2 ^ 64"
  obtains m1 m2 where "snprintf buf 0 a = Some m1" "snprintf m1 (length a) b = Some m2"
    "snprintf m2 (length a + length b) c = Some (overwrite buf 0 ((a @ b @ c) @ [0]))"
proof -
  obtain m1 m2 where m: "snprintf buf 0 a = Some m1" "snprintf buf 0 (a @ b) = Some m2"
    using assms snprintf_fits [of 0 a buf] snprintf_fits [of 0 "a @ b" buf] by simp
  have "snprintf m1 (length a) b = Some m2"
    using snprintf_next [OF m(1) _ assms(2), of b] m(2) assms(1) by simp
  moreover have "snprintf m2 (length a + length b) c = Some (overwrite buf 0 ((a @ b @ c) @ [0]))"
    using snprintf_next [OF m(2) _ assms(2), of c] snprintf_fits [of 0 "(a @ b) @ c" buf] assms by simp
  ultimately show thesis using m(1) by (intro that)
qed

text \<open>The report always fits: with numbers of any size it is shorter than the buffer.\<close>

lemma log_server_metrics_report:
  assumes "count_connections fls (0, 0) = (c, a)" "c < 2 ^ 31" "a < 2 ^ 31" "get_memory_usage src = Some mem"
  shows "log_server_metrics fls src = Some (metrics_text c a (physical_ram_bytes mem) src @ [10])"
proof -
  let ?l1 = "str ''Num connections = '' @ to_string (int c) @ str '', num auth = '' @ to_string (int a) @ [10]"
  let ?l2 = "str ''Physical RAM Usage (bytes) = '' @ to_string (uint (u64_cast (physical_ram_bytes mem))) @ [10]"
  let ?l3 = "str ''Heap Used = '' @ to_string (uint (uordblks src)) @ str '' bytes, heap free = '' @
       to_string (uint (fordblks src)) @ str '' bytes, total heap = '' @ to_string (uint (arena src)) @ [10]"
  let ?buf = "replicate 512 0 :: bytes"
  have a: "uint (u64_cast (int a)) = int a" using assms(3) by (simp add: unsigned_of_nat take_bit_nat_eq_self)
  have n: "length (to_string (int c)) \<le> 10" "length (to_string (int a)) \<le> 10"
    using assms(2,3) by (auto intro!: length_to_string_nat)
  have len: "length ?l1 \<le> 60" "length ?l2 \<le> 60" "length ?l3 \<le> 120"
    using n length_to_string_u64 [of "u64_cast (physical_ram_bytes mem)"] length_to_string_u64 [of "uordblks src"]
      length_to_string_u64 [of "fordblks src"] length_to_string_u64 [of "arena src"]
    by (simp_all add: str_def)
  have sum: "length ?l1 + length ?l2 + length ?l3 < length ?buf"
    unfolding length_replicate using len by linarith
  have small: "length ?buf < 2 ^ 64" by simp
  obtain m1 m2 where three: "snprintf ?buf 0 ?l1 = Some m1" "snprintf m1 (length ?l1) ?l2 = Some m2"
      "snprintf m2 (length ?l1 + length ?l2) ?l3 = Some (overwrite ?buf 0 ((?l1 @ ?l2 @ ?l3) @ [0]))"
    by (rule snprintf_three [OF sum small])
  have report: "metrics_text c a (physical_ram_bytes mem) src = ?l1 @ ?l2 @ ?l3"
    by (simp add: metrics_text_def)
  have "0 \<notin> set (?l1 @ ?l2 @ ?l3)" using c_str_to_string by (simp add: str_def)
  then have "c_str (overwrite ?buf 0 ((?l1 @ ?l2 @ ?l3) @ [0])) = ?l1 @ ?l2 @ ?l3" by (rule c_str_overwrite)
  then show ?thesis
    unfolding log_server_metrics_def Let_def report a assms(1,4)
    by (simp only: three a Option.bind.simps prod.case)
qed

section \<open>Commands from standard input\<close>

text \<open>
  What \<open>read\<close> answers: data of at most 127 bytes, an interruption, or one of the answers that
  end the loop.
\<close>

datatype stdin_answer = Stdin_Data bytes | Stdin_Interrupted
datatype stdin_end = Stdin_Closed | Stdin_Would_Block | Stdin_Error

text \<open>
  \<open>command_buffer += buf\<close> appends up to the first NUL; \<open>back()\<close> of an empty string is undefined.
\<close>

fun read_command :: "stdin_answer list \<Rightarrow> bytes \<Rightarrow> bool \<Rightarrow> (bytes \<times> bool) option" where
  "read_command [] command_buffer input_complete = Some (command_buffer, input_complete)"
| "read_command (Stdin_Interrupted # rs) command_buffer input_complete =
     read_command rs command_buffer input_complete"
| "read_command (Stdin_Data buf # rs) command_buffer input_complete =
     (let command_buffer = command_buffer @ c_str buf in
      if command_buffer = [] then None
      else read_command rs command_buffer (if last command_buffer = 10 then True else input_complete))"

text \<open>
  The result, and what is logged when the command is \<open>/metrics\<close>. Every answer that ends the loop
  is handled alike.
\<close>

definition handle_server_input ::
  "ConnFlags list \<Rightarrow> memory_source \<Rightarrow> stdin_answer list \<Rightarrow> stdin_end \<Rightarrow> (int \<times> bytes option) option" where
  "handle_server_input fls src answers ending = do {
     (command_buffer, input_complete) \<leftarrow> read_command answers [] False;
     if \<not> input_complete then Some (-1, None)
     else
       let command_buffer =
         (if command_buffer \<noteq> [] \<and> last command_buffer = 10 then butlast command_buffer
          else command_buffer) in
       if command_buffer = str ''/metrics'' then do {
         logged \<leftarrow> log_server_metrics fls src;
         Some (0, Some logged) }
       else Some (-1, None) }"

text \<open>
  The one way to leave the memory: \<open>back()\<close> of a buffer that is still empty after the first read,
  which began with a NUL.
\<close>

fun starts_with_nul :: "stdin_answer list \<Rightarrow> bool" where
  "starts_with_nul [] \<longleftrightarrow> False"
| "starts_with_nul (Stdin_Interrupted # rs) \<longleftrightarrow> starts_with_nul rs"
| "starts_with_nul (Stdin_Data buf # rs) \<longleftrightarrow> c_str buf = []"

lemma read_command_nonempty: "cmd \<noteq> [] \<Longrightarrow> read_command answers cmd complete \<noteq> None"
  by (induction answers cmd complete rule: read_command.induct) (auto simp: Let_def)

lemma read_command_undefined: "read_command answers [] complete = None \<longleftrightarrow> starts_with_nul answers"
  by (induction answers rule: starts_with_nul.induct) (auto simp: Let_def read_command_nonempty)

lemma handle_server_input_undefined:
  assumes "log_server_metrics fls src \<noteq> None"
  shows "handle_server_input fls src answers ending = None \<longleftrightarrow> starts_with_nul answers"
proof (cases "read_command answers [] False")
  case None
  then show ?thesis using read_command_undefined [of answers False] by (simp add: handle_server_input_def)
next
  case (Some r)
  then show ?thesis
    using read_command_undefined [of answers False] assms
    by (cases r) (auto simp: handle_server_input_def Let_def)
qed

lemma read_command_clean:
  assumes "\<forall>c \<in> set cs. c \<noteq> [] \<and> 0 \<notin> set c"
  shows "read_command (map Stdin_Data cs) acc done =
    Some (acc @ concat cs, done \<or> (\<exists>i < length cs. last (cs ! i) = 10))"
  using assms
proof (induction cs arbitrary: acc "done")
  case Nil
  then show ?case by simp
next
  case (Cons c cs)
  then have c: "acc @ c_str c \<noteq> []" "c_str c = c" "last (acc @ c) = last c" by auto
  have "(\<exists>i < length (c # cs). last ((c # cs) ! i) = 10) \<longleftrightarrow>
      last c = 10 \<or> (\<exists>i < length cs. last (cs ! i) = 10)"
    by (auto simp: less_Suc_eq_0_disj)
  with Cons c show ?case by (auto simp: Let_def)
qed

text \<open>
  The metrics command is recognised however the terminal splits the line, and logs the report.
\<close>

lemma handle_server_input_metrics:
  assumes "\<forall>c \<in> set cs. c \<noteq> []" "concat cs = str ''/metrics'' @ [10]"
  shows "handle_server_input fls src (map Stdin_Data cs) e =
    do { logged \<leftarrow> log_server_metrics fls src; Some (0, Some logged) }"
proof -
  have ne: "cs \<noteq> []" using assms(2) by auto
  have nul: "0 \<notin> set (concat cs)" unfolding assms(2) by (simp add: str_def)
  then have clean: "\<forall>c \<in> set cs. c \<noteq> [] \<and> 0 \<notin> set c" using assms(1) by auto
  have "last (last cs) = last (concat cs)"
    using ne assms(1) by (induction cs) auto
  then have "last (cs ! (length cs - 1)) = 10" using ne by (simp add: last_conv_nth assms(2))
  then have "\<exists>i < length cs. last (cs ! i) = 10" using ne by (intro exI [of _ "length cs - 1"]) simp
  then show ?thesis
    using read_command_clean [OF clean, of "[]" False] assms(2)
    by (simp add: handle_server_input_def)
qed

end
