(* ===== verification/Tlv.thy ===== *)
theory Tlv
  imports Message
begin

text \<open>
  The tag-length-value layer of \<open>src/protocol.cpp\<close>: \<open>write_tlv\<close>, and the loop that every
  parser of the file repeats around a \<open>switch\<close> over the tags. The loop is written once,
  with the body of the switch as its parameter; the parsers instantiate it. Its
  specification splits the payload into a list of (tag, value) pairs and runs the switch
  over that list. A locale states what the loop needs of a switch and what it then
  guarantees; the protocol theories interpret it for each parser.
\<close>

text \<open>
  \<open>write_tlv(buf, tag, len, value, convert)\<close>: \<open>buf\<close> is the object written to and \<open>pos\<close> the
  offset of the moving pointer, which is returned advanced. \<open>value\<close> is the memory behind the
  value pointer. A store outside the buffer, or a read beyond the value, is \<open>None\<close>.
\<close>

definition write_tlv ::
  "bytes \<Rightarrow> nat \<Rightarrow> tlv_tag_t \<Rightarrow> u8 \<Rightarrow> bytes \<Rightarrow> bool \<Rightarrow> (bytes \<times> nat) option" where
  "write_tlv buf pos t len value convert_to_network = do {
     buf \<leftarrow> mem_write buf pos [tag t];
     buf \<leftarrow> mem_write buf (pos + 1) [len];
     val \<leftarrow> mem_read value 0 (unat len);
     let val = (if convert_to_network then
                  if len = 2 then bytes_of_u16 (htons (u16_of_bytes val))
                  else if len = 4 then bytes_of_u32 (htonl (u32_of_bytes val))
                  else val
                else val);
     buf \<leftarrow> mem_write buf (pos + 2) val;
     Some (buf, pos + 2 + unat len) }"

text \<open>
  One round of a parser either goes on with the updated locals or returns a code. The locals
  carry the object the parser fills, which the caller sees on every return.
\<close>

datatype 's tlv_action = Next 's | Return int 's

function tlv_loop ::
  "(u8 \<Rightarrow> bytes \<Rightarrow> 's \<Rightarrow> 's tlv_action option) \<Rightarrow> bytes \<Rightarrow> nat \<Rightarrow> nat \<Rightarrow> 's
     \<Rightarrow> 's tlv_action option" where
  "tlv_loop sw mem payload_ptr payload_end s =
     (if payload_ptr < payload_end then
        if payload_ptr + 2 > payload_end then Some (Return (rcode RESP_ERROR_MALFORMED) s)
        else do {
          tg \<leftarrow> at mem payload_ptr;
          num_bytes \<leftarrow> at mem (payload_ptr + 1);
          if payload_ptr + 2 + unat num_bytes > payload_end
          then Some (Return (rcode RESP_ERROR_MALFORMED) s)
          else do {
            val \<leftarrow> mem_read mem (payload_ptr + 2) (unat num_bytes);
            act \<leftarrow> sw tg val s;
            (case act of
               Next s' \<Rightarrow> tlv_loop sw mem (payload_ptr + 2 + unat num_bytes) payload_end s'
             | Return r s' \<Rightarrow> Some (Return r s')) } }
      else Some (Next s))"
  by pat_completeness auto
termination
  by (relation "measure (\<lambda>(sw, mem, p, e, s). e - p)") auto

declare tlv_loop.simps [simp del]

section \<open>Specification: lists of (tag, value) pairs\<close>

definition encode_tlv :: "u8 \<times> bytes \<Rightarrow> bytes" where
  "encode_tlv x = fst x # u8_cast (length (snd x)) # snd x"

definition encode_tlvs :: "(u8 \<times> bytes) list \<Rightarrow> bytes" where
  "encode_tlvs xs = concat (map encode_tlv xs)"

text \<open>The pairs a payload holds, and whether it ends where the last pair does.\<close>

function split_tlvs :: "bytes \<Rightarrow> (u8 \<times> bytes) list \<times> bool" where
  "split_tlvs [] = ([], True)"
| "split_tlvs [b] = ([], False)"
| "split_tlvs (t # n # rest) =
     (if unat n \<le> length rest
      then (let (xs, ok) = split_tlvs (drop (unat n) rest) in ((t, take (unat n) rest) # xs, ok))
      else ([], False))"
  by pat_completeness auto
termination
  by (relation "measure length") auto

fun run_switch ::
  "(u8 \<Rightarrow> bytes \<Rightarrow> 's \<Rightarrow> 's tlv_action option) \<Rightarrow> (u8 \<times> bytes) list \<Rightarrow> 's
     \<Rightarrow> 's tlv_action option" where
  "run_switch sw [] s = Some (Next s)"
| "run_switch sw ((t, v) # xs) s =
     (case sw t v s of
        None \<Rightarrow> None
      | Some (Next s') \<Rightarrow> run_switch sw xs s'
      | Some (Return r s') \<Rightarrow> Some (Return r s'))"

definition tlv_spec ::
  "(u8 \<Rightarrow> bytes \<Rightarrow> 's \<Rightarrow> 's tlv_action option) \<Rightarrow> bytes \<Rightarrow> 's \<Rightarrow> 's tlv_action option" where
  "tlv_spec sw bs s =
     (let (xs, ok) = split_tlvs bs in
      case run_switch sw xs s of
        Some (Next s') \<Rightarrow> Some (if ok then Next s' else Return (rcode RESP_ERROR_MALFORMED) s')
      | r \<Rightarrow> r)"

named_theorems tlv_simps "writing and splitting TLVs"

lemma encode_tlvs_simps [simp]:
  "encode_tlvs [] = []"
  "encode_tlvs (x # xs) = encode_tlv x @ encode_tlvs xs"
  by (simp_all add: encode_tlvs_def)

lemma length_encode_tlv [simp]: "length (encode_tlv x) = 2 + length (snd x)"
  by (simp add: encode_tlv_def)

text \<open>The two directions of the codec.\<close>

lemma split_encode_tlvs:
  "\<forall>x \<in> set xs. length (snd x) \<le> 255 \<Longrightarrow> split_tlvs (encode_tlvs xs) = (xs, True)"
  by (induction xs) (auto simp: encode_tlv_def)

lemma encode_split_tlvs:
  "split_tlvs bs = (xs, True) \<Longrightarrow> encode_tlvs xs = bs \<and> (\<forall>x \<in> set xs. length (snd x) \<le> 255)"
  by (induction bs arbitrary: xs rule: split_tlvs.induct)
    (auto simp: encode_tlv_def min_absorb2 split: if_splits prod.splits)

lemma split_tlvs_lengths: "x \<in> set (fst (split_tlvs bs)) \<Longrightarrow> length (snd x) \<le> 255"
  by (induction bs rule: split_tlvs.induct)
    (auto split: if_splits prod.splits simp: min.coboundedI2)

lemma run_switch_append:
  "run_switch sw (xs @ ys) s =
     (case run_switch sw xs s of Some (Next s') \<Rightarrow> run_switch sw ys s' | r \<Rightarrow> r)"
  by (induction sw xs s rule: run_switch.induct) (auto split: option.splits tlv_action.splits)

text \<open>
  A switch whose steps fail, and go on, depending on the pair alone: the run fails exactly when it
  reaches a failing pair, that is, behind pairs that all let it go on.
\<close>

lemma run_switch_None:
  assumes "\<And>t v s. sw t v s = None \<longleftrightarrow> bad t v"
    and "\<And>t v s. (\<exists>s'. sw t v s = Some (Next s')) \<longleftrightarrow> good t v"
  shows "run_switch sw xs s = None \<longleftrightarrow>
    (\<exists>pre t v post. xs = pre @ (t, v) # post \<and> bad t v \<and> list_all (\<lambda>x. good (fst x) (snd x)) pre)"
proof (induction xs arbitrary: s)
  case (Cons x xs)
  obtain t v where x: "x = (t, v)" by (cases x)
  have ex: "(\<exists>pre. P pre) \<longleftrightarrow> P [] \<or> (\<exists>y ys. P (y # ys))" for P :: "(u8 \<times> bytes) list \<Rightarrow> bool"
    by (metis list.exhaust)
  have split: "(\<exists>pre t' v' post. x # xs = pre @ (t', v') # post \<and> bad t' v' \<and> list_all (\<lambda>x. good (fst x) (snd x)) pre)
    \<longleftrightarrow> bad t v \<or> good t v \<and>
      (\<exists>pre t' v' post. xs = pre @ (t', v') # post \<and> bad t' v' \<and> list_all (\<lambda>x. good (fst x) (snd x)) pre)"
    by (subst ex) (auto simp: x)
  show ?case
    unfolding split using assms(1) [of t v s] assms(2) [of t v s]
    by (cases "sw t v s") (simp_all add: x Cons.IH del: split_paired_Ex split: tlv_action.splits, blast+)
qed simp

text \<open>
  The loop refines the specification: on a payload that lies inside its object, running the
  pointers over the bytes is the same as splitting the payload and running the switch over
  the pairs, stopping with \<open>RESP_ERROR_MALFORMED\<close> where a pair is cut short.
\<close>

text \<open>One round, of the specification and of the loop.\<close>

lemma tlv_spec_round:
  assumes "unat n \<le> length rest"
  shows "tlv_spec sw (t # n # rest) s =
    (case sw t (take (unat n) rest) s of
       None \<Rightarrow> None
     | Some (Next s') \<Rightarrow> tlv_spec sw (drop (unat n) rest) s'
     | Some (Return r s') \<Rightarrow> Some (Return r s'))"
  using assms
  by (cases "split_tlvs (drop (unat n) rest)") (simp add: tlv_spec_def split: option.split tlv_action.split)

lemma tlv_loop_round:
  assumes "p + 2 + unat (mem ! Suc p) \<le> e" "e \<le> length mem"
  shows "tlv_loop sw mem p e s =
    (case sw (mem ! p) (take (unat (mem ! Suc p)) (drop (p + 2) mem)) s of
       None \<Rightarrow> None
     | Some (Next s') \<Rightarrow> tlv_loop sw mem (p + 2 + unat (mem ! Suc p)) e s'
     | Some (Return r s') \<Rightarrow> Some (Return r s'))"
  using assms
  by (simp add: tlv_loop.simps [of sw mem p e s] at_in mem_read_in split: option.split tlv_action.split)

lemma window_head:
  assumes "p + 2 \<le> e" "e \<le> length mem"
  shows "take (e - p) (drop p mem) = mem ! p # mem ! Suc p # take (e - p - 2) (drop (p + 2) mem)"
  using assms by (cases "e - p"; cases "e - p - 1") (simp_all add: Cons_nth_drop_Suc [symmetric])

lemma tlv_loop_spec:
  "p \<le> e \<Longrightarrow> e \<le> length mem \<Longrightarrow> tlv_loop sw mem p e s = tlv_spec sw (take (e - p) (drop p mem)) s"
proof (induction sw mem p e s rule: tlv_loop.induct)
  case (1 sw mem p e s)
  define n where "n = unat (mem ! Suc p)"
  consider "p = e" | "e = Suc p" | "p + 2 \<le> e" "e < p + 2 + n" | "p + 2 + n \<le> e"
    using "1.prems" by linarith
  then show ?case
  proof cases
    case 2
    with "1.prems" have "take (e - p) (drop p mem) = [mem ! p]" by (simp add: take_Suc_conv_app_nth)
    with 2 show ?thesis by (simp add: tlv_loop.simps [of sw mem p "Suc p" s] tlv_spec_def)
  next
    case 3
    then have "\<not> n \<le> e - Suc (Suc p)" by linarith
    with 3 window_head [OF 3(1) "1.prems"(2)] "1.prems" show ?thesis
      by (simp add: tlv_loop.simps [of sw mem p e s] tlv_spec_def at_in n_def [symmetric])
  next
    case 4
    then have two: "p + 2 \<le> e" by simp
    let ?rest = "take (e - p - 2) (drop (p + 2) mem)"
    have rest: "n \<le> length ?rest" "take n ?rest = take n (drop (p + 2) mem)"
      "drop n ?rest = take (e - (p + 2 + n)) (drop (p + 2 + n) mem)"
      using 4 "1.prems" by (simp_all add: drop_take ac_simps min_absorb2)
    have IH: "tlv_loop sw mem (p + 2 + n) e s' = tlv_spec sw (take (e - (p + 2 + n)) (drop (p + 2 + n) mem)) s'"
      if "sw (mem ! p) (take n (drop (p + 2) mem)) s = Some (Next s')" for s'
      using "1.IH" [OF _ _ _ _ _ _ that refl] 4 "1.prems" by (simp add: n_def at_in mem_read_in)
    show ?thesis
      unfolding tlv_loop_round [OF 4 [unfolded n_def] "1.prems"(2)] window_head [OF two "1.prems"(2)]
        tlv_spec_round [OF rest(1) [unfolded n_def]] rest(2,3) [unfolded n_def]
      using IH by (auto simp: n_def split: option.split tlv_action.split)
  qed (simp add: tlv_loop.simps [of sw mem e e s] tlv_spec_def)
qed

section \<open>Writing\<close>

text \<open>
  The length byte of a written string is its length modulo 256, and that many of its bytes
  are copied: \<open>u8_trunc s\<close> is what a string becomes in a TLV.
\<close>

definition u8_trunc :: "bytes \<Rightarrow> bytes" where
  "u8_trunc s = take (length s mod 256) s"

lemma u8_trunc_id [simp]: "length s \<le> 255 \<Longrightarrow> u8_trunc s = s"
  by (simp add: u8_trunc_def)

lemma length_u8_trunc: "length (u8_trunc s) = length s mod 256"
  by (simp add: u8_trunc_def min_absorb2)

lemma length_u8_trunc_le: "length (u8_trunc s) \<le> 255"
  unfolding length_u8_trunc using mod_less_divisor [of 256 "length s"] by simp

lemma encode_tlv_trunc:
  "encode_tlv (t, u8_trunc s) = t # u8_cast (length s) # take (unat (u8_cast (length s))) s"
proof -
  have "u8_cast (length s mod 256) = u8_cast (length s)"
    by (rule unsigned_word_eqI [where ?'a = nat]) (simp add: unat_of_nat)
  then show ?thesis
    by (simp add: encode_tlv_def u8_trunc_def length_u8_trunc [unfolded u8_trunc_def] unat_of_nat)
qed

lemma write_tlv_string [tlv_simps]:
  assumes "pos + length (encode_tlv (tag t, u8_trunc s)) \<le> length buf"
  shows "write_tlv buf pos t (u8_cast (length s)) s False =
    Some (overwrite buf pos (encode_tlv (tag t, u8_trunc s)),
          pos + length (encode_tlv (tag t, u8_trunc s)))"
proof -
  have "unat (u8_cast (length s)) = length s mod 256" by (simp add: unat_of_nat)
  then show ?thesis
    using assms unat_u8_cast_le [of "length s"]
    by (simp add: write_tlv_def mem_write_in mem_read_in encode_tlv_trunc length_u8_trunc)
qed

lemma write_tlv_u32 [tlv_simps]:
  assumes "pos + length (encode_tlv (tag t, be_bytes w)) \<le> length buf"
  shows "write_tlv buf pos t 4 (bytes_of_u32 w) True =
    Some (overwrite buf pos (encode_tlv (tag t, be_bytes w)),
          pos + length (encode_tlv (tag t, be_bytes w)))"
  using assms by (simp add: write_tlv_def mem_write_in mem_read_in encode_tlv_def)

lemma write_tlv_empty [tlv_simps]:
  assumes "pos + length (encode_tlv (tag t, [])) \<le> length buf"
  shows "write_tlv buf pos t 0 [] False =
    Some (overwrite buf pos (encode_tlv (tag t, [])), pos + length (encode_tlv (tag t, [])))"
  using write_tlv_string [of pos t "[]" buf] assms by simp

text \<open>
  A run of \<open>write_tlv\<close> calls on strings, as every builder makes it, writes the encoding of the
  list of pairs. \<open>write_strings\<close> is that run as one function.
\<close>

fun write_strings :: "bytes \<Rightarrow> nat \<Rightarrow> (tlv_tag_t \<times> bytes) list \<Rightarrow> (bytes \<times> nat) option" where
  "write_strings b p [] = Some (b, p)"
| "write_strings b p ((t, s) # xs) = do {
     (b, p) \<leftarrow> write_tlv b p t (u8_cast (length s)) s False;
     write_strings b p xs }"

definition string_tlvs :: "(tlv_tag_t \<times> bytes) list \<Rightarrow> (u8 \<times> bytes) list" where
  "string_tlvs xs = map (\<lambda>(t, s). (tag t, u8_trunc s)) xs"

lemma string_tlvs_simps [simp]:
  "string_tlvs [] = []"
  "string_tlvs ((t, s) # xs) = (tag t, u8_trunc s) # string_tlvs xs"
  by (simp_all add: string_tlvs_def)

lemma write_strings_spec:
  "p + length (encode_tlvs (string_tlvs xs)) \<le> length b \<Longrightarrow>
   write_strings b p xs = Some (overwrite b p (encode_tlvs (string_tlvs xs)),
     p + length (encode_tlvs (string_tlvs xs)))"
proof (induction xs arbitrary: b p)
  case Nil
  then show ?case by (simp add: overwrite_def)
next
  case (Cons x xs)
  obtain t s where x: "x = (t, s)" by (cases x)
  let ?u = "encode_tlv (tag t, u8_trunc s)"
  from Cons.prems have fits: "p + length ?u \<le> length b"
    "p + length ?u + length (encode_tlvs (string_tlvs xs)) \<le> length b"
    by (simp_all add: x)
  with Cons.IH [of "p + length ?u" "overwrite b p ?u"] show ?case
    by (simp add: x write_tlv_string [OF fits(1)] ac_simps del: length_encode_tlv)
qed

text \<open>The length arithmetic of the builders, on 32-bit words as in the code.\<close>

lemma payload_len_word: "u32_cast (7 + n) - u32_cast MSG_HEADER_SIZE = u32_cast n"
  by (simp add: MSG_HEADER_SIZE_def)

lemma payload_len_fits:
  "n \<le> MSG_MAX_PAYLOAD_SIZE \<Longrightarrow> \<not> u32_cast n > u32_cast MSG_MAX_PAYLOAD_SIZE"
  by (simp add: word_less_nat_alt MSG_MAX_PAYLOAD_SIZE_def unat_of_nat)

section \<open>Fields of a list of pairs\<close>

text \<open>A field that is sent twice has its last value.\<close>

fun last_value :: "u8 \<Rightarrow> (u8 \<times> bytes) list \<Rightarrow> bytes option" where
  "last_value t [] = None"
| "last_value t ((t', v) # xs) =
     (case last_value t xs of
        Some w \<Rightarrow> Some w
      | None \<Rightarrow> if t = t' then Some v else None)"

lemma last_value_member: "last_value t xs = Some v \<Longrightarrow> (t, v) \<in> set xs"
  by (induction t xs rule: last_value.induct) (auto split: option.splits if_splits)

section \<open>The interface between the loop and a switch\<close>

text \<open>
  What the loop needs of a switch: it is defined on the values it accepts (\<open>ok\<close>), and on values a
  TLV can hold, of at most 255 bytes, the only code it returns is \<open>RESP_ERROR_MALFORMED\<close>. What it gives then: a parser over a payload inside
  its object stays inside the object and can return nothing else.
\<close>

locale tlv_switch =
  fixes sw :: "u8 \<Rightarrow> bytes \<Rightarrow> 's \<Rightarrow> 's tlv_action option"
    and ok :: "u8 \<Rightarrow> bytes \<Rightarrow> bool"
  assumes sw_defined: "ok t v \<Longrightarrow> sw t v s \<noteq> None"
    and sw_malformed: "length v \<le> 255 \<Longrightarrow> sw t v s = Some (Return r s') \<Longrightarrow> r = rcode RESP_ERROR_MALFORMED"
begin

lemma run_defined: "\<forall>x \<in> set xs. ok (fst x) (snd x) \<Longrightarrow> run_switch sw xs s \<noteq> None"
proof (induction xs arbitrary: s)
  case Nil
  then show ?case by simp
next
  case (Cons x xs)
  then show ?case
    using sw_defined [of "fst x" "snd x" s]
    by (cases x) (auto split: option.splits tlv_action.splits)
qed

lemma run_malformed:
  "\<forall>x \<in> set xs. length (snd x) \<le> 255 \<Longrightarrow> run_switch sw xs s = Some (Return r s') \<Longrightarrow>
   r = rcode RESP_ERROR_MALFORMED"
proof (induction xs arbitrary: s)
  case Nil
  then show ?case by simp
next
  case (Cons x xs)
  then show ?case
    using sw_malformed [of "snd x" "fst x" s r s']
    by (cases x) (simp split: option.splits tlv_action.splits)
qed

lemma spec_malformed:
  assumes "tlv_spec sw bs s = Some (Return r s')"
  shows "r = rcode RESP_ERROR_MALFORMED"
proof -
  obtain xs complete where sp: "split_tlvs bs = (xs, complete)" by (rule prod.exhaust)
  then have "\<forall>x \<in> set xs. length (snd x) \<le> 255" using split_tlvs_lengths [of _ bs] by auto
  with assms sp run_malformed [of xs s r s'] show ?thesis
    by (simp add: tlv_spec_def split: option.splits tlv_action.splits if_splits)
qed

lemma spec_defined:
  assumes "\<forall>x \<in> set (fst (split_tlvs bs)). ok (fst x) (snd x)"
  shows "tlv_spec sw bs s \<noteq> None"
proof -
  obtain xs complete where "split_tlvs bs = (xs, complete)" by (rule prod.exhaust)
  with assms run_defined [of xs s] show ?thesis
    by (simp add: tlv_spec_def split: option.splits tlv_action.splits)
qed

lemma loop_malformed:
  assumes "p \<le> e" "e \<le> length mem" "tlv_loop sw mem p e s = Some (Return r s')"
  shows "r = rcode RESP_ERROR_MALFORMED"
  using assms(3) unfolding tlv_loop_spec [OF assms(1,2)] by (rule spec_malformed)

lemma loop_defined:
  assumes "p \<le> e" "e \<le> length mem"
    and "\<forall>x \<in> set (fst (split_tlvs (take (e - p) (drop p mem)))). ok (fst x) (snd x)"
  obtains s' where "tlv_loop sw mem p e s = Some (Next s')"
    | s' where "tlv_loop sw mem p e s = Some (Return (rcode RESP_ERROR_MALFORMED) s')"
proof -
  from spec_defined [OF assms(3)] obtain act where act: "tlv_loop sw mem p e s = Some act"
    unfolding tlv_loop_spec [OF assms(1,2)] by blast
  show ?thesis
  proof (cases act)
    case (Next s')
    with act that(1) show ?thesis by simp
  next
    case (Return r s')
    with act that(2) loop_malformed [OF assms(1,2)] show ?thesis by blast
  qed
qed

text \<open>A payload that ends inside a pair is refused, whatever the pairs before it hold.\<close>

lemma loop_truncated:
  assumes "p \<le> e" "e \<le> length mem"
    and "\<forall>x \<in> set (fst (split_tlvs (take (e - p) (drop p mem)))). ok (fst x) (snd x)"
    and "\<not> snd (split_tlvs (take (e - p) (drop p mem)))"
  shows "\<exists>s'. tlv_loop sw mem p e s = Some (Return (rcode RESP_ERROR_MALFORMED) s')"
  using loop_defined [OF assms(1-3), of s]
proof cases
  case (1 s')
  then have "snd (split_tlvs (take (e - p) (drop p mem)))"
    unfolding tlv_loop_spec [OF assms(1,2)] tlv_spec_def
    by (simp split: prod.splits option.splits tlv_action.splits if_splits)
  with assms(4) show ?thesis by simp
qed blast

end

text \<open>
  The switches of the server's parsers have a common shape, a second interface that gives the
  first: a table of the tags they know with the largest value each accepts, and what an
  accepted value does to the locals. Unknown tags are skipped.
\<close>

definition within_limits :: "(u8 \<Rightarrow> nat option) \<Rightarrow> (u8 \<times> bytes) list \<Rightarrow> bool" where
  "within_limits limit xs \<longleftrightarrow>
     list_all (\<lambda>x. case limit (fst x) of None \<Rightarrow> True | Some n \<Rightarrow> length (snd x) \<le> n) xs"

fun assign_all ::
  "(u8 \<Rightarrow> nat option) \<Rightarrow> (u8 \<Rightarrow> bytes \<Rightarrow> 's \<Rightarrow> 's) \<Rightarrow> (u8 \<times> bytes) list \<Rightarrow> 's \<Rightarrow> 's" where
  "assign_all limit assign [] s = s"
| "assign_all limit assign ((t, v) # xs) s =
     assign_all limit assign xs (if limit t = None then s else assign t v s)"

locale tlv_fields =
  fixes sw :: "u8 \<Rightarrow> bytes \<Rightarrow> 's \<Rightarrow> 's tlv_action option"
    and limit :: "u8 \<Rightarrow> nat option"
    and assign :: "u8 \<Rightarrow> bytes \<Rightarrow> 's \<Rightarrow> 's"
  assumes sw_field: "length v \<le> 255 \<Longrightarrow> sw t v s =
    (case limit t of
       None \<Rightarrow> Some (Next s)
     | Some n \<Rightarrow> if n < length v then Some (Return (rcode RESP_ERROR_MALFORMED) s)
                 else Some (Next (assign t v s)))"
begin

lemma run_fields:
  assumes "\<forall>x \<in> set xs. length (snd x) \<le> 255"
  shows "within_limits limit xs \<Longrightarrow> run_switch sw xs s = Some (Next (assign_all limit assign xs s))"
    and "\<not> within_limits limit xs \<Longrightarrow>
      \<exists>s'. run_switch sw xs s = Some (Return (rcode RESP_ERROR_MALFORMED) s')"
  using assms by (induction xs arbitrary: s)
    (auto simp: within_limits_def sw_field split: option.splits)

lemma loop_fields:
  assumes "p \<le> e" "e \<le> length mem" "split_tlvs (take (e - p) (drop p mem)) = (xs, complete)"
  shows "complete \<Longrightarrow> within_limits limit xs \<Longrightarrow>
      tlv_loop sw mem p e s = Some (Next (assign_all limit assign xs s))"
    and "\<not> (complete \<and> within_limits limit xs) \<Longrightarrow>
      \<exists>s'. tlv_loop sw mem p e s = Some (Return (rcode RESP_ERROR_MALFORMED) s')"
proof -
  have len: "\<forall>x \<in> set xs. length (snd x) \<le> 255"
    using split_tlvs_lengths [of _ "take (e - p) (drop p mem)"] assms(3) by auto
  note run = run_fields [OF len, of s]
  show "complete \<Longrightarrow> within_limits limit xs \<Longrightarrow>
      tlv_loop sw mem p e s = Some (Next (assign_all limit assign xs s))"
    using run(1) assms by (simp add: tlv_loop_spec tlv_spec_def)
  show "\<not> (complete \<and> within_limits limit xs) \<Longrightarrow>
      \<exists>s'. tlv_loop sw mem p e s = Some (Return (rcode RESP_ERROR_MALFORMED) s')"
    using run assms by (cases "within_limits limit xs") (auto simp: tlv_loop_spec tlv_spec_def)
qed

end

text \<open>Such a switch keeps the first interface.\<close>

sublocale tlv_fields \<subseteq> tlv_switch sw "\<lambda>t v. length v \<le> 255"
  by unfold_locales (auto simp: sw_field split: option.splits if_splits)

end
