(* ===== verification/Auth_Protocol.thy ===== *)
theory Auth_Protocol
  imports Tlv
begin

text \<open>
  Registration and login messages of \<open>src/protocol.cpp\<close>: the client's builders and the
  server's parsers of requests, the server's builders and the client's parsers of responses.
  The request parsers are shown equal to a specification over the (tag, value) pairs of the
  payload, and building then parsing gives back the credentials.
\<close>

record registration_credentials_t =
  reg_username :: bytes
  reg_password :: bytes

record login_credentials_t =
  login_username :: bytes
  login_password :: bytes

record user_t =
  user_id :: u32
  username :: bytes
  password :: bytes

section \<open>Requests: the client's builders\<close>

text \<open>
  The buffer and the message length are out parameters, returned beside the \<open>int\<close> result. The
  two pointers of the code are offsets: \<open>header_ptr\<close> is 0, 1, 2, 3 and \<open>payload_ptr\<close> is \<open>p\<close>.
\<close>

definition build_register_request ::
  "bytes \<Rightarrow> registration_credentials_t \<Rightarrow> u32 \<Rightarrow> (int \<times> bytes \<times> u32) option" where
  "build_register_request request_buffer credentials message_len =
     (if length (reg_username credentials) > MAX_USERNAME_SIZE
      then Some (-1, request_buffer, message_len)
      else if length (reg_password credentials) > MAX_PASSWORD_SIZE
      then Some (-1, request_buffer, message_len)
      else do {
        b \<leftarrow> mem_write request_buffer 0 [1];
        b \<leftarrow> mem_write b 1 [mtype REGISTER];
        b \<leftarrow> mem_write b 2 [0];
        (b, p) \<leftarrow> write_tlv b MSG_HEADER_SIZE TAG_USERNAME
          (u8_cast (length (reg_username credentials))) (reg_username credentials) False;
        (b, p) \<leftarrow> write_tlv b p TAG_PASSWORD
          (u8_cast (length (reg_password credentials))) (reg_password credentials) False;
        let message_len = u32_cast p;
        let payload_len = message_len - u32_cast MSG_HEADER_SIZE;
        let net_payload_len = htonl payload_len;
        if payload_len > u32_cast MSG_MAX_PAYLOAD_SIZE then Some (-1, b, message_len)
        else do {
          b \<leftarrow> mem_write b 3 (bytes_of_u32 net_payload_len);
          Some (0, b, message_len) } })"

definition build_login_request ::
  "bytes \<Rightarrow> login_credentials_t \<Rightarrow> u32 \<Rightarrow> (int \<times> bytes \<times> u32) option" where
  "build_login_request request_buffer credentials message_len =
     (if length (login_username credentials) > MAX_USERNAME_SIZE
      then Some (-1, request_buffer, message_len)
      else if length (login_password credentials) > MAX_PASSWORD_SIZE
      then Some (-1, request_buffer, message_len)
      else do {
        b \<leftarrow> mem_write request_buffer 0 [1];
        b \<leftarrow> mem_write b 1 [mtype LOGIN];
        b \<leftarrow> mem_write b 2 [0];
        (b, p) \<leftarrow> write_tlv b MSG_HEADER_SIZE TAG_USERNAME
          (u8_cast (length (login_username credentials))) (login_username credentials) False;
        (b, p) \<leftarrow> write_tlv b p TAG_PASSWORD
          (u8_cast (length (login_password credentials))) (login_password credentials) False;
        let message_len = u32_cast p;
        let payload_len = message_len - u32_cast MSG_HEADER_SIZE;
        let net_payload_len = htonl payload_len;
        if payload_len > u32_cast MSG_MAX_PAYLOAD_SIZE then Some (-1, b, message_len)
        else do {
          b \<leftarrow> mem_write b 3 (bytes_of_u32 net_payload_len);
          Some (0, b, message_len) } })"

section \<open>Requests: the server's parsers\<close>

text \<open>The locals of the loop: the credentials, \<open>has_username\<close>, \<open>has_password\<close>.\<close>

definition register_switch ::
  "u8 \<Rightarrow> bytes \<Rightarrow> registration_credentials_t \<times> bool \<times> bool
     \<Rightarrow> (registration_credentials_t \<times> bool \<times> bool) tlv_action option" where
  "register_switch tg val s =
     (case s of (credentials, has_username, has_password) \<Rightarrow>
        if tg = tag TAG_USERNAME then
          if length val > MAX_USERNAME_SIZE then Some (Return (rcode RESP_ERROR_MALFORMED) s)
          else Some (Next (credentials\<lparr>reg_username := val\<rparr>, True, has_password))
        else if tg = tag TAG_PASSWORD then
          if length val > MAX_PASSWORD_SIZE then Some (Return (rcode RESP_ERROR_MALFORMED) s)
          else Some (Next (credentials\<lparr>reg_password := val\<rparr>, has_username, True))
        else Some (Next s))"

definition parse_register_request ::
  "message_t \<Rightarrow> registration_credentials_t \<Rightarrow> (int \<times> registration_credentials_t) option" where
  "parse_register_request msg credentials = do {
     act \<leftarrow> tlv_loop register_switch (payload_mem msg) 0 (unat (payload_length msg))
       (credentials, False, False);
     (case act of
        Return r (c, _, _) \<Rightarrow> Some (r, c)
      | Next (c, has_username, has_password) \<Rightarrow>
          if \<not> has_username \<or> \<not> has_password then Some (rcode RESP_ERROR_MALFORMED, c)
          else Some (0, c)) }"

definition login_switch ::
  "u8 \<Rightarrow> bytes \<Rightarrow> login_credentials_t \<times> bool \<times> bool
     \<Rightarrow> (login_credentials_t \<times> bool \<times> bool) tlv_action option" where
  "login_switch tg val s =
     (case s of (credentials, has_username, has_password) \<Rightarrow>
        if tg = tag TAG_USERNAME then
          if length val > MAX_USERNAME_SIZE then Some (Return (rcode RESP_ERROR_MALFORMED) s)
          else Some (Next (credentials\<lparr>login_username := val\<rparr>, True, has_password))
        else if tg = tag TAG_PASSWORD then
          if length val > MAX_PASSWORD_SIZE then Some (Return (rcode RESP_ERROR_MALFORMED) s)
          else Some (Next (credentials\<lparr>login_password := val\<rparr>, has_username, True))
        else Some (Next s))"

definition parse_login_request ::
  "message_t \<Rightarrow> login_credentials_t \<Rightarrow> (int \<times> login_credentials_t) option" where
  "parse_login_request request credentials = do {
     act \<leftarrow> tlv_loop login_switch (payload_mem request) 0 (unat (payload_length request))
       (credentials, False, False);
     (case act of
        Return r (c, _, _) \<Rightarrow> Some (r, c)
      | Next (c, has_username, has_password) \<Rightarrow>
          if \<not> has_username \<or> \<not> has_password then Some (rcode RESP_ERROR_MALFORMED, c)
          else Some (0, c)) }"

section \<open>Responses\<close>

text \<open>
  The builders write through \<open>response.payload\<close>, so the response must point at a buffer.
\<close>

definition build_register_response :: "message_t \<Rightarrow> user_t \<Rightarrow> (int \<times> message_t) option" where
  "build_register_response response user = (case payload response of None \<Rightarrow> None | Some buf \<Rightarrow> do {
     (buf, p) \<leftarrow> write_tlv buf 0 TAG_USER_ID 4 (bytes_of_u32 (user_id user)) True;
     (buf, p) \<leftarrow> write_tlv buf p TAG_USERNAME (u8_cast (length (username user)))
       (username user) False;
     let response = response\<lparr>msg_version := 1, msg_type := mtype REGISTER,
       msg_rc := word_of_int (rcode RESP_OK), payload := Some buf, payload_length := u32_cast p\<rparr>;
     if payload_length response > u32_cast MSG_MAX_PAYLOAD_SIZE then Some (-1, response)
     else Some (0, response) })"

definition build_login_response :: "message_t \<Rightarrow> user_t \<Rightarrow> (int \<times> message_t) option" where
  "build_login_response response user = (case payload response of None \<Rightarrow> None | Some buf \<Rightarrow> do {
     (buf, p) \<leftarrow> write_tlv buf 0 TAG_USER_ID 4 (bytes_of_u32 (user_id user)) True;
     (buf, p) \<leftarrow> write_tlv buf p TAG_USERNAME (u8_cast (length (username user)))
       (username user) False;
     let response = response\<lparr>msg_version := 1, msg_type := mtype LOGIN,
       msg_rc := word_of_int (rcode RESP_OK), payload := Some buf, payload_length := u32_cast p\<rparr>;
     if payload_length response > u32_cast MSG_MAX_PAYLOAD_SIZE then Some (-1, response)
     else Some (0, response) })"

text \<open>
  \<open>memcpy(&user.user_id, payload_ptr, num_bytes)\<close> followed by \<open>ntohl\<close>: fewer than four bytes
  replace the low part of the old value, more than four are written past the member.
\<close>

definition memcpy_user_id :: "u32 \<Rightarrow> bytes \<Rightarrow> u32 option" where
  "memcpy_user_id old val = do {
     obj \<leftarrow> mem_write (bytes_of_u32 old) 0 val;
     Some (ntohl (u32_of_bytes obj)) }"

definition register_response_switch ::
  "u8 \<Rightarrow> bytes \<Rightarrow> user_t \<times> bool \<times> bool \<Rightarrow> (user_t \<times> bool \<times> bool) tlv_action option" where
  "register_response_switch tg val s =
     (case s of (user, has_id, has_username) \<Rightarrow>
        if tg = tag TAG_USER_ID then do {
          i \<leftarrow> memcpy_user_id (user_id user) val;
          Some (Next (user\<lparr>user_id := i\<rparr>, True, has_username)) }
        else if tg = tag TAG_USERNAME then
          if length val > MAX_USERNAME_SIZE then Some (Return (rcode RESP_ERROR_MALFORMED) s)
          else Some (Next (user\<lparr>username := val\<rparr>, has_id, True))
        else Some (Next s))"

definition parse_register_response :: "message_t \<Rightarrow> user_t \<Rightarrow> (int \<times> user_t) option" where
  "parse_register_response response user = do {
     act \<leftarrow> tlv_loop register_response_switch (payload_mem response) 0
       (unat (payload_length response)) (user, False, False);
     (case act of
        Return r (u, _, _) \<Rightarrow> Some (r, u)
      | Next (u, has_id, has_username) \<Rightarrow>
          if \<not> has_id \<or> \<not> has_username then Some (-1, u) else Some (0, u)) }"

definition login_response_switch ::
  "u8 \<Rightarrow> bytes \<Rightarrow> user_t \<times> bool \<times> bool \<Rightarrow> (user_t \<times> bool \<times> bool) tlv_action option" where
  "login_response_switch tg val s =
     (case s of (user, has_id, has_username) \<Rightarrow>
        if tg = tag TAG_USERNAME then
          if length val > MAX_USERNAME_SIZE then Some (Return (rcode RESP_ERROR_MALFORMED) s)
          else Some (Next (user\<lparr>username := val\<rparr>, has_id, True))
        else if tg = tag TAG_USER_ID then do {
          i \<leftarrow> memcpy_user_id (user_id user) val;
          Some (Next (user\<lparr>user_id := i\<rparr>, True, has_username)) }
        else Some (Next s))"

definition parse_login_response :: "message_t \<Rightarrow> user_t \<Rightarrow> (int \<times> user_t) option" where
  "parse_login_response response user = do {
     act \<leftarrow> tlv_loop login_response_switch (payload_mem response) 0
       (unat (payload_length response)) (user, False, False);
     (case act of
        Return r (u, _, _) \<Rightarrow> Some (r, u)
      | Next (u, has_id, has_username) \<Rightarrow>
          if \<not> has_id \<or> \<not> has_username then Some (rcode RESP_ERROR_MALFORMED, u)
          else Some (0, u)) }"

section \<open>Specification of the request parsers\<close>

definition credential_limit :: "u8 \<Rightarrow> nat option" where
  "credential_limit t =
     (if t = tag TAG_USERNAME then Some MAX_USERNAME_SIZE
      else if t = tag TAG_PASSWORD then Some MAX_PASSWORD_SIZE else None)"

text \<open>The credentials a payload carries: user name and password.\<close>

definition credentials_of :: "bytes \<Rightarrow> (bytes \<times> bytes) option" where
  "credentials_of bs =
     (let (xs, complete) = split_tlvs bs in
      if complete \<and> within_limits credential_limit xs
      then (case (last_value (tag TAG_USERNAME) xs, last_value (tag TAG_PASSWORD) xs) of
              (Some u, Some p) \<Rightarrow> Some (u, p)
            | _ \<Rightarrow> None)
      else None)"

fun register_assign ::
  "u8 \<Rightarrow> bytes \<Rightarrow> registration_credentials_t \<times> bool \<times> bool
     \<Rightarrow> registration_credentials_t \<times> bool \<times> bool" where
  "register_assign t v (c, hu, hp) =
     (if t = tag TAG_USERNAME then (c\<lparr>reg_username := v\<rparr>, True, hp)
      else (c\<lparr>reg_password := v\<rparr>, hu, True))"

fun login_assign ::
  "u8 \<Rightarrow> bytes \<Rightarrow> login_credentials_t \<times> bool \<times> bool
     \<Rightarrow> login_credentials_t \<times> bool \<times> bool" where
  "login_assign t v (c, hu, hp) =
     (if t = tag TAG_USERNAME then (c\<lparr>login_username := v\<rparr>, True, hp)
      else (c\<lparr>login_password := v\<rparr>, hu, True))"

interpretation reg_sw: tlv_fields register_switch credential_limit register_assign
  by unfold_locales (auto simp: register_switch_def credential_limit_def split: prod.split)

interpretation login_sw: tlv_fields login_switch credential_limit login_assign
  by unfold_locales (auto simp: login_switch_def credential_limit_def split: prod.split)

definition user_id_fits :: "u8 \<Rightarrow> bytes \<Rightarrow> bool" where
  "user_id_fits t v \<longleftrightarrow> (t = tag TAG_USER_ID \<longrightarrow> length v \<le> 4)"

interpretation reg_resp_sw: tlv_switch register_response_switch user_id_fits
  by unfold_locales
    (auto simp: register_response_switch_def user_id_fits_def memcpy_user_id_def mem_write_def
      split: prod.splits if_splits bind_splits)

interpretation login_resp_sw: tlv_switch login_response_switch user_id_fits
  by unfold_locales
    (auto simp: login_response_switch_def user_id_fits_def memcpy_user_id_def mem_write_def
      split: prod.splits if_splits bind_splits)

lemma register_assign_all:
  "assign_all credential_limit register_assign xs (c, hu, hp) =
     (\<lparr>reg_username = (case last_value (tag TAG_USERNAME) xs of None \<Rightarrow> reg_username c | Some v \<Rightarrow> v),
       reg_password = (case last_value (tag TAG_PASSWORD) xs of None \<Rightarrow> reg_password c | Some v \<Rightarrow> v)\<rparr>,
      hu \<or> last_value (tag TAG_USERNAME) xs \<noteq> None, hp \<or> last_value (tag TAG_PASSWORD) xs \<noteq> None)"
  by (induction xs arbitrary: c hu hp)
    (auto simp: credential_limit_def split: option.splits)

lemma login_assign_all:
  "assign_all credential_limit login_assign xs (c, hu, hp) =
     (\<lparr>login_username = (case last_value (tag TAG_USERNAME) xs of None \<Rightarrow> login_username c | Some v \<Rightarrow> v),
       login_password = (case last_value (tag TAG_PASSWORD) xs of None \<Rightarrow> login_password c | Some v \<Rightarrow> v)\<rparr>,
      hu \<or> last_value (tag TAG_USERNAME) xs \<noteq> None, hp \<or> last_value (tag TAG_PASSWORD) xs \<noteq> None)"
  by (induction xs arbitrary: c hu hp)
    (auto simp: credential_limit_def split: option.splits)

lemma parse_register_request_spec:
  assumes "payload_inside msg"
  shows "case credentials_of (msg_payload msg) of
      Some (u, p) \<Rightarrow> parse_register_request msg c = Some (0, \<lparr>reg_username = u, reg_password = p\<rparr>)
    | None \<Rightarrow> \<exists>c'. parse_register_request msg c = Some (rcode RESP_ERROR_MALFORMED, c')"
proof -
  obtain xs complete where sp: "split_tlvs (msg_payload msg) = (xs, complete)" by (rule prod.exhaust)
  let ?run = "tlv_loop register_switch (payload_mem msg) 0 (unat (payload_length msg)) (c, False, False)"
  note loop = reg_sw.loop_fields [of 0 "unat (payload_length msg)" "payload_mem msg" xs complete
      "(c, False, False)"]
  show ?thesis
  proof (cases "complete \<and> within_limits credential_limit xs")
    case True
    with loop(1) assms sp have "?run = Some (Next (assign_all credential_limit register_assign xs (c, False, False)))"
      by (simp add: payload_inside_def msg_payload_def)
    with True sp show ?thesis
      by (simp add: parse_register_request_def register_assign_all credentials_of_def split: option.split)
  next
    case False
    with loop(2) assms sp obtain s' where "?run = Some (Return (rcode RESP_ERROR_MALFORMED) s')"
      by (auto simp: payload_inside_def msg_payload_def)
    with False sp show ?thesis
      by (auto simp: parse_register_request_def credentials_of_def split: prod.split)
  qed
qed

lemma parse_login_request_spec:
  assumes "payload_inside msg"
  shows "case credentials_of (msg_payload msg) of
      Some (u, p) \<Rightarrow> parse_login_request msg c = Some (0, \<lparr>login_username = u, login_password = p\<rparr>)
    | None \<Rightarrow> \<exists>c'. parse_login_request msg c = Some (rcode RESP_ERROR_MALFORMED, c')"
proof -
  obtain xs complete where sp: "split_tlvs (msg_payload msg) = (xs, complete)" by (rule prod.exhaust)
  let ?run = "tlv_loop login_switch (payload_mem msg) 0 (unat (payload_length msg)) (c, False, False)"
  note loop = login_sw.loop_fields [of 0 "unat (payload_length msg)" "payload_mem msg" xs complete
      "(c, False, False)"]
  show ?thesis
  proof (cases "complete \<and> within_limits credential_limit xs")
    case True
    with loop(1) assms sp have "?run = Some (Next (assign_all credential_limit login_assign xs (c, False, False)))"
      by (simp add: payload_inside_def msg_payload_def)
    with True sp show ?thesis
      by (simp add: parse_login_request_def login_assign_all credentials_of_def split: option.split)
  next
    case False
    with loop(2) assms sp obtain s' where "?run = Some (Return (rcode RESP_ERROR_MALFORMED) s')"
      by (auto simp: payload_inside_def msg_payload_def)
    with False sp show ?thesis
      by (auto simp: parse_login_request_def credentials_of_def split: prod.split)
  qed
qed

lemma credentials_of_bounds:
  assumes "credentials_of bs = Some (u, p)"
  shows "length u \<le> MAX_USERNAME_SIZE" "length p \<le> MAX_PASSWORD_SIZE"
proof -
  obtain xs complete where sp: "split_tlvs bs = (xs, complete)" by (rule prod.exhaust)
  with assms have "within_limits credential_limit xs" "(tag TAG_USERNAME, u) \<in> set xs"
    "(tag TAG_PASSWORD, p) \<in> set xs"
    by (auto simp: credentials_of_def split: if_splits option.splits dest: last_value_member)
  then show "length u \<le> MAX_USERNAME_SIZE" "length p \<le> MAX_PASSWORD_SIZE"
    by (auto simp: within_limits_def list_all_iff credential_limit_def split: option.splits)
qed

section \<open>Specification of the builders\<close>

definition credential_tlvs :: "bytes \<Rightarrow> bytes \<Rightarrow> (u8 \<times> bytes) list" where
  "credential_tlvs u p = [(tag TAG_USERNAME, u), (tag TAG_PASSWORD, p)]"

definition user_tlvs :: "user_t \<Rightarrow> (u8 \<times> bytes) list" where
  "user_tlvs user = [(tag TAG_USER_ID, be_bytes (user_id user)),
     (tag TAG_USERNAME, u8_trunc (username user))]"

definition request_frame :: "msg_type_t \<Rightarrow> (u8 \<times> bytes) list \<Rightarrow> frame" where
  "request_frame ty xs = \<lparr>f_version = 1, f_type = mtype ty, f_rc = 0, f_payload = encode_tlvs xs\<rparr>"

lemma credentials_of_encode:
  assumes "length u \<le> MAX_USERNAME_SIZE" and "length p \<le> MAX_PASSWORD_SIZE"
  shows "credentials_of (encode_tlvs (credential_tlvs u p)) = Some (u, p)"
proof -
  have "split_tlvs (encode_tlvs (credential_tlvs u p)) = (credential_tlvs u p, True)"
    using assms by (intro split_encode_tlvs) (auto simp: credential_tlvs_def size_defs)
  with assms show ?thesis
    by (simp add: credentials_of_def credential_tlvs_def within_limits_def credential_limit_def)
qed

text \<open>
  The header of a request is written around the payload: three bytes and the length in front
  of what \<open>write_tlv\<close> put at offset 7.
\<close>

lemma overwrite_frame:
  assumes "7 + length pl \<le> length buf" and "length pl \<le> MSG_MAX_PAYLOAD_SIZE"
  shows "overwrite (overwrite (overwrite buf 0 [v, t, r]) 7 pl) 3 (be_bytes (u32_cast (length pl)))
    = overwrite buf 0 (encode_frame \<lparr>f_version = v, f_type = t, f_rc = r, f_payload = pl\<rparr>)"
proof -
  let ?len = "be_bytes (u32_cast (length pl))"
  have "overwrite (overwrite (overwrite buf 0 [v, t, r]) 7 pl) 3 ?len = overwrite (overwrite buf 0 [v, t, r]) 3 (?len @ pl)"
    using assms by (simp add: overwrite_left)
  also have "\<dots> = overwrite buf 0 ([v, t, r] @ ?len @ pl)"
    using assms by (intro overwrite_right) simp_all
  finally show ?thesis by (simp add: encode_frame_def)
qed

lemma credential_writes:
  assumes "length u \<le> MAX_USERNAME_SIZE" "length p \<le> MAX_PASSWORD_SIZE"
    and "MSG_HEADER_SIZE + MSG_MAX_PAYLOAD_SIZE \<le> length b"
  defines "pl \<equiv> encode_tlvs (credential_tlvs u p)"
  obtains b1 p1 where
    "write_tlv b MSG_HEADER_SIZE TAG_USERNAME (u8_cast (length u)) u False = Some (b1, p1)"
    "write_tlv b1 p1 TAG_PASSWORD (u8_cast (length p)) p False =
      Some (overwrite b 7 pl, 7 + length pl)"
    "length pl \<le> MSG_MAX_PAYLOAD_SIZE" "7 + length pl \<le> length b"
proof -
  have pl: "pl = encode_tlvs (string_tlvs [(TAG_USERNAME, u), (TAG_PASSWORD, p)])"
    using assms(1,2) by (simp add: pl_def credential_tlvs_def size_defs)
  have small: "length pl \<le> MSG_MAX_PAYLOAD_SIZE" "7 + length pl \<le> length b"
    using assms by (simp_all add: pl_def credential_tlvs_def size_defs)
  then have "write_strings b 7 [(TAG_USERNAME, u), (TAG_PASSWORD, p)] =
      Some (overwrite b 7 pl, 7 + length pl)"
    unfolding pl by (intro write_strings_spec)
  then show ?thesis
    using small by (auto simp: bind_eq_Some_conv MSG_HEADER_SIZE_def intro: that)
qed

lemma build_register_request_frame:
  assumes "length (reg_username c) \<le> MAX_USERNAME_SIZE" "length (reg_password c) \<le> MAX_PASSWORD_SIZE"
    and "MSG_HEADER_SIZE + MSG_MAX_PAYLOAD_SIZE \<le> length buf"
  defines "f \<equiv> request_frame REGISTER (credential_tlvs (reg_username c) (reg_password c))"
  shows "build_register_request buf c n =
    Some (0, overwrite buf 0 (encode_frame f), u32_cast (length (encode_frame f)))"
proof -
  let ?b = "overwrite buf 0 [1, 0, 0]" and ?pl = "f_payload f"
  have f: "f = \<lparr>f_version = 1, f_type = 0, f_rc = 0, f_payload = ?pl\<rparr>"
    by (simp add: f_def request_frame_def)
  from credential_writes [OF assms(1,2), of ?b] assms(3) obtain b1 p1 where w:
    "write_tlv ?b MSG_HEADER_SIZE TAG_USERNAME (u8_cast (length (reg_username c))) (reg_username c) False
      = Some (b1, p1)"
    "write_tlv b1 p1 TAG_PASSWORD (u8_cast (length (reg_password c))) (reg_password c) False
      = Some (overwrite ?b 7 ?pl, 7 + length ?pl)"
    "length ?pl \<le> MSG_MAX_PAYLOAD_SIZE" "7 + length ?pl \<le> length buf"
    by (auto simp: f_def request_frame_def size_defs)
  show ?thesis
    using assms(1,2) w overwrite_frame [of ?pl buf 1 0 0]
    by (simp add: build_register_request_def mem_write_in length_encode_frame Let_def payload_len_word
        payload_len_fits flip: f del: of_nat_add)
qed

lemma build_login_request_frame:
  assumes "length (login_username c) \<le> MAX_USERNAME_SIZE" "length (login_password c) \<le> MAX_PASSWORD_SIZE"
    and "MSG_HEADER_SIZE + MSG_MAX_PAYLOAD_SIZE \<le> length buf"
  defines "f \<equiv> request_frame LOGIN (credential_tlvs (login_username c) (login_password c))"
  shows "build_login_request buf c n =
    Some (0, overwrite buf 0 (encode_frame f), u32_cast (length (encode_frame f)))"
proof -
  let ?b = "overwrite buf 0 [1, 1, 0]" and ?pl = "f_payload f"
  have f: "f = \<lparr>f_version = 1, f_type = 1, f_rc = 0, f_payload = ?pl\<rparr>"
    by (simp add: f_def request_frame_def)
  from credential_writes [OF assms(1,2), of ?b] assms(3) obtain b1 p1 where w:
    "write_tlv ?b MSG_HEADER_SIZE TAG_USERNAME (u8_cast (length (login_username c))) (login_username c) False
      = Some (b1, p1)"
    "write_tlv b1 p1 TAG_PASSWORD (u8_cast (length (login_password c))) (login_password c) False
      = Some (overwrite ?b 7 ?pl, 7 + length ?pl)"
    "length ?pl \<le> MSG_MAX_PAYLOAD_SIZE" "7 + length ?pl \<le> length buf"
    by (auto simp: f_def request_frame_def size_defs)
  show ?thesis
    using assms(1,2) w overwrite_frame [of ?pl buf 1 1 0]
    by (simp add: build_login_request_def mem_write_in length_encode_frame Let_def payload_len_word
        payload_len_fits flip: f del: of_nat_add)
qed

section \<open>Responses\<close>

lemma user_writes:
  fixes user :: user_t
  assumes "MSG_MAX_PAYLOAD_SIZE \<le> length b"
  defines "pl \<equiv> encode_tlvs (user_tlvs user)"
  obtains b1 p1 where
    "write_tlv b 0 TAG_USER_ID 4 (bytes_of_u32 (user_id user)) True = Some (b1, p1)"
    "write_tlv b1 p1 TAG_USERNAME (u8_cast (length (username user))) (username user) False =
      Some (overwrite b 0 pl, length pl)"
    "length pl \<le> MSG_MAX_PAYLOAD_SIZE" "length pl \<le> length b"
proof -
  let ?i = "encode_tlv (tag TAG_USER_ID, be_bytes (user_id user))"
  have small: "length (u8_trunc (username user)) \<le> 255" by (rule length_u8_trunc_le)
  have "write_tlv b 0 TAG_USER_ID 4 (bytes_of_u32 (user_id user)) True =
      Some (overwrite b 0 ?i, length ?i)"
    using write_tlv_u32 [of 0 TAG_USER_ID "user_id user" b] assms(1) by (simp add: size_defs)
  moreover have "write_tlv (overwrite b 0 ?i) (length ?i) TAG_USERNAME
      (u8_cast (length (username user))) (username user) False = Some (overwrite b 0 pl, length pl)"
    using write_tlv_string [of "length ?i" TAG_USERNAME "username user" "overwrite b 0 ?i"] assms(1) small
    by (simp add: size_defs pl_def user_tlvs_def)
  moreover have "length pl \<le> MSG_MAX_PAYLOAD_SIZE" "length pl \<le> length b"
    using small assms(1) by (simp_all add: pl_def user_tlvs_def size_defs)
  ultimately show ?thesis by (rule that)
qed

text \<open>Both response builders fill the buffer with the user and give a message that is its frame.\<close>

lemma build_auth_response_frame:
  assumes "payload r = Some b" "MSG_MAX_PAYLOAD_SIZE \<le> length b"
  shows "\<exists>m. build_register_response r user = Some (0, m) \<and> message_ok m \<and>
      message_frame m = request_frame REGISTER (user_tlvs user)"
    and "\<exists>m. build_login_response r user = Some (0, m) \<and> message_ok m \<and>
      message_frame m = request_frame LOGIN (user_tlvs user)"
proof -
  let ?pl = "encode_tlvs (user_tlvs user)"
  from user_writes [OF assms(2), of user] obtain b1 p1 where w:
    "write_tlv b 0 TAG_USER_ID 4 (bytes_of_u32 (user_id user)) True = Some (b1, p1)"
    "write_tlv b1 p1 TAG_USERNAME (u8_cast (length (username user))) (username user) False =
      Some (overwrite b 0 ?pl, length ?pl)"
    "length ?pl \<le> MSG_MAX_PAYLOAD_SIZE" "length ?pl \<le> length b"
    by blast
  have len: "unat (u32_cast (length ?pl)) = length ?pl" using w(3) by (simp add: size_defs)
  show "\<exists>m. build_register_response r user = Some (0, m) \<and> message_ok m \<and>
      message_frame m = request_frame REGISTER (user_tlvs user)"
    "\<exists>m. build_login_response r user = Some (0, m) \<and> message_ok m \<and>
      message_frame m = request_frame LOGIN (user_tlvs user)"
    using assms(1) w len payload_len_fits [OF w(3)]
    by (simp_all add: build_register_response_def build_login_response_def message_ok_def
        message_frame_def request_frame_def)
qed

text \<open>
  The client's response parsers give back the user, and write outside the \<open>user_id\<close> member when
  the server's payload holds an id of more than four bytes.
\<close>

lemma user_tlvs_split: "split_tlvs (encode_tlvs (user_tlvs user)) = (user_tlvs user, True)"
  by (rule split_encode_tlvs) (simp add: user_tlvs_def length_u8_trunc_le)

lemma memcpy_user_id_be [simp]: "memcpy_user_id old (be_bytes w) = Some w"
  by (simp add: memcpy_user_id_def mem_write_def overwrite_def)

lemma parse_response_user:
  assumes "payload_inside m" "msg_payload m = encode_tlvs (user_tlvs user)"
    and "length (username user) \<le> MAX_USERNAME_SIZE"
  shows "parse_register_response m u = Some (0, u\<lparr>user_id := user_id user, username := username user\<rparr>)"
    and "parse_login_response m u = Some (0, u\<lparr>user_id := user_id user, username := username user\<rparr>)"
proof -
  from assms(3) have "u8_trunc (username user) = username user" by (simp add: size_defs)
  with assms show
    "parse_register_response m u = Some (0, u\<lparr>user_id := user_id user, username := username user\<rparr>)"
    "parse_login_response m u = Some (0, u\<lparr>user_id := user_id user, username := username user\<rparr>)"
    by (simp_all add: parse_register_response_def parse_login_response_def payload_inside_def
        msg_payload_def tlv_loop_spec tlv_spec_def user_tlvs_split)
      (simp_all add: user_tlvs_def register_response_switch_def login_response_switch_def)
qed

text \<open>A pair the client's response parsers take and go on from.\<close>

definition response_pair_ok :: "u8 \<Rightarrow> bytes \<Rightarrow> bool" where
  "response_pair_ok t v \<longleftrightarrow>
     (t = tag TAG_USER_ID \<longrightarrow> length v \<le> 4) \<and> (t = tag TAG_USERNAME \<longrightarrow> length v \<le> MAX_USERNAME_SIZE)"

lemma response_switch_cases:
  "register_response_switch t v s = None \<longleftrightarrow> t = tag TAG_USER_ID \<and> 4 < length v"
  "(\<exists>s'. register_response_switch t v s = Some (Next s')) \<longleftrightarrow> response_pair_ok t v"
  "login_response_switch t v s = None \<longleftrightarrow> t = tag TAG_USER_ID \<and> 4 < length v"
  "(\<exists>s'. login_response_switch t v s = Some (Next s')) \<longleftrightarrow> response_pair_ok t v"
  by (auto simp: register_response_switch_def login_response_switch_def response_pair_ok_def
      memcpy_user_id_def mem_write_def split: prod.splits)

lemma parse_response_undefined:
  assumes "payload_inside m"
  defines "reached \<equiv> \<exists>pre v post. fst (split_tlvs (msg_payload m)) = pre @ (tag TAG_USER_ID, v) # post \<and>
      4 < length v \<and> list_all (\<lambda>x. response_pair_ok (fst x) (snd x)) pre"
  shows "parse_register_response m u = None \<longleftrightarrow> reached" and "parse_login_response m u = None \<longleftrightarrow> reached"
proof -
  obtain xs complete where sp: "split_tlvs (msg_payload m) = (xs, complete)" by (rule prod.exhaust)
  have reached: "reached \<longleftrightarrow> (\<exists>pre t v post. xs = pre @ (t, v) # post \<and> (t = tag TAG_USER_ID \<and> 4 < length v) \<and>
      list_all (\<lambda>x. response_pair_ok (fst x) (snd x)) pre)"
    by (auto simp: reached_def sp)
  have loop: "tlv_loop sw (payload_mem m) 0 (unat (payload_length m)) s = None \<longleftrightarrow> run_switch sw xs s = None" for sw s
    using assms(1) sp
    by (auto simp: payload_inside_def msg_payload_def tlv_loop_spec tlv_spec_def
        split: option.splits tlv_action.splits)
  have undefined: "tlv_loop register_response_switch (payload_mem m) 0 (unat (payload_length m)) s = None \<longleftrightarrow> reached"
    "tlv_loop login_response_switch (payload_mem m) 0 (unat (payload_length m)) s = None \<longleftrightarrow> reached" for s
    unfolding loop reached run_switch_None [OF response_switch_cases(1,2)]
      run_switch_None [OF response_switch_cases(3,4)] by (rule refl)+
  have "parse_register_response m u = None \<longleftrightarrow>
      tlv_loop register_response_switch (payload_mem m) 0 (unat (payload_length m)) (u, False, False) = None"
    "parse_login_response m u = None \<longleftrightarrow>
      tlv_loop login_response_switch (payload_mem m) 0 (unat (payload_length m)) (u, False, False) = None"
    by (auto simp: parse_register_response_def parse_login_response_def split: Option.bind_splits tlv_action.splits)
  then show "parse_register_response m u = None \<longleftrightarrow> reached" "parse_login_response m u = None \<longleftrightarrow> reached"
    by (simp_all only: undefined)
qed

section \<open>A request as the server receives it\<close>

text \<open>The frame at the start of a request buffer, cut to the length the builder reports, parses.\<close>

lemma request_received:
  fixes ty :: msg_type_t
  assumes "length (encode_tlvs xs) \<le> MSG_MAX_PAYLOAD_SIZE" "xs \<noteq> []"
    and "MSG_HEADER_SIZE + MSG_MAX_PAYLOAD_SIZE \<le> length buf"
  defines "f \<equiv> request_frame ty xs"
  shows "\<exists>m. parse_message (take (unat (u32_cast (length (encode_frame f)))) (overwrite buf 0 (encode_frame f))) m0
      = Some m \<and> msg_type m = mtype ty \<and> payload_inside m \<and> msg_payload m = encode_tlvs xs"
proof -
  have f: "f_payload f = encode_tlvs xs" "f_type f = mtype ty" by (simp_all add: f_def request_frame_def)
  have "encode_tlvs xs \<noteq> []" using assms(2) by (cases xs) (simp_all add: encode_tlv_def)
  with assms(1) have len: "length (encode_tlvs xs) < 2 ^ 32" "encode_tlvs xs \<noteq> []"
    by (simp_all add: size_defs)
  have "unat (u32_cast (length (encode_frame f))) = length (encode_frame f)"
    using assms(1) by (intro unat_u32_cast_small) (simp add: length_encode_frame f size_defs)
  then have "take (unat (u32_cast (length (encode_frame f)))) (overwrite buf 0 (encode_frame f)) = encode_frame f @ []"
    by simp
  moreover from parse_message_frame [of f "[]" m0] len f
  have "parse_message (encode_frame f @ []) m0 = Some (m0\<lparr>
     payload_length := u32_cast (length (encode_tlvs xs)), msg_version := f_version f,
     msg_type := mtype ty, msg_rc := f_rc f, payload := Some (encode_tlvs xs)\<rparr>)"
    by simp
  ultimately show ?thesis
    using len(1) by (simp add: payload_inside_def msg_payload_def)
qed

end
