(* ===== verification/User_Db.thy ===== *)
theory User_Db
  imports Conn_Flags Auth_Protocol
begin

text \<open>
  The user database, \<open>src/db.cpp\<close>. SQLite is not part of the repository: what the code calls of
  it is a record of functions, a parameter of every definition that reaches the database, and
  its documented behaviour on the two statements is a hypothesis over a view of the table's
  rows. The locale \<open>user_store\<close> is the interface the register and login services rely on; it is
  interpreted here on the model of \<open>get_user_by_username\<close> and \<open>insert_user\<close>.
\<close>

text \<open>The SQL texts of the file, by name.\<close>

datatype sql = CREATE_USERS | INSERT_USER | SELECT_USER

text \<open>
  The SQLite calls: \<open>sqlite3_open\<close>, \<open>sqlite3_exec\<close>, \<open>sqlite3_prepare_v2\<close> (does it return
  \<open>SQLITE_OK\<close>), \<open>sqlite3_step\<close> of the insert with its two bound texts (is the result
  \<open>SQLITE_DONE\<close>, and the database after it), \<open>sqlite3_last_insert_rowid\<close>, and \<open>sqlite3_step\<close> of
  the select with its bound text (the columns when the result is \<open>SQLITE_ROW\<close>; a text column
  can be \<open>NULL\<close>). Texts are bound with length \<open>-1\<close>, so SQLite sees them up to the first NUL.
\<close>

record 'db sqlite =
  sq_open :: "bytes \<Rightarrow> bool \<times> 'db"
  sq_exec :: "'db \<Rightarrow> sql \<Rightarrow> bool \<times> 'db"
  sq_prepare :: "'db \<Rightarrow> sql \<Rightarrow> bool"
  sq_insert :: "'db \<Rightarrow> bytes \<Rightarrow> bytes \<Rightarrow> bool \<times> 'db"
  sq_last_rowid :: "'db \<Rightarrow> int"
  sq_select :: "'db \<Rightarrow> bytes \<Rightarrow> (int \<times> bytes option \<times> bytes option) option"

definition init_db :: "'db sqlite \<Rightarrow> bytes \<Rightarrow> int \<times> 'db" where
  "init_db sq db_path =
     (let (opened, d) = sq_open sq db_path in
      if \<not> opened then (-1, d)
      else let (done, d) = sq_exec sq d CREATE_USERS in (if done then 0 else -1, d))"

definition insert_user :: "'db sqlite \<Rightarrow> 'db \<Rightarrow> user_t \<Rightarrow> int \<times> user_t \<times> 'db" where
  "insert_user sq d user =
     (if \<not> sq_prepare sq d INSERT_USER then (-1, user, d)
      else let (done, d) = sq_insert sq d (c_str (username user)) (c_str (password user)) in
        if done then (0, user\<lparr>user_id := word_of_int (sq_last_rowid sq d)\<rparr>, d)
        else (-1, user, d))"

definition get_user_by_username :: "'db sqlite \<Rightarrow> 'db \<Rightarrow> bytes \<Rightarrow> user_t \<Rightarrow> int \<times> user_t" where
  "get_user_by_username sq d name user =
     (if \<not> sq_prepare sq d SELECT_USER then (-1, user)
      else case sq_select sq d (c_str name) of
        None \<Rightarrow> (0, user)
      | Some (i, n, p) \<Rightarrow>
          (1, user\<lparr>user_id := word_of_int i,
             username := (case n of None \<Rightarrow> [] | Some s \<Rightarrow> c_str s),
             password := (case p of None \<Rightarrow> [] | Some s \<Rightarrow> c_str s)\<rparr>))"

section \<open>What SQLite promises\<close>

text \<open>
  \<open>rows\<close> is the content of the table \<open>users(id, username, password)\<close>, in rowid order. The
  select returns the first row whose lower-cased name is the bound text (SQLite's \<open>LOWER\<close>
  folds ASCII letters only, like \<open>string_to_lower\<close>). A completed insert appends one row with the
  rowid it reports; one that does not complete leaves the rows alone.
\<close>

type_synonym user_row = "int \<times> bytes \<times> bytes"

definition sqlite_users :: "'db sqlite \<Rightarrow> ('db \<Rightarrow> user_row list) \<Rightarrow> bool" where
  "sqlite_users sq rows \<longleftrightarrow>
     (\<forall>d s. sq_prepare sq d s) \<and>
     (\<forall>d k. sq_select sq d k =
        map_option (\<lambda>(i, u, p). (i, Some u, Some p))
          (find (\<lambda>(i, u, p). string_to_lower u = k) (rows d))) \<and>
     (\<forall>d u p. rows (snd (sq_insert sq d u p)) =
        rows d @ (if fst (sq_insert sq d u p)
                  then [(sq_last_rowid sq (snd (sq_insert sq d u p)), u, p)] else []))"

text \<open>The account a (lower-case) name denotes, and the databases the server can meet.\<close>

definition account :: "('db \<Rightarrow> user_row list) \<Rightarrow> 'db \<Rightarrow> bytes \<Rightarrow> user_t option" where
  "account rows d k =
     map_option (\<lambda>(i, u, p). \<lparr>user_id = word_of_int i, username = u, password = p\<rparr>)
       (find (\<lambda>(i, u, p). string_to_lower u = k) (rows d))"

definition db_ok :: "'db sqlite \<Rightarrow> ('db \<Rightarrow> user_row list) \<Rightarrow> 'db \<Rightarrow> bool" where
  "db_ok sq rows d \<longleftrightarrow> sqlite_users sq rows \<and>
     (\<forall>(i, u, p) \<in> set (rows d). 0 \<notin> set u \<and> 0 \<notin> set p)"

section \<open>The interface of the services to the database\<close>

text \<open>
  A lookup by a NUL-free name returns the account of that name or reports that there is none;
  a successful insert of a new name adds exactly the account of its lower-cased C string; a
  failed one changes nothing.
\<close>

locale user_store =
  fixes lookup :: "'db \<Rightarrow> bytes \<Rightarrow> user_t \<Rightarrow> int \<times> user_t"
    and insert_acc :: "'db \<Rightarrow> user_t \<Rightarrow> int \<times> user_t \<times> 'db"
    and acc :: "'db \<Rightarrow> bytes \<Rightarrow> user_t option"
    and invar :: "'db \<Rightarrow> bool"
  assumes lookup_law: "invar d \<Longrightarrow>
      lookup d k u = (case acc d (c_str k) of None \<Rightarrow> (0, u) | Some a \<Rightarrow> (1, a))"
    and insert_done: "invar d \<Longrightarrow> insert_acc d u = (0, u', d') \<Longrightarrow>
      u' = u\<lparr>user_id := user_id u'\<rparr> \<and>
      (acc d (string_to_lower (c_str (username u))) = None \<longrightarrow>
       acc d' = (acc d)(string_to_lower (c_str (username u)) \<mapsto>
         \<lparr>user_id = user_id u', username = c_str (username u), password = c_str (password u)\<rparr>))"
    and insert_failed: "invar d \<Longrightarrow> insert_acc d u = (r, u', d') \<Longrightarrow> r \<noteq> 0 \<Longrightarrow>
      r = -1 \<and> acc d' = acc d"
    and insert_invar: "invar d \<Longrightarrow> invar (snd (snd (insert_acc d u)))"
begin

text \<open>After a successful insert of a new name, looking it up in any casing finds it.\<close>

lemma lookup_after_insert:
  assumes "invar d" "insert_acc d u = (0, u', d')"
    and "acc d (string_to_lower (c_str (username u))) = None"
    and "string_to_lower (c_str k) = string_to_lower (c_str (username u))"
  shows "lookup d' (string_to_lower k) v = (1,
    \<lparr>user_id = user_id u', username = c_str (username u), password = c_str (password u)\<rparr>)"
proof -
  from insert_invar [OF assms(1), of u] assms(2) have "invar d'" by simp
  moreover from insert_done [OF assms(1,2)] assms(3)
  have "acc d' (string_to_lower (c_str (username u))) = Some
      \<lparr>user_id = user_id u', username = c_str (username u), password = c_str (password u)\<rparr>"
    by simp
  ultimately show ?thesis
    using assms(4) by (simp add: lookup_law c_str_string_to_lower)
qed

text \<open>Other names are untouched.\<close>

lemma lookup_other_after_insert:
  assumes "invar d" "insert_acc d u = (0, u', d')"
    and "acc d (string_to_lower (c_str (username u))) = None"
    and "c_str k \<noteq> string_to_lower (c_str (username u))"
  shows "lookup d' k v = lookup d k v"
proof -
  from insert_invar [OF assms(1), of u] assms(2) have "invar d'" by simp
  with insert_done [OF assms(1,2)] assms(1,3,4) show ?thesis
    by (simp add: lookup_law)
qed

end

lemma find_append_single:
  "find P (xs @ [x]) = (case find P xs of None \<Rightarrow> if P x then Some x else None | Some y \<Rightarrow> Some y)"
  by (induction xs) auto

lemma find_member: "find P xs = Some x \<Longrightarrow> x \<in> set xs \<and> P x"
  by (induction xs) (auto split: if_splits)

lemma sqlite_users_insert:
  assumes "sqlite_users sq rows"
  shows "rows (snd (sq_insert sq d u p)) =
    rows d @ (if fst (sq_insert sq d u p)
              then [(sq_last_rowid sq (snd (sq_insert sq d u p)), u, p)] else [])"
  using assms by (simp add: sqlite_users_def)

lemma insert_user_rows:
  assumes "sqlite_users sq rows" "insert_user sq d u = (r, u', d')"
  shows "(r = 0 \<and> u' = u\<lparr>user_id := user_id u'\<rparr> \<and> user_id u' = word_of_int (sq_last_rowid sq d') \<and>
      rows d' = rows d @ [(sq_last_rowid sq d', c_str (username u), c_str (password u))])
    \<or> (r = -1 \<and> rows d' = rows d)"
  using assms(2) sqlite_users_insert [OF assms(1), of d "c_str (username u)" "c_str (password u)"]
  by (auto simp: insert_user_def split: if_splits prod.splits)

lemma get_user_account:
  assumes "db_ok sq rows d"
  shows "get_user_by_username sq d k u = (case account rows d (c_str k) of None \<Rightarrow> (0, u) | Some a \<Rightarrow> (1, a))"
proof (cases "find (\<lambda>(i, u, p). string_to_lower u = c_str k) (rows d)")
  case None
  with assms show ?thesis
    by (simp add: db_ok_def sqlite_users_def get_user_by_username_def account_def)
next
  case (Some x)
  obtain i n p where x: "x = (i, n, p)" by (cases x)
  with find_member [OF Some] assms have "c_str n = n" "c_str p = p" by (auto simp: db_ok_def)
  with Some x assms show ?thesis
    by (simp add: db_ok_def sqlite_users_def get_user_by_username_def account_def)
qed

interpretation users: user_store "get_user_by_username sq" "insert_user sq" "account rows" "db_ok sq rows"
  for sq :: "'db sqlite" and rows
proof (unfold_locales, goal_cases)
  case (1 d k u)
  then show ?case by (rule get_user_account)
next
  case (2 d u u' d')
  then have sq: "sqlite_users sq rows" by (simp add: db_ok_def)
  from insert_user_rows [OF sq 2(2)] show ?case
    by (auto simp: account_def find_append_single fun_eq_iff split: option.splits)
next
  case (3 d u r u' d')
  then have sq: "sqlite_users sq rows" by (simp add: db_ok_def)
  from insert_user_rows [OF sq 3(2)] 3(3) show ?case by (auto simp: account_def fun_eq_iff)
next
  case (4 d u)
  obtain r u' d' where i: "insert_user sq d u = (r, u', d')" by (rule prod_cases3)
  from 4 have sq: "sqlite_users sq rows" by (simp add: db_ok_def)
  from insert_user_rows [OF sq i] 4 i show ?case by (auto simp: db_ok_def c_str_no_nul)
qed

end
