(* ===== verification/Start_Up.thy ===== *)
theory Start_Up
  imports Process Conn_Table Server_Admin User_Db
begin

text \<open>
  The start and the end of the server: \<open>open_listenfd\<close> and \<open>init_server\<close> of \<open>src/server_utils.cpp\<close>,
  \<open>close_db\<close> of \<open>src/db.cpp\<close> and the signal handler of \<open>src/server.cpp\<close>, on the process state of
  \<open>Process\<close>. The answers of the system calls are arguments.
\<close>

section \<open>The listening socket\<close>

text \<open>One candidate address: what \<open>socket\<close>, \<open>bind\<close> and, after a failed \<open>bind\<close>, \<open>close\<close> return for it.\<close>

record address =
  socket_fd :: int
  bind_rc :: int
  close_rc :: int

datatype bound = Bound int | Unbound | Close_Failed

text \<open>The loop over the list; a failed \<open>close\<close> leaves the function at once.\<close>

fun try_addresses :: "address list \<Rightarrow> process \<Rightarrow> bound \<times> process" where
  "try_addresses [] p = (Unbound, p)"
| "try_addresses (a # as) p =
     (if socket_fd a < 0 then try_addresses as p
      else let p = acquire (socket_fd a) p in
        if bind_rc a = 0 then (Bound (socket_fd a), p)
        else if close_rc a < 0 then (Close_Failed, p)
        else try_addresses as (release (socket_fd a) p))"

record listen_answers =
  gai_rc :: int
  addresses :: "address list"
  listen_nonblock :: admission
  listen_rc :: int

text \<open>\<open>getnameinfo\<close> only decides what is printed and is left out.\<close>

definition open_listenfd :: "listen_answers \<Rightarrow> process \<Rightarrow> int outcome \<times> process" where
  "open_listenfd k p =
     (if gai_rc k \<noteq> 0 then (Running (-1), p)
      else
        let p = p\<lparr>address_lists := address_lists p + 1\<rparr>;
            (b, p) = try_addresses (addresses k) p
        in case b of
          Close_Failed \<Rightarrow> (Running (-1), p)
        | Unbound \<Rightarrow> (Running (-1), freeaddrinfo p)
        | Bound listenfd \<Rightarrow>
            (case set_nonblocking_fd (listen_nonblock k) of
               Exited code \<Rightarrow> (Exited code, p)
             | Running _ \<Rightarrow>
                 let p = p\<lparr>nonblocking := listenfd # nonblocking p\<rparr> in
                 if listen_rc k < 0 then (Running (-1), release listenfd (freeaddrinfo p))
                 else (Running listenfd, freeaddrinfo (p\<lparr>listening := listenfd # listening p\<rparr>))))"

section \<open>The database\<close>

definition DB_PATH :: bytes where "DB_PATH = str ''app.db''"
definition DB_TEST_PATH :: bytes where "DB_TEST_PATH = str ''test.db''"

text \<open>The result, the database connection, and the process.\<close>

definition init_server ::
  "'db sqlite \<Rightarrow> int \<Rightarrow> listen_answers \<Rightarrow> process \<Rightarrow> int outcome \<times> 'db \<times> process" where
  "init_server sq is_test k p =
     (let (rc, d) = init_db sq (if is_test \<noteq> 0 then DB_TEST_PATH else DB_PATH) in
      if rc = -1 then (Running (-1), d, p)
      else
        let (r, p) = open_listenfd k (p\<lparr>db_open := True\<rparr>) in (r, d, p))"

text \<open>The removal of a file that is not there fails, which is only reported.\<close>

definition close_db :: "process \<Rightarrow> process" where
  "close_db p = p\<lparr>db_open := False, files := filter (\<lambda>f. f \<noteq> DB_TEST_PATH) (files p)\<rparr>"

definition sigint_handler :: "int \<Rightarrow> process \<Rightarrow> int outcome \<times> process" where
  "sigint_handler listenfd p =
     (let p = (if listenfd \<noteq> -1 then release listenfd p else p) in (Exited (Status 0), close_db p))"

section \<open>What the start-up achieves\<close>

lemma process_simps [simp]:
  "held (p\<lparr>nonblocking := x\<rparr>) = held p" "held (p\<lparr>listening := x\<rparr>) = held p"
  "held (p\<lparr>address_lists := n\<rparr>) = held p" "held (p\<lparr>db_open := b\<rparr>) = held p" "held (p\<lparr>files := fs\<rparr>) = held p"
  "held (freeaddrinfo p) = held p"
  "address_lists (freeaddrinfo p) = address_lists p - 1" "address_lists (acquire fd p) = address_lists p"
  "address_lists (release fd p) = address_lists p"
  by (simp_all add: held_def freeaddrinfo_def acquire_def release_def)

text \<open>The first address that takes a socket and binds it is the one that is used.\<close>

definition usable :: "address \<Rightarrow> bool" where
  "usable a \<longleftrightarrow> 0 \<le> socket_fd a \<and> bind_rc a = 0"

lemma try_addresses_spec:
  assumes "try_addresses as p = (b, p')"
  shows "address_lists p' = address_lists p \<and>
    (case b of
       Bound fd \<Rightarrow> held p' = add_mset fd (held p) \<and> map_option socket_fd (find usable as) = Some fd \<and> 0 \<le> fd
     | Unbound \<Rightarrow> held p' = held p \<and> find usable as = None
     | Close_Failed \<Rightarrow> \<exists>a \<in> set as. close_rc a < 0)"
  using assms
proof (induction as p rule: try_addresses.induct)
  case (2 a as p)
  let ?q = "acquire (socket_fd a) p"
  consider "socket_fd a < 0" | "0 \<le> socket_fd a" "bind_rc a = 0" | "0 \<le> socket_fd a" "bind_rc a \<noteq> 0" "close_rc a < 0"
    | "0 \<le> socket_fd a" "bind_rc a \<noteq> 0" "\<not> close_rc a < 0" by linarith
  then show ?case
  proof cases
    case 4
    with 2(3) have "try_addresses as (release (socket_fd a) ?q) = (b, p')" by (simp add: Let_def)
    from 2(2) [OF _ refl _ _ this] 4 show ?thesis
      by (auto simp: usable_def fds.rel_acq split: bound.splits)
  qed (use 2 in \<open>auto simp: usable_def Let_def fds.contents_acq split: bound.splits\<close>)
qed simp

lemma open_listenfd_spec:
  assumes "open_listenfd k p = (r, p')" "\<forall>a \<in> set (addresses k). 0 \<le> close_rc a"
  shows "(\<exists>code. r = Exited code) \<or>
    (r = Running (-1) \<and> held p' = held p \<and> address_lists p' = address_lists p) \<or>
    (\<exists>fd \<ge> 0. r = Running fd \<and> held p' = add_mset fd (held p) \<and> address_lists p' = address_lists p \<and>
       fd \<in> set (listening p') \<and> fd \<in> set (nonblocking p') \<and>
       map_option socket_fd (find usable (addresses k)) = Some fd)"
proof -
  obtain b q where t: "try_addresses (addresses k) (p\<lparr>address_lists := address_lists p + 1\<rparr>) = (b, q)"
    by (rule prod.exhaust)
  note spec = try_addresses_spec [OF t]
  have sub: "held (release fd q') = held p" if "held q' = add_mset fd (held p)" for fd q'
    using that by (simp add: fds.contents_rel)
  show ?thesis
  proof (cases b)
    case Close_Failed
    with spec assms(2) show ?thesis by fastforce
  next
    case Unbound
    with spec t assms(1) show ?thesis by (auto simp: open_listenfd_def Let_def split: if_splits)
  next
    case (Bound fd)
    with spec t assms(1) sub show ?thesis
      by (auto simp: open_listenfd_def Let_def freeaddrinfo_def split: if_splits outcome.splits)
  qed
qed

text \<open>
  The end: the listening socket is given back, the database closed, and the test database's file,
  and no other, is gone, whichever database the server ran with.
\<close>

lemma sigint_handler_spec:
  assumes "sigint_handler listenfd p = (r, p')"
  shows "r = Exited (Status 0) \<and> \<not> db_open p' \<and> set (files p') = set (files p) - {DB_TEST_PATH} \<and>
    (listenfd \<noteq> -1 \<longrightarrow> held p' = held p - {#listenfd#}) \<and> (listenfd = -1 \<longrightarrow> held p' = held p)"
  using assms fds.contents_rel [of listenfd p]
  by (auto simp: sigint_handler_def close_db_def release_def held_def split: if_splits)

text \<open>This is the end that \<open>main_signals\<close> states of \<open>SIGINT\<close> and \<open>SIGTERM\<close>.\<close>

lemma sigint_handler_disposition:
  "s \<noteq> SIGPIPE \<Longrightarrow> raised s main_signals = Some code \<Longrightarrow> fst (sigint_handler listenfd p) = Exited code"
  by (simp add: raised_main_signals sigint_handler_def)

end
