(* ===== verification/Auth_Service.thy ===== *)
theory Auth_Service
  imports Conn_Table User_Db
begin

text \<open>
  The register and login services of \<open>src/server_utils.cpp\<close>. Both are shown to refine a verdict:
  what the credentials of the payload and the accounts of the database decide. The verdict
  fixes the response code, the response frame and the change of the state. The proofs use the
  database through the interface \<open>user_store\<close> only.
\<close>

definition user_zero :: user_t where
  "user_zero = \<lparr>user_id = 0, username = [], password = []\<rparr>"

definition register_user ::
  "'db sqlite \<Rightarrow> message_t \<Rightarrow> message_t \<Rightarrow> 'db server \<Rightarrow> (int \<times> message_t \<times> 'db server) option" where
  "register_user sq request response st = do {
     (rc, credentials) \<leftarrow> parse_register_request request \<lparr>reg_username = [], reg_password = []\<rparr>;
     if rc \<noteq> 0 then Some (rc, build_server_response (mtype REGISTER) rc None 0, st)
     else let (rc, user) = get_user_by_username sq (db st)
                (string_to_lower (reg_username credentials)) user_zero in
       if rc = 1 then Some (rcode RESP_ERROR_USER_EXISTS,
         build_server_response (mtype REGISTER) (rcode RESP_ERROR_USER_EXISTS) None 0, st)
       else if rc = -1 then Some (rcode RESP_ERROR_INTERNAL,
         build_server_response (mtype REGISTER) (rcode RESP_ERROR_INTERNAL) None 0, st)
       else let user = user\<lparr>user_id := 0, username := reg_username credentials,
                  password := reg_password credentials\<rparr>;
                (rc, user, d) = insert_user sq (db st) user;
                st = st\<lparr>db := d\<rparr> in
         if rc \<noteq> 0 then Some (rcode RESP_ERROR_INTERNAL,
           build_server_response (mtype REGISTER) (rcode RESP_ERROR_INTERNAL) None 0, st)
         else do {
           (rc, response) \<leftarrow> build_register_response response user;
           if rc \<noteq> 0 then Some (rcode RESP_ERROR_INTERNAL,
             build_server_response (mtype REGISTER) (rcode RESP_ERROR_INTERNAL) None 0, st)
           else Some (rcode RESP_OK, response, st) } }"

definition login_user ::
  "'db sqlite \<Rightarrow> nat \<Rightarrow> message_t \<Rightarrow> message_t \<Rightarrow> 'db server
     \<Rightarrow> (int \<times> message_t \<times> 'db server) option" where
  "login_user sq connfd request response st = do {
     (rc, credentials) \<leftarrow> parse_login_request request \<lparr>login_username = [], login_password = []\<rparr>;
     if rc \<noteq> 0 then Some (rc, build_server_response (mtype LOGIN) rc None 0, st)
     else let (rc, user) = get_user_by_username sq (db st)
                (string_to_lower (login_username credentials)) user_zero in
       if rc \<noteq> 1 then
         if rc = 0 then Some (rcode RESP_ERROR_USER_NOT_FOUND,
           build_server_response (mtype LOGIN) (rcode RESP_ERROR_USER_NOT_FOUND) None 0, st)
         else Some (rcode RESP_ERROR_INTERNAL,
           build_server_response (mtype LOGIN) (rcode RESP_ERROR_INTERNAL) None 0, st)
       else if password user \<noteq> login_password credentials then
         Some (rcode RESP_ERROR_INVALID_CREDENTIALS,
           build_server_response (mtype LOGIN) (rcode RESP_ERROR_INVALID_CREDENTIALS) None 0, st)
       else do {
         ids \<leftarrow> put (user_ids st) connfd (user_id user);
         names \<leftarrow> put (usernames st) connfd (username user);
         f \<leftarrow> at (flags st) connfd;
         fls \<leftarrow> put (flags st) connfd (flag_or_assign f IS_AUTH);
         let st = st\<lparr>user_ids := ids, usernames := names, flags := fls\<rparr>;
         (rc, response) \<leftarrow> build_login_response response user;
         if rc \<noteq> 0 then Some (rcode RESP_ERROR_INTERNAL,
           build_server_response (mtype LOGIN) (rcode RESP_ERROR_INTERNAL) None 0, st)
         else Some (rcode RESP_OK, response, st) } }"

section \<open>Specification\<close>

text \<open>A response without payload, and the response that carries a user.\<close>

definition error_frame :: "u8 \<Rightarrow> response_code_t \<Rightarrow> frame" where
  "error_frame ty e = \<lparr>f_version = 1, f_type = ty, f_rc = word_of_int (rcode e), f_payload = []\<rparr>"

definition verdict_frame :: "msg_type_t \<Rightarrow> response_code_t + user_t \<Rightarrow> frame" where
  "verdict_frame ty v =
     (case v of Inl e \<Rightarrow> error_frame (mtype ty) e | Inr u \<Rightarrow> request_frame ty (user_tlvs u))"

definition verdict_code :: "response_code_t + 'a \<Rightarrow> int" where
  "verdict_code v = (case v of Inl e \<Rightarrow> rcode e | Inr _ \<Rightarrow> rcode RESP_OK)"

text \<open>The account a name in a request refers to: its C string, in lower case.\<close>

definition account_key :: "bytes \<Rightarrow> bytes" where
  "account_key name = string_to_lower (c_str name)"

definition login_verdict :: "(bytes \<Rightarrow> user_t option) \<Rightarrow> bytes \<Rightarrow> response_code_t + user_t" where
  "login_verdict acc bs =
     (case credentials_of bs of
        None \<Rightarrow> Inl RESP_ERROR_MALFORMED
      | Some (u, p) \<Rightarrow>
          (case acc (account_key u) of
             None \<Rightarrow> Inl RESP_ERROR_USER_NOT_FOUND
           | Some a \<Rightarrow> if password a = p then Inr a else Inl RESP_ERROR_INVALID_CREDENTIALS))"

definition authenticate :: "nat \<Rightarrow> user_t \<Rightarrow> 'db server \<Rightarrow> 'db server" where
  "authenticate fd a st = st\<lparr>user_ids := (user_ids st)[fd := user_id a],
     usernames := (usernames st)[fd := username a],
     flags := (flags st)[fd := flag_or_assign (flags st ! fd) IS_AUTH]\<rparr>"

text \<open>What a registration may do; \<open>Inr\<close> names the credentials to be stored.\<close>

definition register_verdict ::
  "(bytes \<Rightarrow> user_t option) \<Rightarrow> bytes \<Rightarrow> response_code_t + bytes \<times> bytes" where
  "register_verdict acc bs =
     (case credentials_of bs of
        None \<Rightarrow> Inl RESP_ERROR_MALFORMED
      | Some (u, p) \<Rightarrow>
          if acc (account_key u) = None then Inr (u, p) else Inl RESP_ERROR_USER_EXISTS)"

text \<open>
  The effect of either request: the frame it is answered with and the state after it. An
  insert that SQLite refuses becomes \<open>RESP_ERROR_INTERNAL\<close>.
\<close>

definition register_effect ::
  "'db sqlite \<Rightarrow> ('db \<Rightarrow> user_row list) \<Rightarrow> bytes \<Rightarrow> 'db server \<Rightarrow> frame \<times> 'db server" where
  "register_effect sq rows bs st =
     (case register_verdict (account rows (db st)) bs of
        Inl e \<Rightarrow> (error_frame (mtype REGISTER) e, st)
      | Inr (u, p) \<Rightarrow>
          (let (r, w, d) = insert_user sq (db st) \<lparr>user_id = 0, username = u, password = p\<rparr> in
           (if r = 0 then request_frame REGISTER (user_tlvs w)
            else error_frame (mtype REGISTER) RESP_ERROR_INTERNAL, st\<lparr>db := d\<rparr>)))"

definition login_effect ::
  "('db \<Rightarrow> user_row list) \<Rightarrow> nat \<Rightarrow> bytes \<Rightarrow> 'db server \<Rightarrow> frame \<times> 'db server" where
  "login_effect rows fd bs st =
     (let v = login_verdict (account rows (db st)) bs in
      (verdict_frame LOGIN v, case v of Inl _ \<Rightarrow> st | Inr a \<Rightarrow> authenticate fd a st))"

lemma error_response:
  "message_ok (build_server_response ty (rcode e) None 0)"
  "message_frame (build_server_response ty (rcode e) None 0) = error_frame ty e"
  by (simp_all add: message_ok_def message_frame_def build_server_response_def error_frame_def)

text \<open>The codes a parser can give, and the account a lookup by a request's name finds.\<close>

lemma rcode_simps [simp]:
  "rcode e = 0 \<longleftrightarrow> e = RESP_OK"
  by (cases e) simp_all

lemma lookup_account:
  assumes "db_ok sq rows d"
  shows "get_user_by_username sq d (string_to_lower name) v =
    (case account rows d (account_key name) of None \<Rightarrow> (0, v) | Some a \<Rightarrow> (1, a))"
  using users.lookup_law [OF assms, of "string_to_lower name" v]
  by (simp add: account_key_def c_str_string_to_lower)

lemma login_user_verdict:
  assumes "db_ok sq rows (db st)" "same_sizes st" "fd < get_size st"
    and "payload_inside rq" "payload rs = Some b" "MSG_MAX_PAYLOAD_SIZE \<le> length b"
  defines "v \<equiv> login_verdict (account rows (db st)) (msg_payload rq)"
  shows "\<exists>m. login_user sq fd rq rs st = Some (verdict_code v, m,
      case v of Inl _ \<Rightarrow> st | Inr a \<Rightarrow> authenticate fd a st) \<and>
    message_ok m \<and> message_frame m = verdict_frame LOGIN v"
proof (cases "credentials_of (msg_payload rq)")
  case None
  with parse_login_request_spec [OF assms(4)] obtain c where
    "parse_login_request rq \<lparr>login_username = [], login_password = []\<rparr> = Some (rcode RESP_ERROR_MALFORMED, c)"
    by fastforce
  with None error_response [of "mtype LOGIN" RESP_ERROR_MALFORMED] show ?thesis
    by (simp add: login_user_def v_def login_verdict_def verdict_code_def verdict_frame_def)
next
  case (Some up)
  obtain u p where up: "up = (u, p)" by (cases up)
  have parse: "parse_login_request rq \<lparr>login_username = [], login_password = []\<rparr> =
      Some (0, \<lparr>login_username = u, login_password = p\<rparr>)"
    using parse_login_request_spec [OF assms(4), of "\<lparr>login_username = [], login_password = []\<rparr>"]
    by (simp add: Some up)
  note look = lookup_account [OF assms(1), of u user_zero]
  show ?thesis
  proof (cases "account rows (db st) (account_key u)")
    case None
    with Some up parse look error_response [of "mtype LOGIN" RESP_ERROR_USER_NOT_FOUND] show ?thesis
      by (simp add: login_user_def v_def login_verdict_def verdict_code_def verdict_frame_def)
  next
    case acc: (Some a)
    show ?thesis
    proof (cases "password a = p")
      case False
      with Some up parse look acc error_response [of "mtype LOGIN" RESP_ERROR_INVALID_CREDENTIALS]
      show ?thesis
        by (simp add: login_user_def v_def login_verdict_def verdict_code_def verdict_frame_def)
    next
      case True
      from build_auth_response_frame(2) [OF assms(5,6), of a] obtain m where
        "build_login_response rs a = Some (0, m)" "message_ok m"
        "message_frame m = request_frame LOGIN (user_tlvs a)" by blast
      with True Some up parse look acc assms(2,3) show ?thesis
        by (simp add: login_user_def v_def login_verdict_def verdict_code_def verdict_frame_def
            same_sizes_def get_size_def put_in at_in authenticate_def)
    qed
  qed
qed

lemma register_user_effect:
  assumes "db_ok sq rows (db st)"
    and "payload_inside rq" "payload rs = Some b" "MSG_MAX_PAYLOAD_SIZE \<le> length b"
  shows "\<exists>code m. register_user sq rq rs st =
      Some (code, m, snd (register_effect sq rows (msg_payload rq) st)) \<and>
    message_ok m \<and> message_frame m = fst (register_effect sq rows (msg_payload rq) st) \<and>
    code = uint (f_rc (fst (register_effect sq rows (msg_payload rq) st)))"
proof (cases "credentials_of (msg_payload rq)")
  case None
  with parse_register_request_spec [OF assms(2)] obtain c where
    "parse_register_request rq \<lparr>reg_username = [], reg_password = []\<rparr> = Some (rcode RESP_ERROR_MALFORMED, c)"
    by fastforce
  with None error_response [of "mtype REGISTER" RESP_ERROR_MALFORMED] show ?thesis
    by (simp add: register_user_def register_effect_def register_verdict_def error_frame_def)
next
  case (Some up)
  obtain u p where up: "up = (u, p)" by (cases up)
  have parse: "parse_register_request rq \<lparr>reg_username = [], reg_password = []\<rparr> =
      Some (0, \<lparr>reg_username = u, reg_password = p\<rparr>)"
    using parse_register_request_spec [OF assms(2), of "\<lparr>reg_username = [], reg_password = []\<rparr>"]
    by (simp add: Some up)
  note look = lookup_account [OF assms(1), of u user_zero]
  show ?thesis
  proof (cases "account rows (db st) (account_key u)")
    case acc: (Some a)
    with Some up parse look error_response [of "mtype REGISTER" RESP_ERROR_USER_EXISTS] show ?thesis
      by (simp add: register_user_def register_effect_def register_verdict_def error_frame_def)
  next
    case acc: None
    let ?u = "\<lparr>user_id = 0, username = u, password = p\<rparr>"
    obtain r w d where ins: "insert_user sq (db st) ?u = (r, w, d)" by (rule prod_cases3)
    have user: "user_zero\<lparr>user_id := 0, username := u, password := p\<rparr> = ?u"
      by (simp add: user_zero_def)
    note run = register_user_def register_effect_def register_verdict_def user Let_def
      error_frame_def request_frame_def
    show ?thesis
    proof (cases "r = 0")
      case False
      with ins Some up parse look acc error_response [of "mtype REGISTER" RESP_ERROR_INTERNAL]
      show ?thesis by (simp add: run)
    next
      case True
      from build_auth_response_frame(1) [OF assms(3,4), of w] obtain m where
        "build_register_response rs w = Some (0, m)" "message_ok m"
        "message_frame m = request_frame REGISTER (user_tlvs w)" by blast
      with True ins Some up parse look acc show ?thesis by (simp add: run)
    qed
  qed
qed

text \<open>
  What a registration makes of the accounts: nothing, or the one new account, under a key that
  was free. The database stays one the services can work with.
\<close>

lemma register_effect_accounts:
  assumes "db_ok sq rows (db st)" "register_effect sq rows bs st = (f, st')"
  shows "db_ok sq rows (db st') \<and> st' = st\<lparr>db := db st'\<rparr> \<and>
     ((account rows (db st') = account rows (db st) \<and>
          f \<in> {error_frame (mtype REGISTER) RESP_ERROR_MALFORMED,
                error_frame (mtype REGISTER) RESP_ERROR_USER_EXISTS,
                error_frame (mtype REGISTER) RESP_ERROR_INTERNAL}) \<or>
      (\<exists>u p i. credentials_of bs = Some (u, p) \<and> account rows (db st) (account_key u) = None \<and>
         f = request_frame REGISTER (user_tlvs \<lparr>user_id = i, username = u, password = p\<rparr>) \<and>
         account rows (db st') = (account rows (db st))
           (account_key u \<mapsto> \<lparr>user_id = i, username = c_str u, password = c_str p\<rparr>)))"
proof (cases "register_verdict (account rows (db st)) bs")
  case (Inl e)
  then have "e = RESP_ERROR_MALFORMED \<or> e = RESP_ERROR_USER_EXISTS"
    by (auto simp: register_verdict_def split: option.splits if_splits)
  with Inl assms show ?thesis by (auto simp: register_effect_def)
next
  case (Inr up)
  obtain u p where up: "up = (u, p)" by (cases up)
  from Inr up have cr: "credentials_of bs = Some (u, p)" and acc: "account rows (db st) (account_key u) = None"
    by (auto simp: register_verdict_def split: option.splits if_splits)
  let ?u = "\<lparr>user_id = 0, username = u, password = p\<rparr>"
  obtain r w d where ins: "insert_user sq (db st) ?u = (r, w, d)" by (rule prod_cases3)
  from users.insert_invar [OF assms(1), of ?u] ins have inv: "db_ok sq rows d" by simp
  from assms(2) ins Inr up have st': "st' = st\<lparr>db := d\<rparr>"
    and f: "f = (if r = 0 then request_frame REGISTER (user_tlvs w)
          else error_frame (mtype REGISTER) RESP_ERROR_INTERNAL)"
    by (auto simp: register_effect_def)
  show ?thesis
  proof (cases "r = 0")
    case False
    with users.insert_failed [OF assms(1) ins] inv st' f show ?thesis by simp
  next
    case True
    with users.insert_done [OF assms(1), of ?u w d] ins acc
    have w: "w = ?u\<lparr>user_id := user_id w\<rparr>" and d: "account rows d = (account rows (db st))
        (account_key u \<mapsto> \<lparr>user_id = user_id w, username = c_str u, password = c_str p\<rparr>)"
      by (simp_all add: account_key_def)
    have "user_tlvs w = user_tlvs \<lparr>user_id = user_id w, username = u, password = p\<rparr>"
      by (subst w) simp
    with True inv st' f cr acc d show ?thesis by auto
  qed
qed

lemma register_ok_rc:
  "register_user sq rq rs st = Some (0, m, st') \<Longrightarrow> msg_rc m = 0"
  by (auto simp: register_user_def build_register_response_def build_server_response_def
      bind_eq_Some_conv Let_def split: prod.splits if_splits option.splits)

text \<open>A registration answered with \<open>RESP_OK\<close> has stored the account.\<close>

lemma register_ok_verdict:
  assumes "db_ok sq rows (db st)" "payload_inside rq" "payload rs = Some b" "MSG_MAX_PAYLOAD_SIZE \<le> length b"
    and "register_user sq rq rs st = Some (rcode RESP_OK, m, st')"
  shows "\<exists>u p i. credentials_of (msg_payload rq) = Some (u, p) \<and>
    account rows (db st) (account_key u) = None \<and>
    account rows (db st') = (account rows (db st))
      (account_key u \<mapsto> \<lparr>user_id = i, username = c_str u, password = c_str p\<rparr>)"
proof -
  obtain f s where eff: "register_effect sq rows (msg_payload rq) st = (f, s)" by (rule prod.exhaust)
  note reg = register_effect_accounts [OF assms(1) eff]
  from register_user_effect [where st = st, OF assms(1-4)] eff assms(5)
  have s: "s = st'" and f: "message_frame m = f" by auto
  have "f_rc f = 0"
    using assms(5) f by (auto simp: message_frame_def dest: register_ok_rc)
  with reg s show ?thesis by (auto simp: error_frame_def)
qed

section \<open>Registering and then logging in\<close>

text \<open>
  After the accounts have gained an entry for \<open>u\<close>, a login under any casing of \<open>u\<close> is decided by
  the stored password, which is the sent one up to its first NUL.
\<close>

lemma login_after_register:
  assumes "acc' = acc(account_key u \<mapsto> \<lparr>user_id = i, username = c_str u, password = c_str p\<rparr>)"
    and "credentials_of bs = Some (n, q)" "account_key n = account_key u"
  shows "login_verdict acc' bs =
    (if q = c_str p then Inr \<lparr>user_id = i, username = c_str u, password = c_str p\<rparr>
     else Inl RESP_ERROR_INVALID_CREDENTIALS)"
  using assms by (auto simp: login_verdict_def)

lemma register_twice:
  assumes "acc' = acc(account_key u \<mapsto> a)"
    and "credentials_of bs = Some (n, q)" "account_key n = account_key u"
  shows "register_verdict acc' bs = Inl RESP_ERROR_USER_EXISTS"
  using assms by (simp add: register_verdict_def)

section \<open>The services keep the table\<close>

lemma authenticate_inv:
  assumes "table_inv st" "fd < get_size st" "has_flag (flags st ! fd) IS_ACTIVE"
  shows "table_inv (authenticate fd a st)"
  using assms table_inv_slot [OF assms(1,2)]
  by (auto simp: authenticate_def table_inv_def same_sizes_def get_size_def nth_list_update slot_ok_or)

end
