(* ===== verification/Chat_Protocol.thy ===== *)
theory Chat_Protocol
  imports Auth_Protocol
begin

text \<open>
  World and peer-to-peer broadcasts of \<open>src/protocol.cpp\<close>: the client's builders into a request
  buffer, the server's builders into a message (the overloads of the same name), and the
  parsers both sides use. As for the credentials, parsing is shown equal to a specification
  over the pairs of the payload, and building then parsing is the identity.
\<close>

record world_broadcast_t =
  world_sender_username :: bytes
  world_message_content :: bytes

record p2p_broadcast_t =
  p2p_sender_username :: bytes
  p2p_recipient_username :: bytes
  p2p_message_content :: bytes

section \<open>World broadcasts\<close>

definition build_world_broadcast_request ::
  "bytes \<Rightarrow> world_broadcast_t \<Rightarrow> u32 \<Rightarrow> (int \<times> bytes \<times> u32) option" where
  "build_world_broadcast_request request_buffer broadcast message_len =
     (if length (world_sender_username broadcast) > MAX_USERNAME_SIZE
      then Some (-1, request_buffer, message_len)
      else if length (world_message_content broadcast) > MAX_MSG_CONTENT_SIZE
      then Some (-1, request_buffer, message_len)
      else do {
        (b, p) \<leftarrow> write_tlv request_buffer MSG_HEADER_SIZE TAG_WORLD_BROADCAST 0 [] False;
        (b, p) \<leftarrow> write_tlv b p TAG_SENDER_USERNAME
          (u8_cast (length (world_sender_username broadcast))) (world_sender_username broadcast) False;
        (b, p) \<leftarrow> write_tlv b p TAG_MESSAGE_CONTENT
          (u8_cast (length (world_message_content broadcast))) (world_message_content broadcast) False;
        let message_len = u32_cast p;
        let payload_len = message_len - u32_cast MSG_HEADER_SIZE;
        let net_payload_len = htonl payload_len;
        if payload_len > u32_cast MSG_MAX_PAYLOAD_SIZE then Some (-1, b, message_len)
        else do {
          b \<leftarrow> mem_write b 0 [1];
          b \<leftarrow> mem_write b 1 [mtype CHAT];
          b \<leftarrow> mem_write b 2 [0];
          b \<leftarrow> mem_write b 3 (bytes_of_u32 net_payload_len);
          Some (0, b, message_len) } })"

definition build_world_broadcast :: "message_t \<Rightarrow> world_broadcast_t \<Rightarrow> (int \<times> message_t) option" where
  "build_world_broadcast request broadcast = (case payload request of None \<Rightarrow> None | Some buf \<Rightarrow> do {
     (b, p) \<leftarrow> write_tlv buf 0 TAG_WORLD_BROADCAST 0 [] False;
     (b, p) \<leftarrow> write_tlv b p TAG_SENDER_USERNAME
       (u8_cast (length (world_sender_username broadcast))) (world_sender_username broadcast) False;
     (b, p) \<leftarrow> write_tlv b p TAG_MESSAGE_CONTENT
       (u8_cast (length (world_message_content broadcast))) (world_message_content broadcast) False;
     let request = request\<lparr>payload := Some b\<rparr>;
     let payload_len = u32_cast p;
     if payload_len > u32_cast MSG_MAX_PAYLOAD_SIZE then Some (-1, request)
     else Some (0, request\<lparr>msg_version := 1, msg_type := mtype CHAT, msg_rc := 0,
       payload_length := payload_len\<rparr>) })"

text \<open>The locals: the broadcast, \<open>has_broadcast_tag\<close>, \<open>has_sender\<close>, \<open>has_content\<close>.\<close>

definition world_switch ::
  "u8 \<Rightarrow> bytes \<Rightarrow> world_broadcast_t \<times> bool \<times> bool \<times> bool
     \<Rightarrow> (world_broadcast_t \<times> bool \<times> bool \<times> bool) tlv_action option" where
  "world_switch tg val s =
     (case s of (broadcast, has_broadcast_tag, has_sender, has_content) \<Rightarrow>
        if tg = tag TAG_WORLD_BROADCAST then Some (Next (broadcast, True, has_sender, has_content))
        else if tg = tag TAG_SENDER_USERNAME then
          if length val > MAX_USERNAME_SIZE then Some (Return (rcode RESP_ERROR_MALFORMED) s)
          else Some (Next (broadcast\<lparr>world_sender_username := val\<rparr>, has_broadcast_tag, True, has_content))
        else if tg = tag TAG_MESSAGE_CONTENT then
          Some (Next (broadcast\<lparr>world_message_content := val\<rparr>, has_broadcast_tag, has_sender, True))
        else Some (Next s))"

definition parse_world_broadcast ::
  "message_t \<Rightarrow> world_broadcast_t \<Rightarrow> (int \<times> world_broadcast_t) option" where
  "parse_world_broadcast request broadcast = do {
     act \<leftarrow> tlv_loop world_switch (payload_mem request) 0 (unat (payload_length request))
       (broadcast, False, False, False);
     (case act of
        Return r (b, _, _, _) \<Rightarrow> Some (r, b)
      | Next (b, has_broadcast_tag, has_sender, has_content) \<Rightarrow>
          if \<not> has_broadcast_tag \<or> \<not> has_sender \<or> \<not> has_content
          then Some (rcode RESP_ERROR_MALFORMED, b) else Some (0, b)) }"

definition build_world_broadcast_notification ::
  "message_t \<Rightarrow> world_broadcast_t \<Rightarrow> (int \<times> message_t) option" where
  "build_world_broadcast_notification response broadcast = build_world_broadcast response broadcast"

definition parse_world_broadcast_notification ::
  "message_t \<Rightarrow> world_broadcast_t \<Rightarrow> (int \<times> world_broadcast_t) option" where
  "parse_world_broadcast_notification msg broadcast = parse_world_broadcast msg broadcast"

section \<open>Peer-to-peer broadcasts\<close>

definition build_p2p_broadcast_request ::
  "bytes \<Rightarrow> p2p_broadcast_t \<Rightarrow> u32 \<Rightarrow> (int \<times> bytes \<times> u32) option" where
  "build_p2p_broadcast_request request_buffer broadcast message_len =
     (if length (p2p_sender_username broadcast) > MAX_USERNAME_SIZE
      then Some (-1, request_buffer, message_len)
      else if length (p2p_recipient_username broadcast) > MAX_USERNAME_SIZE
      then Some (-1, request_buffer, message_len)
      else if p2p_sender_username broadcast = p2p_recipient_username broadcast
      then Some (-1, request_buffer, message_len)
      else if length (p2p_message_content broadcast) > MAX_MSG_CONTENT_SIZE
      then Some (-1, request_buffer, message_len)
      else do {
        (b, p) \<leftarrow> write_tlv request_buffer MSG_HEADER_SIZE TAG_P2P_BROADCAST 0 [] False;
        (b, p) \<leftarrow> write_tlv b p TAG_SENDER_USERNAME
          (u8_cast (length (p2p_sender_username broadcast))) (p2p_sender_username broadcast) False;
        (b, p) \<leftarrow> write_tlv b p TAG_RECIPIENT_USERNAME
          (u8_cast (length (p2p_recipient_username broadcast))) (p2p_recipient_username broadcast) False;
        (b, p) \<leftarrow> write_tlv b p TAG_MESSAGE_CONTENT
          (u8_cast (length (p2p_message_content broadcast))) (p2p_message_content broadcast) False;
        let message_len = u32_cast p;
        let payload_len = message_len - u32_cast MSG_HEADER_SIZE;
        let net_payload_len = htonl payload_len;
        if payload_len > u32_cast MSG_MAX_PAYLOAD_SIZE then Some (-1, b, message_len)
        else do {
          b \<leftarrow> mem_write b 0 [1];
          b \<leftarrow> mem_write b 1 [mtype CHAT];
          b \<leftarrow> mem_write b 2 [0];
          b \<leftarrow> mem_write b 3 (bytes_of_u32 net_payload_len);
          Some (0, b, message_len) } })"

definition build_p2p_broadcast :: "message_t \<Rightarrow> p2p_broadcast_t \<Rightarrow> (int \<times> message_t) option" where
  "build_p2p_broadcast request broadcast =
     (if p2p_sender_username broadcast = p2p_recipient_username broadcast then Some (-1, request)
      else case payload request of None \<Rightarrow> None | Some buf \<Rightarrow> do {
        (b, p) \<leftarrow> write_tlv buf 0 TAG_P2P_BROADCAST 0 [] False;
        (b, p) \<leftarrow> write_tlv b p TAG_SENDER_USERNAME
          (u8_cast (length (p2p_sender_username broadcast))) (p2p_sender_username broadcast) False;
        (b, p) \<leftarrow> write_tlv b p TAG_RECIPIENT_USERNAME
          (u8_cast (length (p2p_recipient_username broadcast))) (p2p_recipient_username broadcast) False;
        (b, p) \<leftarrow> write_tlv b p TAG_MESSAGE_CONTENT
          (u8_cast (length (p2p_message_content broadcast))) (p2p_message_content broadcast) False;
        let request = request\<lparr>payload := Some b\<rparr>;
        let payload_len = u32_cast p;
        if payload_len > u32_cast MSG_MAX_PAYLOAD_SIZE then Some (-1, request)
        else Some (0, request\<lparr>msg_version := 1, msg_type := mtype CHAT, msg_rc := 0,
          payload_length := payload_len\<rparr>) })"

definition p2p_switch ::
  "u8 \<Rightarrow> bytes \<Rightarrow> p2p_broadcast_t \<times> bool \<times> bool \<times> bool \<times> bool
     \<Rightarrow> (p2p_broadcast_t \<times> bool \<times> bool \<times> bool \<times> bool) tlv_action option" where
  "p2p_switch tg val s =
     (case s of (broadcast, has_broadcast_tag, has_sender, has_recipient, has_content) \<Rightarrow>
        if tg = tag TAG_P2P_BROADCAST
        then Some (Next (broadcast, True, has_sender, has_recipient, has_content))
        else if tg = tag TAG_SENDER_USERNAME then
          if length val > MAX_USERNAME_SIZE then Some (Return (rcode RESP_ERROR_MALFORMED) s)
          else Some (Next (broadcast\<lparr>p2p_sender_username := val\<rparr>,
            has_broadcast_tag, True, has_recipient, has_content))
        else if tg = tag TAG_RECIPIENT_USERNAME then
          if length val > MAX_USERNAME_SIZE then Some (Return (rcode RESP_ERROR_MALFORMED) s)
          else Some (Next (broadcast\<lparr>p2p_recipient_username := val\<rparr>,
            has_broadcast_tag, has_sender, True, has_content))
        else if tg = tag TAG_MESSAGE_CONTENT then
          Some (Next (broadcast\<lparr>p2p_message_content := val\<rparr>,
            has_broadcast_tag, has_sender, has_recipient, True))
        else Some (Next s))"

definition parse_p2p_broadcast ::
  "message_t \<Rightarrow> p2p_broadcast_t \<Rightarrow> (int \<times> p2p_broadcast_t) option" where
  "parse_p2p_broadcast request broadcast = do {
     act \<leftarrow> tlv_loop p2p_switch (payload_mem request) 0 (unat (payload_length request))
       (broadcast, False, False, False, False);
     (case act of
        Return r (b, _) \<Rightarrow> Some (r, b)
      | Next (b, has_broadcast_tag, has_sender, has_recipient, has_content) \<Rightarrow>
          if \<not> has_broadcast_tag \<or> \<not> has_sender \<or> \<not> has_recipient \<or> \<not> has_content
          then Some (rcode RESP_ERROR_MALFORMED, b) else Some (0, b)) }"

definition build_p2p_broadcast_notification ::
  "message_t \<Rightarrow> p2p_broadcast_t \<Rightarrow> (int \<times> message_t) option" where
  "build_p2p_broadcast_notification response broadcast = build_p2p_broadcast response broadcast"

definition parse_p2p_broadcast_notification ::
  "message_t \<Rightarrow> p2p_broadcast_t \<Rightarrow> (int \<times> p2p_broadcast_t) option" where
  "parse_p2p_broadcast_notification msg broadcast = parse_p2p_broadcast msg broadcast"

section \<open>Specification of the parsers\<close>

definition world_limit :: "u8 \<Rightarrow> nat option" where
  "world_limit t =
     (if t = tag TAG_WORLD_BROADCAST then Some MAX_MSG_CONTENT_SIZE
      else if t = tag TAG_SENDER_USERNAME then Some MAX_USERNAME_SIZE
      else if t = tag TAG_MESSAGE_CONTENT then Some MAX_MSG_CONTENT_SIZE else None)"

fun world_assign ::
  "u8 \<Rightarrow> bytes \<Rightarrow> world_broadcast_t \<times> bool \<times> bool \<times> bool
     \<Rightarrow> world_broadcast_t \<times> bool \<times> bool \<times> bool" where
  "world_assign t v (b, w, s, c) =
     (if t = tag TAG_WORLD_BROADCAST then (b, True, s, c)
      else if t = tag TAG_SENDER_USERNAME then (b\<lparr>world_sender_username := v\<rparr>, w, True, c)
      else (b\<lparr>world_message_content := v\<rparr>, w, s, True))"

text \<open>What a world broadcast payload says: claimed sender and content.\<close>

definition world_of :: "bytes \<Rightarrow> (bytes \<times> bytes) option" where
  "world_of bs =
     (let (xs, complete) = split_tlvs bs in
      if complete \<and> within_limits world_limit xs
      then (case (last_value (tag TAG_WORLD_BROADCAST) xs, last_value (tag TAG_SENDER_USERNAME) xs,
                  last_value (tag TAG_MESSAGE_CONTENT) xs) of
              (Some _, Some s, Some c) \<Rightarrow> Some (s, c)
            | _ \<Rightarrow> None)
      else None)"

definition p2p_limit :: "u8 \<Rightarrow> nat option" where
  "p2p_limit t =
     (if t = tag TAG_P2P_BROADCAST then Some MAX_MSG_CONTENT_SIZE
      else if t = tag TAG_SENDER_USERNAME then Some MAX_USERNAME_SIZE
      else if t = tag TAG_RECIPIENT_USERNAME then Some MAX_USERNAME_SIZE
      else if t = tag TAG_MESSAGE_CONTENT then Some MAX_MSG_CONTENT_SIZE else None)"

fun p2p_assign ::
  "u8 \<Rightarrow> bytes \<Rightarrow> p2p_broadcast_t \<times> bool \<times> bool \<times> bool \<times> bool
     \<Rightarrow> p2p_broadcast_t \<times> bool \<times> bool \<times> bool \<times> bool" where
  "p2p_assign t v (b, w, s, r, c) =
     (if t = tag TAG_P2P_BROADCAST then (b, True, s, r, c)
      else if t = tag TAG_SENDER_USERNAME then (b\<lparr>p2p_sender_username := v\<rparr>, w, True, r, c)
      else if t = tag TAG_RECIPIENT_USERNAME then (b\<lparr>p2p_recipient_username := v\<rparr>, w, s, True, c)
      else (b\<lparr>p2p_message_content := v\<rparr>, w, s, r, True))"

text \<open>What a peer-to-peer payload says: claimed sender, recipient and content.\<close>

definition p2p_of :: "bytes \<Rightarrow> (bytes \<times> bytes \<times> bytes) option" where
  "p2p_of bs =
     (let (xs, complete) = split_tlvs bs in
      if complete \<and> within_limits p2p_limit xs
      then (case (last_value (tag TAG_P2P_BROADCAST) xs, last_value (tag TAG_SENDER_USERNAME) xs,
                  last_value (tag TAG_RECIPIENT_USERNAME) xs, last_value (tag TAG_MESSAGE_CONTENT) xs) of
              (Some _, Some s, Some r, Some c) \<Rightarrow> Some (s, r, c)
            | _ \<Rightarrow> None)
      else None)"

interpretation world_sw: tlv_fields world_switch world_limit world_assign
  by unfold_locales (auto simp: world_switch_def world_limit_def size_defs split: prod.split)

interpretation p2p_sw: tlv_fields p2p_switch p2p_limit p2p_assign
  by unfold_locales (auto simp: p2p_switch_def p2p_limit_def size_defs split: prod.split)

abbreviation field :: "tlv_tag_t \<Rightarrow> (u8 \<times> bytes) list \<Rightarrow> bytes \<Rightarrow> bytes" where
  "field t xs old \<equiv> (case last_value (tag t) xs of None \<Rightarrow> old | Some v \<Rightarrow> v)"

abbreviation sent :: "tlv_tag_t \<Rightarrow> (u8 \<times> bytes) list \<Rightarrow> bool" where
  "sent t xs \<equiv> last_value (tag t) xs \<noteq> None"

lemma world_assign_all:
  "assign_all world_limit world_assign xs (b, w, s, c) =
     (\<lparr>world_sender_username = field TAG_SENDER_USERNAME xs (world_sender_username b),
       world_message_content = field TAG_MESSAGE_CONTENT xs (world_message_content b)\<rparr>,
      w \<or> sent TAG_WORLD_BROADCAST xs, s \<or> sent TAG_SENDER_USERNAME xs,
      c \<or> sent TAG_MESSAGE_CONTENT xs)"
  by (induction xs arbitrary: b w s c) (auto simp: world_limit_def split: option.splits)

lemma p2p_assign_all:
  "assign_all p2p_limit p2p_assign xs (b, w, s, r, c) =
     (\<lparr>p2p_sender_username = field TAG_SENDER_USERNAME xs (p2p_sender_username b),
       p2p_recipient_username = field TAG_RECIPIENT_USERNAME xs (p2p_recipient_username b),
       p2p_message_content = field TAG_MESSAGE_CONTENT xs (p2p_message_content b)\<rparr>,
      w \<or> sent TAG_P2P_BROADCAST xs, s \<or> sent TAG_SENDER_USERNAME xs,
      r \<or> sent TAG_RECIPIENT_USERNAME xs, c \<or> sent TAG_MESSAGE_CONTENT xs)"
  by (induction xs arbitrary: b w s r c) (auto simp: p2p_limit_def split: option.splits)

lemma parse_world_broadcast_spec:
  assumes "payload_inside m"
  shows "case world_of (msg_payload m) of
      Some (s, c) \<Rightarrow> parse_world_broadcast m b =
        Some (0, \<lparr>world_sender_username = s, world_message_content = c\<rparr>)
    | None \<Rightarrow> \<exists>b'. parse_world_broadcast m b = Some (rcode RESP_ERROR_MALFORMED, b')"
proof -
  obtain xs complete where sp: "split_tlvs (msg_payload m) = (xs, complete)" by (rule prod.exhaust)
  let ?run = "tlv_loop world_switch (payload_mem m) 0 (unat (payload_length m)) (b, False, False, False)"
  note loop = world_sw.loop_fields [of 0 "unat (payload_length m)" "payload_mem m" xs complete
      "(b, False, False, False)"]
  show ?thesis
  proof (cases "complete \<and> within_limits world_limit xs")
    case True
    with loop(1) assms sp
    have "?run = Some (Next (assign_all world_limit world_assign xs (b, False, False, False)))"
      by (simp add: payload_inside_def msg_payload_def)
    with True sp show ?thesis
      by (simp add: parse_world_broadcast_def world_assign_all world_of_def split: option.split)
  next
    case False
    with loop(2) assms sp obtain s' where "?run = Some (Return (rcode RESP_ERROR_MALFORMED) s')"
      by (auto simp: payload_inside_def msg_payload_def)
    with False sp show ?thesis
      by (auto simp: parse_world_broadcast_def world_of_def split: prod.split)
  qed
qed

lemma parse_p2p_broadcast_spec:
  assumes "payload_inside m"
  shows "case p2p_of (msg_payload m) of
      Some (s, r, c) \<Rightarrow> parse_p2p_broadcast m b = Some (0,
        \<lparr>p2p_sender_username = s, p2p_recipient_username = r, p2p_message_content = c\<rparr>)
    | None \<Rightarrow> \<exists>b'. parse_p2p_broadcast m b = Some (rcode RESP_ERROR_MALFORMED, b')"
proof -
  obtain xs complete where sp: "split_tlvs (msg_payload m) = (xs, complete)" by (rule prod.exhaust)
  let ?run = "tlv_loop p2p_switch (payload_mem m) 0 (unat (payload_length m)) (b, False, False, False, False)"
  note loop = p2p_sw.loop_fields [of 0 "unat (payload_length m)" "payload_mem m" xs complete
      "(b, False, False, False, False)"]
  show ?thesis
  proof (cases "complete \<and> within_limits p2p_limit xs")
    case True
    with loop(1) assms sp
    have "?run = Some (Next (assign_all p2p_limit p2p_assign xs (b, False, False, False, False)))"
      by (simp add: payload_inside_def msg_payload_def)
    with True sp show ?thesis
      by (simp add: parse_p2p_broadcast_def p2p_assign_all p2p_of_def split: option.split)
  next
    case False
    with loop(2) assms sp obtain s' where "?run = Some (Return (rcode RESP_ERROR_MALFORMED) s')"
      by (auto simp: payload_inside_def msg_payload_def)
    with False sp show ?thesis
      by (cases s') (auto simp: parse_p2p_broadcast_def p2p_of_def)
  qed
qed

section \<open>Specification of the builders\<close>

definition world_tlvs :: "world_broadcast_t \<Rightarrow> (u8 \<times> bytes) list" where
  "world_tlvs b = string_tlvs [(TAG_WORLD_BROADCAST, []),
     (TAG_SENDER_USERNAME, world_sender_username b), (TAG_MESSAGE_CONTENT, world_message_content b)]"

definition p2p_tlvs :: "p2p_broadcast_t \<Rightarrow> (u8 \<times> bytes) list" where
  "p2p_tlvs b = string_tlvs [(TAG_P2P_BROADCAST, []), (TAG_SENDER_USERNAME, p2p_sender_username b),
     (TAG_RECIPIENT_USERNAME, p2p_recipient_username b), (TAG_MESSAGE_CONTENT, p2p_message_content b)]"

lemma chat_tlvs_short:
  "length (encode_tlvs (world_tlvs w)) \<le> MSG_MAX_PAYLOAD_SIZE"
  "length (encode_tlvs (p2p_tlvs b)) \<le> MSG_MAX_PAYLOAD_SIZE"
  using length_u8_trunc_le [of "world_sender_username w"] length_u8_trunc_le [of "world_message_content w"]
    length_u8_trunc_le [of "p2p_sender_username b"] length_u8_trunc_le [of "p2p_recipient_username b"]
    length_u8_trunc_le [of "p2p_message_content b"]
  by (simp_all add: world_tlvs_def p2p_tlvs_def MSG_MAX_PAYLOAD_SIZE_def)

lemma chat_tlvs_split:
  "split_tlvs (encode_tlvs (world_tlvs w)) = (world_tlvs w, True)"
  "split_tlvs (encode_tlvs (p2p_tlvs b)) = (p2p_tlvs b, True)"
  by (rule split_encode_tlvs, simp add: world_tlvs_def p2p_tlvs_def length_u8_trunc_le)+

lemma world_of_encode:
  assumes "length (world_sender_username b) \<le> MAX_USERNAME_SIZE"
    and "length (world_message_content b) \<le> MAX_MSG_CONTENT_SIZE"
  shows "world_of (encode_tlvs (world_tlvs b)) = Some (world_sender_username b, world_message_content b)"
  using assms by (simp add: world_of_def chat_tlvs_split)
    (simp add: world_tlvs_def within_limits_def world_limit_def size_defs)

lemma p2p_of_encode:
  assumes "length (p2p_sender_username b) \<le> MAX_USERNAME_SIZE"
    and "length (p2p_recipient_username b) \<le> MAX_USERNAME_SIZE"
    and "length (p2p_message_content b) \<le> MAX_MSG_CONTENT_SIZE"
  shows "p2p_of (encode_tlvs (p2p_tlvs b)) =
    Some (p2p_sender_username b, p2p_recipient_username b, p2p_message_content b)"
  using assms by (simp add: p2p_of_def chat_tlvs_split)
    (simp add: p2p_tlvs_def within_limits_def p2p_limit_def size_defs)

lemma overwrite_frame_last:
  assumes "7 + length pl \<le> length buf" and "length pl \<le> MSG_MAX_PAYLOAD_SIZE"
  shows "overwrite (overwrite (overwrite buf 7 pl) 0 [v, t, r]) 3 (be_bytes (u32_cast (length pl)))
    = overwrite buf 0 (encode_frame \<lparr>f_version = v, f_type = t, f_rc = r, f_payload = pl\<rparr>)"
proof -
  let ?len = "be_bytes (u32_cast (length pl))"
  have "overwrite (overwrite (overwrite buf 7 pl) 0 [v, t, r]) 3 ?len
      = overwrite (overwrite buf 7 pl) 0 ([v, t, r] @ ?len)"
    using assms by (intro overwrite_right) simp_all
  also have "\<dots> = overwrite buf 0 (([v, t, r] @ ?len) @ pl)"
    using assms by (intro overwrite_left) simp_all
  finally show ?thesis by (simp add: encode_frame_def)
qed

text \<open>The writes both builders of a kind make, at offset 7 of a request or 0 of a payload.\<close>

lemma world_writes:
  fixes w :: world_broadcast_t
  assumes "q + MSG_MAX_PAYLOAD_SIZE \<le> length b"
  defines "pl \<equiv> encode_tlvs (world_tlvs w)"
  obtains b1 p1 b2 p2 where
    "write_tlv b q TAG_WORLD_BROADCAST 0 [] False = Some (b1, p1)"
    "write_tlv b1 p1 TAG_SENDER_USERNAME (u8_cast (length (world_sender_username w)))
      (world_sender_username w) False = Some (b2, p2)"
    "write_tlv b2 p2 TAG_MESSAGE_CONTENT (u8_cast (length (world_message_content w)))
      (world_message_content w) False = Some (overwrite b q pl, q + length pl)"
    "q + length pl \<le> length b"
proof -
  have fits: "q + length pl \<le> length b" using assms(1) chat_tlvs_short(1) [of w] by (simp add: pl_def)
  then have "write_strings b q [(TAG_WORLD_BROADCAST, []), (TAG_SENDER_USERNAME, world_sender_username w),
      (TAG_MESSAGE_CONTENT, world_message_content w)] = Some (overwrite b q pl, q + length pl)"
    unfolding pl_def world_tlvs_def by (intro write_strings_spec)
  then show ?thesis using fits that by (auto simp: bind_eq_Some_conv)
qed

lemma p2p_writes:
  fixes w :: p2p_broadcast_t
  assumes "q + MSG_MAX_PAYLOAD_SIZE \<le> length b"
  defines "pl \<equiv> encode_tlvs (p2p_tlvs w)"
  obtains b1 p1 b2 p2 b3 p3 where
    "write_tlv b q TAG_P2P_BROADCAST 0 [] False = Some (b1, p1)"
    "write_tlv b1 p1 TAG_SENDER_USERNAME (u8_cast (length (p2p_sender_username w)))
      (p2p_sender_username w) False = Some (b2, p2)"
    "write_tlv b2 p2 TAG_RECIPIENT_USERNAME (u8_cast (length (p2p_recipient_username w)))
      (p2p_recipient_username w) False = Some (b3, p3)"
    "write_tlv b3 p3 TAG_MESSAGE_CONTENT (u8_cast (length (p2p_message_content w)))
      (p2p_message_content w) False = Some (overwrite b q pl, q + length pl)"
    "q + length pl \<le> length b"
proof -
  have fits: "q + length pl \<le> length b" using assms(1) chat_tlvs_short(2) [of w] by (simp add: pl_def)
  then have "write_strings b q [(TAG_P2P_BROADCAST, []), (TAG_SENDER_USERNAME, p2p_sender_username w),
      (TAG_RECIPIENT_USERNAME, p2p_recipient_username w), (TAG_MESSAGE_CONTENT, p2p_message_content w)]
      = Some (overwrite b q pl, q + length pl)"
    unfolding pl_def p2p_tlvs_def by (intro write_strings_spec)
  then show ?thesis using fits that by (auto simp: bind_eq_Some_conv)
qed

lemma build_world_broadcast_request_frame:
  assumes "length (world_sender_username w) \<le> MAX_USERNAME_SIZE"
    and "length (world_message_content w) \<le> MAX_MSG_CONTENT_SIZE"
    and "MSG_HEADER_SIZE + MSG_MAX_PAYLOAD_SIZE \<le> length buf"
  defines "f \<equiv> request_frame CHAT (world_tlvs w)"
  shows "build_world_broadcast_request buf w n =
    Some (0, overwrite buf 0 (encode_frame f), u32_cast (length (encode_frame f)))"
proof -
  let ?pl = "encode_tlvs (world_tlvs w)"
  have f: "encode_frame f = encode_frame \<lparr>f_version = 1, f_type = 2, f_rc = 0, f_payload = ?pl\<rparr>"
    "length (encode_frame f) = 7 + length ?pl"
    by (simp_all add: f_def request_frame_def length_encode_frame)
  have q: "7 + MSG_MAX_PAYLOAD_SIZE \<le> length buf"
    using assms(3) by (simp add: MSG_HEADER_SIZE_def)
  obtain b1 p1 b2 p2 where wr:
    "write_tlv buf 7 TAG_WORLD_BROADCAST 0 [] False = Some (b1, p1)"
    "write_tlv b1 p1 TAG_SENDER_USERNAME (u8_cast (length (world_sender_username w)))
      (world_sender_username w) False = Some (b2, p2)"
    "write_tlv b2 p2 TAG_MESSAGE_CONTENT (u8_cast (length (world_message_content w)))
      (world_message_content w) False = Some (overwrite buf 7 ?pl, 7 + length ?pl)"
    "7 + length ?pl \<le> length buf"
    by (rule world_writes [OF q])
  show ?thesis
    using assms(1,2) wr wr(1) [folded MSG_HEADER_SIZE_def] overwrite_frame_last [OF wr(4) chat_tlvs_short(1), of 1 2 0] chat_tlvs_short(1) [of w]
    by (simp add: build_world_broadcast_request_def mem_write_in f length_encode_frame Let_def payload_len_word
        payload_len_fits del: of_nat_add)
qed

lemma build_p2p_broadcast_request_frame:
  assumes "length (p2p_sender_username w) \<le> MAX_USERNAME_SIZE"
    and "length (p2p_recipient_username w) \<le> MAX_USERNAME_SIZE"
    and "length (p2p_message_content w) \<le> MAX_MSG_CONTENT_SIZE"
    and "p2p_sender_username w \<noteq> p2p_recipient_username w"
    and "MSG_HEADER_SIZE + MSG_MAX_PAYLOAD_SIZE \<le> length buf"
  defines "f \<equiv> request_frame CHAT (p2p_tlvs w)"
  shows "build_p2p_broadcast_request buf w n =
    Some (0, overwrite buf 0 (encode_frame f), u32_cast (length (encode_frame f)))"
proof -
  let ?pl = "encode_tlvs (p2p_tlvs w)"
  have f: "encode_frame f = encode_frame \<lparr>f_version = 1, f_type = 2, f_rc = 0, f_payload = ?pl\<rparr>"
    "length (encode_frame f) = 7 + length ?pl"
    by (simp_all add: f_def request_frame_def length_encode_frame)
  have q: "7 + MSG_MAX_PAYLOAD_SIZE \<le> length buf"
    using assms(5) by (simp add: MSG_HEADER_SIZE_def)
  obtain b1 p1 b2 p2 b3 p3 where wr:
    "write_tlv buf 7 TAG_P2P_BROADCAST 0 [] False = Some (b1, p1)"
    "write_tlv b1 p1 TAG_SENDER_USERNAME (u8_cast (length (p2p_sender_username w)))
      (p2p_sender_username w) False = Some (b2, p2)"
    "write_tlv b2 p2 TAG_RECIPIENT_USERNAME (u8_cast (length (p2p_recipient_username w)))
      (p2p_recipient_username w) False = Some (b3, p3)"
    "write_tlv b3 p3 TAG_MESSAGE_CONTENT (u8_cast (length (p2p_message_content w)))
      (p2p_message_content w) False = Some (overwrite buf 7 ?pl, 7 + length ?pl)"
    "7 + length ?pl \<le> length buf"
    by (rule p2p_writes [OF q])
  show ?thesis
    using assms(1-4) wr wr(1) [folded MSG_HEADER_SIZE_def] overwrite_frame_last [OF wr(5) chat_tlvs_short(2), of 1 2 0] chat_tlvs_short(2) [of w]
    by (simp add: build_p2p_broadcast_request_def mem_write_in f length_encode_frame Let_def payload_len_word
        payload_len_fits del: of_nat_add)
qed

text \<open>
  The server's builders cannot fail on a buffer of \<open>MSG_MAX_PAYLOAD_SIZE\<close> bytes, whatever the
  lengths of the names and the content: the \<open>uint8_t\<close> casts bound every value.
\<close>

lemma build_world_broadcast_frame:
  assumes "payload r = Some b" "MSG_MAX_PAYLOAD_SIZE \<le> length b"
  shows "\<exists>m. build_world_broadcast r w = Some (0, m) \<and> message_ok m \<and>
    message_frame m = request_frame CHAT (world_tlvs w)"
proof -
  let ?pl = "encode_tlvs (world_tlvs w)"
  have q: "0 + MSG_MAX_PAYLOAD_SIZE \<le> length b" using assms(2) by simp
  obtain b1 p1 b2 p2 where wr:
    "write_tlv b 0 TAG_WORLD_BROADCAST 0 [] False = Some (b1, p1)"
    "write_tlv b1 p1 TAG_SENDER_USERNAME (u8_cast (length (world_sender_username w)))
      (world_sender_username w) False = Some (b2, p2)"
    "write_tlv b2 p2 TAG_MESSAGE_CONTENT (u8_cast (length (world_message_content w)))
      (world_message_content w) False = Some (overwrite b 0 ?pl, 0 + length ?pl)"
    "0 + length ?pl \<le> length b"
    by (rule world_writes [OF q])
  have len: "unat (u32_cast (length ?pl)) = length ?pl"
    using chat_tlvs_short(1) [of w] by (simp add: size_defs)
  show ?thesis
    using assms(1) wr len chat_tlvs_short(1) [of w] payload_len_fits [OF chat_tlvs_short(1)]
    by (simp add: build_world_broadcast_def message_ok_def message_frame_def request_frame_def)
qed

lemma build_p2p_broadcast_frame:
  assumes "payload r = Some b" "MSG_MAX_PAYLOAD_SIZE \<le> length b"
    and "p2p_sender_username w \<noteq> p2p_recipient_username w"
  shows "\<exists>m. build_p2p_broadcast r w = Some (0, m) \<and> message_ok m \<and>
    message_frame m = request_frame CHAT (p2p_tlvs w)"
proof -
  let ?pl = "encode_tlvs (p2p_tlvs w)"
  have q: "0 + MSG_MAX_PAYLOAD_SIZE \<le> length b" using assms(2) by simp
  obtain b1 p1 b2 p2 b3 p3 where wr:
    "write_tlv b 0 TAG_P2P_BROADCAST 0 [] False = Some (b1, p1)"
    "write_tlv b1 p1 TAG_SENDER_USERNAME (u8_cast (length (p2p_sender_username w)))
      (p2p_sender_username w) False = Some (b2, p2)"
    "write_tlv b2 p2 TAG_RECIPIENT_USERNAME (u8_cast (length (p2p_recipient_username w)))
      (p2p_recipient_username w) False = Some (b3, p3)"
    "write_tlv b3 p3 TAG_MESSAGE_CONTENT (u8_cast (length (p2p_message_content w)))
      (p2p_message_content w) False = Some (overwrite b 0 ?pl, 0 + length ?pl)"
    "0 + length ?pl \<le> length b"
    by (rule p2p_writes [OF q])
  have len: "unat (u32_cast (length ?pl)) = length ?pl"
    using chat_tlvs_short(2) [of w] by (simp add: size_defs)
  show ?thesis
    using assms(1,3) wr len chat_tlvs_short(2) [of w] payload_len_fits [OF chat_tlvs_short(2)]
    by (simp add: build_p2p_broadcast_def message_ok_def message_frame_def request_frame_def)
qed

end
