(* ===== verification/Broadcast.thy ===== *)
theory Broadcast
  imports Auth_Service Chat_Protocol
begin

text \<open>
  \<open>handle_broadcast_message\<close> of \<open>src/server_utils.cpp\<close>: the world broadcast that copies one frame
  into the outgoing buffer of every other authenticated connection, and the peer-to-peer
  message that searches the table for its recipient. Both are shown to refine a verdict, whose
  effect on the table is one simultaneous delivery.
\<close>

text \<open>The loop of the world broadcast from index \<open>i\<close> on.\<close>

function world_fanout :: "nat \<Rightarrow> bytes \<Rightarrow> nat \<Rightarrow> 'db server \<Rightarrow> 'db server option" where
  "world_fanout connfd serialized_response i st =
     (if i < get_size st then do {
        f \<leftarrow> at (flags st) i;
        if \<not> (has_flag f IS_AUTH \<and> i \<noteq> connfd) then world_fanout connfd serialized_response (i + 1) st
        else do {
          out \<leftarrow> at (outgoing_buffers st) i;
          outs \<leftarrow> put (outgoing_buffers st) i (out @ serialized_response);
          st \<leftarrow> set_connection_state i WRITING (st\<lparr>outgoing_buffers := outs\<rparr>);
          world_fanout connfd serialized_response (i + 1) st } }
      else Some st)"
  by pat_completeness auto
termination
  by (relation "measure (\<lambda>(fd, ser, i, st). get_size st - i)")
    (auto simp: set_connection_state_Some table_simps, simp add: get_size_def)

text \<open>The search for the recipient from index \<open>i\<close> on; \<open>-1\<close> when there is none.\<close>

function find_recipient :: "nat \<Rightarrow> bytes \<Rightarrow> nat \<Rightarrow> 'db server \<Rightarrow> int option" where
  "find_recipient connfd recipient_username i st =
     (if i < get_size st then do {
        f \<leftarrow> at (flags st) i;
        if \<not> (has_flag f IS_AUTH \<and> i \<noteq> connfd) then find_recipient connfd recipient_username (i + 1) st
        else do {
          name \<leftarrow> at (usernames st) i;
          if name = recipient_username then Some (int i)
          else find_recipient connfd recipient_username (i + 1) st } }
      else Some (-1))"
  by pat_completeness auto
termination
  by (relation "measure (\<lambda>(fd, name, i, st). get_size st - i)") auto

declare world_fanout.simps [simp del] find_recipient.simps [simp del]

definition world_zero :: world_broadcast_t where
  "world_zero = \<lparr>world_sender_username = [], world_message_content = []\<rparr>"

definition p2p_zero :: p2p_broadcast_t where
  "p2p_zero = \<lparr>p2p_sender_username = [], p2p_recipient_username = [], p2p_message_content = []\<rparr>"

text \<open>The two cases of the \<open>switch (broadcast_tag)\<close>.\<close>

definition world_broadcast_case ::
  "nat \<Rightarrow> message_t \<Rightarrow> message_t \<Rightarrow> 'db server \<Rightarrow> (int \<times> message_t \<times> 'db server) option" where
  "world_broadcast_case connfd request response st = do {
     (ret, broadcast) \<leftarrow> parse_world_broadcast request world_zero;
     if ret \<noteq> 0 then Some (ret, build_server_response (mtype CHAT) ret None 0, st)
     else if world_message_content broadcast = [] then
       Some (rcode RESP_ERROR_MALFORMED,
         build_server_response (mtype CHAT) (rcode RESP_ERROR_MALFORMED) None 0, st)
     else do {
       name \<leftarrow> at (usernames st) connfd;
       let broadcast = broadcast\<lparr>world_sender_username := name\<rparr>;
       (ret, response) \<leftarrow> build_world_broadcast_notification response broadcast;
       if ret \<noteq> 0 then Some (ret, build_server_response (mtype CHAT) ret None 0, st)
       else do {
         serialized_response \<leftarrow> write_message_to_buffer [] response;
         st \<leftarrow> world_fanout connfd serialized_response 0 st;
         Some (rcode RESP_OK, response, st) } } }"

definition p2p_broadcast_case ::
  "nat \<Rightarrow> message_t \<Rightarrow> message_t \<Rightarrow> 'db server \<Rightarrow> (int \<times> message_t \<times> 'db server) option" where
  "p2p_broadcast_case connfd request response st = do {
     (ret, broadcast) \<leftarrow> parse_p2p_broadcast request p2p_zero;
     if ret \<noteq> 0 then Some (ret, build_server_response (mtype CHAT) ret None 0, st)
     else if p2p_message_content broadcast = [] then
       Some (rcode RESP_ERROR_MALFORMED,
         build_server_response (mtype CHAT) (rcode RESP_ERROR_MALFORMED) None 0, st)
     else do {
       name \<leftarrow> at (usernames st) connfd;
       let broadcast = broadcast\<lparr>p2p_sender_username := name\<rparr>;
       if p2p_sender_username broadcast = p2p_recipient_username broadcast then
         Some (rcode RESP_ERROR_MALFORMED,
           build_server_response (mtype CHAT) (rcode RESP_ERROR_MALFORMED) None 0, st)
       else do {
         (ret, response) \<leftarrow> build_p2p_broadcast_notification response broadcast;
         if ret \<noteq> 0 then Some (ret, build_server_response (mtype CHAT) ret None 0, st)
         else do {
           recipient_conn_fd \<leftarrow> find_recipient connfd (p2p_recipient_username broadcast) 0 st;
           if recipient_conn_fd = -1 then
             Some (rcode RESP_ERROR_USER_NOT_FOUND,
               build_server_response (mtype CHAT) (rcode RESP_ERROR_USER_NOT_FOUND) None 0, st)
           else do {
             serialized_response \<leftarrow> write_message_to_buffer [] response;
             out \<leftarrow> at (outgoing_buffers st) (nat recipient_conn_fd);
             outs \<leftarrow> put (outgoing_buffers st) (nat recipient_conn_fd) (out @ serialized_response);
             st \<leftarrow> set_connection_state (nat recipient_conn_fd) WRITING
               (st\<lparr>outgoing_buffers := outs\<rparr>);
             Some (rcode RESP_OK, response, st) } } } } }"

definition handle_broadcast_message ::
  "nat \<Rightarrow> message_t \<Rightarrow> message_t \<Rightarrow> 'db server \<Rightarrow> (int \<times> message_t \<times> 'db server) option" where
  "handle_broadcast_message connfd request response st = do {
     f \<leftarrow> at (flags st) connfd;
     if \<not> has_flag f IS_AUTH then
       Some (rcode RESP_ERROR_INVALID_CREDENTIALS,
         build_server_response (mtype CHAT) (rcode RESP_ERROR_INVALID_CREDENTIALS) None 0, st)
     else do {
       broadcast_tag \<leftarrow> peek_broadcast_type request;
       if broadcast_tag = tag TAG_WORLD_BROADCAST then world_broadcast_case connfd request response st
       else if broadcast_tag = tag TAG_P2P_BROADCAST then p2p_broadcast_case connfd request response st
       else Some (rcode RESP_ERROR_MALFORMED,
         build_server_response (mtype CHAT) (rcode RESP_ERROR_MALFORMED) None 0, st) } }"

section \<open>Specification: a verdict and one delivery\<close>

text \<open>
  \<open>deliver to bs st\<close>: the connections \<open>to\<close> selects get \<open>bs\<close> at the end of their outgoing buffers
  and are put into the writing state, all at once.
\<close>

definition deliver :: "(nat \<Rightarrow> bool) \<Rightarrow> bytes \<Rightarrow> 'db server \<Rightarrow> 'db server" where
  "deliver to bs st = st\<lparr>
     outgoing_buffers := map (\<lambda>j. outgoing_buffers st ! j @ (if to j then bs else [])) [0..<get_size st],
     flags := map (\<lambda>j. if to j then state_flags WRITING (flags st ! j) else flags st ! j) [0..<get_size st],
     epoll := (\<lambda>j. if to j \<and> epoll st j \<noteq> None then Some EPOLLOUT_ET else epoll st j)\<rparr>"

definition other_authenticated :: "nat \<Rightarrow> 'db server \<Rightarrow> nat \<Rightarrow> bool" where
  "other_authenticated fd st j \<longleftrightarrow> j < get_size st \<and> has_flag (flags st ! j) IS_AUTH \<and> j \<noteq> fd"

definition recipient_of :: "nat \<Rightarrow> bytes \<Rightarrow> 'db server \<Rightarrow> nat option" where
  "recipient_of fd name st =
     find (\<lambda>j. other_authenticated fd st j \<and> usernames st ! j = name) [0..<get_size st]"

definition broadcast_verdict ::
  "nat \<Rightarrow> bytes \<Rightarrow> 'db server \<Rightarrow> response_code_t + frame \<times> (nat \<Rightarrow> bool)" where
  "broadcast_verdict fd bs st =
     (if \<not> has_flag (flags st ! fd) IS_AUTH then Inl RESP_ERROR_INVALID_CREDENTIALS
      else case bs of
        [] \<Rightarrow> Inl RESP_ERROR_MALFORMED
      | t # _ \<Rightarrow>
          if t = tag TAG_WORLD_BROADCAST then
            (case world_of bs of
               None \<Rightarrow> Inl RESP_ERROR_MALFORMED
             | Some (_, content) \<Rightarrow>
                 if content = [] then Inl RESP_ERROR_MALFORMED
                 else Inr (request_frame CHAT (world_tlvs \<lparr>world_sender_username = usernames st ! fd,
                        world_message_content = content\<rparr>), other_authenticated fd st))
          else if t = tag TAG_P2P_BROADCAST then
            (case p2p_of bs of
               None \<Rightarrow> Inl RESP_ERROR_MALFORMED
             | Some (_, recipient, content) \<Rightarrow>
                 if content = [] \<or> usernames st ! fd = recipient then Inl RESP_ERROR_MALFORMED
                 else (case recipient_of fd recipient st of
                    None \<Rightarrow> Inl RESP_ERROR_USER_NOT_FOUND
                  | Some j \<Rightarrow> Inr (request_frame CHAT (p2p_tlvs
                        \<lparr>p2p_sender_username = usernames st ! fd, p2p_recipient_username = recipient,
                         p2p_message_content = content\<rparr>), (\<lambda>i. i = j))))
          else Inl RESP_ERROR_MALFORMED)"

definition broadcast_frame :: "response_code_t + frame \<times> (nat \<Rightarrow> bool) \<Rightarrow> frame" where
  "broadcast_frame v = (case v of Inl e \<Rightarrow> error_frame (mtype CHAT) e | Inr (f, _) \<Rightarrow> f)"

definition broadcast_effect ::
  "response_code_t + frame \<times> (nat \<Rightarrow> bool) \<Rightarrow> 'db server \<Rightarrow> 'db server" where
  "broadcast_effect v st =
     (case v of Inl _ \<Rightarrow> st | Inr (f, to) \<Rightarrow> deliver to (encode_frame f) st)"

section \<open>The loops\<close>

lemma deliver_fields [table_simps]:
  "get_size (deliver to bs st) = get_size st"
  "incoming_buffers (deliver to bs st) = incoming_buffers st"
  "user_ids (deliver to bs st) = user_ids st"
  "usernames (deliver to bs st) = usernames st"
  "wire (deliver to bs st) = wire st"
  "db (deliver to bs st) = db st"
  "length (outgoing_buffers (deliver to bs st)) = get_size st"
  by (simp_all add: deliver_def get_size_def)

lemma deliver_nth [table_simps]:
  assumes "j < get_size st"
  shows "outgoing_buffers (deliver to bs st) ! j = outgoing_buffers st ! j @ (if to j then bs else [])"
    and "flags (deliver to bs st) ! j =
      (if to j then state_flags WRITING (flags st ! j) else flags st ! j)"
  using assms by (simp_all add: deliver_def)

lemma deliver_auth [table_simps]:
  "j < get_size st \<Longrightarrow> has_flag (flags (deliver to bs st) ! j) IS_AUTH \<longleftrightarrow> has_flag (flags st ! j) IS_AUTH"
  "j < get_size st \<Longrightarrow> has_flag (flags (deliver to bs st) ! j) IS_ACTIVE \<longleftrightarrow> has_flag (flags st ! j) IS_ACTIVE"
  by (simp_all add: deliver_nth state_flags_keep del: state_flags.simps)

lemma deliver_none: "same_sizes st \<Longrightarrow> deliver (\<lambda>_. False) bs st = st"
  using map_nth [of "outgoing_buffers st"] map_nth [of "flags st"]
  by (simp add: deliver_def same_sizes_def get_size_def)

lemma deliver_one:
  assumes "same_sizes st" "i < get_size st"
  shows "set_connection_state i WRITING
      (st\<lparr>outgoing_buffers := (outgoing_buffers st)[i := outgoing_buffers st ! i @ bs]\<rparr>)
    = Some (deliver (\<lambda>j. j = i) bs st)"
proof -
  have out: "(outgoing_buffers st)[i := outgoing_buffers st ! i @ bs]
      = map (\<lambda>j. outgoing_buffers st ! j @ (if j = i then bs else [])) [0..<get_size st]"
    using assms by (intro nth_equalityI) (auto simp: same_sizes_def nth_list_update)
  have fl: "(flags st)[i := state_flags WRITING (flags st ! i)]
      = map (\<lambda>j. if j = i then state_flags WRITING (flags st ! j) else flags st ! j) [0..<get_size st]"
    by (intro nth_equalityI) (auto simp: get_size_def nth_list_update)
  have ep: "epoll_mod i EPOLLOUT_ET (epoll st)
      = (\<lambda>j. if j = i \<and> epoll st j \<noteq> None then Some EPOLLOUT_ET else epoll st j)"
    by (auto simp: epoll_mod_def fun_eq_iff)
  show ?thesis
    using assms(2) out fl ep
    by (simp add: set_connection_state_Some mark_def deliver_def get_size_def del: state_flags.simps)
qed

lemma deliver_more:
  assumes "\<And>j. \<not> (p j \<and> q j)"
  shows "deliver q bs (deliver p bs st) = deliver (\<lambda>j. p j \<or> q j) bs st"
proof -
  have "map (\<lambda>j. outgoing_buffers (deliver p bs st) ! j @ (if q j then bs else [])) [0..<get_size st]
      = map (\<lambda>j. outgoing_buffers st ! j @ (if p j \<or> q j then bs else [])) [0..<get_size st]"
    using assms by (auto simp: deliver_nth)
  moreover have "map (\<lambda>j. if q j then state_flags WRITING (flags (deliver p bs st) ! j)
        else flags (deliver p bs st) ! j) [0..<get_size st]
      = map (\<lambda>j. if p j \<or> q j then state_flags WRITING (flags st ! j) else flags st ! j) [0..<get_size st]"
    using assms by (auto simp: deliver_nth simp del: state_flags.simps)
  ultimately show ?thesis
    by (simp add: deliver_def [of q] table_simps del: state_flags.simps) (auto simp: deliver_def fun_eq_iff)
qed

lemma same_sizes_deliver [simp]: "same_sizes st \<Longrightarrow> same_sizes (deliver to bs st)"
  by (simp add: same_sizes_def table_simps)

lemma world_fanout_deliver:
  assumes "same_sizes st"
  shows "world_fanout fd bs i st = Some (deliver (\<lambda>j. i \<le> j \<and> other_authenticated fd st j) bs st)"
  using assms
proof (induction "get_size st - i" arbitrary: i st)
  case 0
  then have "(\<lambda>j. i \<le> j \<and> other_authenticated fd st j) = (\<lambda>_. False)"
    by (auto simp: other_authenticated_def)
  with 0 show ?case by (simp add: world_fanout.simps [of fd bs i st] deliver_none)
next
  case (Suc n)
  then have i: "i < get_size st" and n: "n = get_size st - Suc i" by simp_all
  show ?case
  proof (cases "has_flag (flags st ! i) IS_AUTH \<and> i \<noteq> fd")
    case False
    then have "(\<lambda>j. i \<le> j \<and> other_authenticated fd st j) = (\<lambda>j. Suc i \<le> j \<and> other_authenticated fd st j)"
      by (auto simp: other_authenticated_def fun_eq_iff le_eq_less_or_eq)
    with False i Suc.hyps(1) [OF n] Suc.prems show ?thesis
      by (simp add: world_fanout.simps [of fd bs i st] at_in get_size_def)
  next
    case True
    let ?s = "deliver (\<lambda>j. j = i) bs st"
    have "world_fanout fd bs i st = world_fanout fd bs (Suc i) ?s"
      using True i Suc.prems deliver_one [OF Suc.prems i, of bs]
      by (simp add: world_fanout.simps [of fd bs i st] at_in put_in get_size_def same_sizes_def)
    also have "\<dots> = Some (deliver (\<lambda>j. Suc i \<le> j \<and> other_authenticated fd ?s j) bs ?s)"
      using Suc.hyps(1) [of ?s "Suc i"] n Suc.prems by (simp add: table_simps)
    also have "(\<lambda>j. Suc i \<le> j \<and> other_authenticated fd ?s j) =
        (\<lambda>j. Suc i \<le> j \<and> other_authenticated fd st j)"
      by (auto simp: other_authenticated_def table_simps fun_eq_iff)
    also have "deliver \<dots> bs ?s = deliver (\<lambda>j. j = i \<or> (Suc i \<le> j \<and> other_authenticated fd st j)) bs st"
      by (rule deliver_more) auto
    also have "(\<lambda>j. j = i \<or> (Suc i \<le> j \<and> other_authenticated fd st j)) =
        (\<lambda>j. i \<le> j \<and> other_authenticated fd st j)"
      using True i by (auto simp: other_authenticated_def fun_eq_iff)
    finally show ?thesis .
  qed
qed

lemma find_recipient_find:
  assumes "same_sizes st"
  shows "find_recipient fd name i st =
    Some (case find (\<lambda>j. other_authenticated fd st j \<and> usernames st ! j = name) [i..<get_size st] of
            None \<Rightarrow> -1 | Some j \<Rightarrow> int j)"
  using assms
proof (induction fd name i st rule: find_recipient.induct)
  case (1 fd name i st)
  show ?case
  proof (cases "i < get_size st")
    case True
    then have "at (flags st) i = Some (flags st ! i)" "at (usernames st) i = Some (usernames st ! i)"
      "[i..<get_size st] = i # [Suc i..<get_size st]"
      using "1.prems" by (simp_all add: at_in get_size_def same_sizes_def upt_conv_Cons)
    with True "1.IH" "1.prems" show ?thesis
      by (simp add: find_recipient.simps [of fd name i st] other_authenticated_def)
  qed (simp add: find_recipient.simps [of fd name i st])
qed

lemma recipient_of_Some:
  "recipient_of fd name st = Some j \<Longrightarrow> other_authenticated fd st j \<and> usernames st ! j = name"
  unfolding recipient_of_def by (drule find_member) auto

text \<open>What the handler finds and where it appends.\<close>

lemma p2p_recipient:
  assumes "same_sizes st"
  shows "recipient_of fd r st = None \<Longrightarrow> find_recipient fd r 0 st = Some (-1)"
    and "recipient_of fd r st = Some j \<Longrightarrow> find_recipient fd r 0 st = Some (int j) \<and> j < get_size st \<and>
      at (outgoing_buffers st) j = Some (outgoing_buffers st ! j) \<and>
      put (outgoing_buffers st) j x = Some ((outgoing_buffers st)[j := x])"
  using find_recipient_find [OF assms, of fd r 0] recipient_of_Some [of fd r st j] assms
  by (simp_all add: recipient_of_def other_authenticated_def at_in put_in same_sizes_def)

section \<open>The handler refines its verdict\<close>

text \<open>An authenticated connection's request, by its first byte.\<close>

lemma payload_tag:
  assumes "payload_mem rq \<noteq> []"
  shows "peek_broadcast_type rq = Some (payload_mem rq ! 0)"
    and "msg_payload rq = [] \<or> (\<exists>r. msg_payload rq = payload_mem rq ! 0 # r)"
  using assms
  by (cases "payload_mem rq"; cases "unat (payload_length rq)"; simp add: msg_payload_def peek_broadcast_type_def)+

lemma chat_of_Nil [simp]: "world_of [] = None" "p2p_of [] = None"
  by (simp_all add: world_of_def p2p_of_def)

lemma broadcast_verdict_world:
  assumes "has_flag (flags st ! fd) IS_AUTH" "payload_mem rq \<noteq> []" "payload_mem rq ! 0 = tag TAG_WORLD_BROADCAST"
  shows "broadcast_verdict fd (msg_payload rq) st = (case world_of (msg_payload rq) of
      None \<Rightarrow> Inl RESP_ERROR_MALFORMED
    | Some (_, c) \<Rightarrow> if c = [] then Inl RESP_ERROR_MALFORMED
        else Inr (request_frame CHAT (world_tlvs \<lparr>world_sender_username = usernames st ! fd,
          world_message_content = c\<rparr>), other_authenticated fd st))"
  using payload_tag(2) [OF assms(2)] assms(1,3) unfolding broadcast_verdict_def by auto

lemma broadcast_verdict_p2p:
  assumes "has_flag (flags st ! fd) IS_AUTH" "payload_mem rq \<noteq> []" "payload_mem rq ! 0 = tag TAG_P2P_BROADCAST"
  shows "broadcast_verdict fd (msg_payload rq) st = (case p2p_of (msg_payload rq) of
      None \<Rightarrow> Inl RESP_ERROR_MALFORMED
    | Some (_, r, c) \<Rightarrow> if c = [] \<or> usernames st ! fd = r then Inl RESP_ERROR_MALFORMED
        else (case recipient_of fd r st of
           None \<Rightarrow> Inl RESP_ERROR_USER_NOT_FOUND
         | Some j \<Rightarrow> Inr (request_frame CHAT (p2p_tlvs \<lparr>p2p_sender_username = usernames st ! fd,
             p2p_recipient_username = r, p2p_message_content = c\<rparr>), (\<lambda>i. i = j))))"
  using payload_tag(2) [OF assms(2)] assms(1,3) unfolding broadcast_verdict_def by auto

lemma malformed_response:
  "message_ok (build_server_response 2 1 None 0)"
  "message_frame (build_server_response 2 1 None 0) = error_frame 2 RESP_ERROR_MALFORMED"
  using error_response [of 2 RESP_ERROR_MALFORMED] by simp_all

lemma handle_world_verdict:
  assumes "same_sizes st" "fd < get_size st" "has_flag (flags st ! fd) IS_AUTH"
    and "payload_inside rq" "payload_mem rq \<noteq> []" "payload_mem rq ! 0 = tag TAG_WORLD_BROADCAST"
    and "payload rs = Some b" "MSG_MAX_PAYLOAD_SIZE \<le> length b"
  defines "v \<equiv> broadcast_verdict fd (msg_payload rq) st"
  shows "\<exists>m. handle_broadcast_message fd rq rs st = Some (verdict_code v, m, broadcast_effect v st) \<and>
    message_ok m \<and> message_frame m = broadcast_frame v"
proof -
  have fl: "at (flags st) fd = Some (flags st ! fd)" "at (usernames st) fd = Some (usernames st ! fd)"
    using assms(1,2) by (simp_all add: at_in get_size_def same_sizes_def)
  note v = broadcast_verdict_world [OF assms(3,5,6), folded v_def]
  note head = handle_broadcast_message_def world_broadcast_case_def fl assms(3,6) payload_tag(1) [OF assms(5)]
  show ?thesis
  proof (cases "world_of (msg_payload rq)")
    case None
    with parse_world_broadcast_spec [OF assms(4), of world_zero] obtain w where
      "parse_world_broadcast rq world_zero = Some (rcode RESP_ERROR_MALFORMED, w)" by auto
    with None malformed_response show ?thesis
      by (simp add: v head verdict_code_def broadcast_effect_def broadcast_frame_def)
  next
    case (Some sc)
    obtain s c where sc: "sc = (s, c)" by (cases sc)
    let ?w = "\<lparr>world_sender_username = usernames st ! fd, world_message_content = c\<rparr>"
    have parse: "parse_world_broadcast rq world_zero =
        Some (0, \<lparr>world_sender_username = s, world_message_content = c\<rparr>)"
      using parse_world_broadcast_spec [OF assms(4), of world_zero] by (simp add: Some sc)
    show ?thesis
    proof (cases "c = []")
      case True
      with Some sc parse malformed_response show ?thesis
        by (simp add: v head verdict_code_def broadcast_effect_def broadcast_frame_def)
    next
      case False
      from build_world_broadcast_frame [OF assms(7,8), of ?w] obtain m where m:
        "build_world_broadcast rs ?w = Some (0, m)" "message_ok m"
        "message_frame m = request_frame CHAT (world_tlvs ?w)" by blast
      with False Some sc parse world_fanout_deliver [OF assms(1)] write_message_frame [OF m(2)]
      show ?thesis
        by (simp add: v head verdict_code_def broadcast_effect_def broadcast_frame_def
            build_world_broadcast_notification_def)
    qed
  qed
qed

lemma handle_p2p_verdict:
  assumes "same_sizes st" "fd < get_size st" "has_flag (flags st ! fd) IS_AUTH"
    and "payload_inside rq" "payload_mem rq \<noteq> []" "payload_mem rq ! 0 = tag TAG_P2P_BROADCAST"
    and "payload rs = Some b" "MSG_MAX_PAYLOAD_SIZE \<le> length b"
  defines "v \<equiv> broadcast_verdict fd (msg_payload rq) st"
  shows "\<exists>m. handle_broadcast_message fd rq rs st = Some (verdict_code v, m, broadcast_effect v st) \<and>
    message_ok m \<and> message_frame m = broadcast_frame v"
proof -
  have fl: "at (flags st) fd = Some (flags st ! fd)" "at (usernames st) fd = Some (usernames st ! fd)"
    using assms(1,2) by (simp_all add: at_in get_size_def same_sizes_def)
  note v = broadcast_verdict_p2p [OF assms(3,5,6), folded v_def]
  note head = handle_broadcast_message_def p2p_broadcast_case_def fl assms(3,6) payload_tag(1) [OF assms(5)]
  show ?thesis
  proof (cases "p2p_of (msg_payload rq)")
    case None
    with parse_p2p_broadcast_spec [OF assms(4), of p2p_zero] obtain w where
      "parse_p2p_broadcast rq p2p_zero = Some (rcode RESP_ERROR_MALFORMED, w)" by auto
    with None malformed_response show ?thesis
      by (simp add: v head verdict_code_def broadcast_effect_def broadcast_frame_def)
  next
    case (Some src)
    obtain s r c where src: "src = (s, r, c)" by (cases src)
    let ?w = "\<lparr>p2p_sender_username = usernames st ! fd, p2p_recipient_username = r, p2p_message_content = c\<rparr>"
    have parse: "parse_p2p_broadcast rq p2p_zero = Some (0,
        \<lparr>p2p_sender_username = s, p2p_recipient_username = r, p2p_message_content = c\<rparr>)"
      using parse_p2p_broadcast_spec [OF assms(4), of p2p_zero] by (simp add: Some src)
    show ?thesis
    proof (cases "c = [] \<or> usernames st ! fd = r")
      case True
      with Some src parse malformed_response show ?thesis
        by (auto simp add: v head verdict_code_def broadcast_effect_def broadcast_frame_def)
    next
      case False
      from build_p2p_broadcast_frame [OF assms(7,8), of ?w] False obtain m where m:
        "build_p2p_broadcast rs ?w = Some (0, m)" "message_ok m"
        "message_frame m = request_frame CHAT (p2p_tlvs ?w)" by auto
      note run = head parse m(1) build_p2p_broadcast_notification_def verdict_code_def
        broadcast_effect_def broadcast_frame_def write_message_frame [OF m(2)] m(3)
      show ?thesis
      proof (cases "recipient_of fd r st")
        case None
        with False Some src p2p_recipient(1) [OF assms(1) None] error_response [of 2 RESP_ERROR_USER_NOT_FOUND]
        show ?thesis by (simp add: v run)
      next
        case j: (Some j)
        note rec = p2p_recipient(2) [OF assms(1) j]
        show ?thesis using j False Some src m(2) rec deliver_one [OF assms(1), of j] by (simp add: v run)
      qed
    qed
  qed
qed

lemma handle_broadcast_verdict:
  assumes "same_sizes st" "fd < get_size st"
    and "payload_inside rq" "payload_mem rq \<noteq> []"
    and "payload rs = Some b" "MSG_MAX_PAYLOAD_SIZE \<le> length b"
  defines "v \<equiv> broadcast_verdict fd (msg_payload rq) st"
  shows "\<exists>m. handle_broadcast_message fd rq rs st = Some (verdict_code v, m, broadcast_effect v st) \<and>
    message_ok m \<and> message_frame m = broadcast_frame v"
proof (cases "has_flag (flags st ! fd) IS_AUTH")
  case False
  with assms(2) error_response [of "mtype CHAT" RESP_ERROR_INVALID_CREDENTIALS] show ?thesis
    by (simp add: handle_broadcast_message_def v_def broadcast_verdict_def at_in get_size_def
        verdict_code_def broadcast_effect_def broadcast_frame_def)
next
  case True
  consider "payload_mem rq ! 0 = tag TAG_WORLD_BROADCAST" | "payload_mem rq ! 0 = tag TAG_P2P_BROADCAST"
    | "payload_mem rq ! 0 \<noteq> tag TAG_WORLD_BROADCAST" "payload_mem rq ! 0 \<noteq> tag TAG_P2P_BROADCAST"
    by blast
  then show ?thesis
  proof cases
    case 1
    then show ?thesis unfolding v_def by (rule handle_world_verdict [OF assms(1,2) True assms(3,4) _ assms(5,6)])
  next
    case 2
    then show ?thesis unfolding v_def by (rule handle_p2p_verdict [OF assms(1,2) True assms(3,4) _ assms(5,6)])
  next
    case 3
    then have "v = Inl RESP_ERROR_MALFORMED"
      using True payload_tag(2) [OF assms(4)] unfolding v_def broadcast_verdict_def by auto
    with 3 True assms(2) malformed_response show ?thesis
      by (simp add: handle_broadcast_message_def payload_tag(1) [OF assms(4)] at_in get_size_def
          verdict_code_def broadcast_effect_def broadcast_frame_def)
  qed
qed

section \<open>What a broadcast keeps\<close>

lemma deliver_inv:
  assumes "table_inv st" "\<And>j. j < get_size st \<Longrightarrow> to j \<Longrightarrow> has_flag (flags st ! j) IS_ACTIVE"
  shows "table_inv (deliver to bs st)"
proof -
  have "slot_ok (flags (deliver to bs st) ! j) (epoll (deliver to bs st) j)" if "j < get_size st" for j
    using that table_inv_slot [OF assms(1) that] assms(2) [OF that] slot_ok_writing [of "flags st ! j" "epoll st j"]
    by (auto simp: deliver_nth deliver_def split: if_splits)
  moreover have "epoll (deliver to bs st) j = None" if "get_size st \<le> j" for j
    using assms(1) that by (simp add: table_inv_def deliver_def)
  ultimately show ?thesis
    using assms(1) by (simp add: table_inv_def table_simps)
qed

lemma broadcast_recipients:
  assumes "broadcast_verdict fd bs st = Inr (f, to)" "to j"
  shows "other_authenticated fd st j"
  using assms
  by (auto simp: broadcast_verdict_def recipient_of_Some split: if_splits list.splits option.splits)

lemma broadcast_inv:
  assumes "table_inv st"
  shows "table_inv (broadcast_effect (broadcast_verdict fd bs st) st)"
proof (cases "broadcast_verdict fd bs st")
  case (Inr x)
  obtain f to where x: "x = (f, to)" by (cases x)
  have "has_flag (flags st ! j) IS_ACTIVE" if "to j" "j < get_size st" for j
    using broadcast_recipients [of fd bs st f to j] that Inr x table_inv_slot [OF assms that(2)]
    by (auto simp: other_authenticated_def intro: slot_ok_auth)
  with assms Inr x show ?thesis by (auto simp: broadcast_effect_def intro: deliver_inv)
qed (simp add: assms broadcast_effect_def)

text \<open>The sender of a frame that is delivered is the connection's own name, whatever the request says.\<close>

lemma verdict_sender:
  assumes "broadcast_verdict fd bs st = Inr (f, to)" "length (usernames st ! fd) \<le> MAX_USERNAME_SIZE"
  shows "(\<exists>claimed content. world_of bs = Some (claimed, content) \<and>
      world_of (f_payload f) = Some (usernames st ! fd, content)) \<or>
    (\<exists>claimed name content. p2p_of bs = Some (claimed, name, content) \<and>
      p2p_of (f_payload f) = Some (usernames st ! fd, name, content))"
proof -
  have w: "length c \<le> MAX_MSG_CONTENT_SIZE" if "world_of bs = Some (s, c)" for s c
  proof -
    obtain xs ok where sp: "split_tlvs bs = (xs, ok)" by (rule prod.exhaust)
    with that have "(tag TAG_MESSAGE_CONTENT, c) \<in> set xs"
      by (auto simp: world_of_def split: if_splits option.splits dest: last_value_member)
    with split_tlvs_lengths [of _ bs] sp show ?thesis by (fastforce simp: MAX_MSG_CONTENT_SIZE_def)
  qed
  have p: "length c \<le> MAX_MSG_CONTENT_SIZE \<and> length r \<le> MAX_USERNAME_SIZE" if "p2p_of bs = Some (s, r, c)" for s r c
  proof -
    obtain xs ok where sp: "split_tlvs bs = (xs, ok)" by (rule prod.exhaust)
    with that have "(tag TAG_MESSAGE_CONTENT, c) \<in> set xs" "(tag TAG_RECIPIENT_USERNAME, r) \<in> set xs"
      "within_limits p2p_limit xs"
      by (auto simp: p2p_of_def split: if_splits option.splits dest: last_value_member)
    with split_tlvs_lengths [of _ bs] sp show ?thesis
      by (fastforce simp: MAX_MSG_CONTENT_SIZE_def within_limits_def list_all_iff p2p_limit_def)
  qed
  from assms(1) consider claimed content where "world_of bs = Some (claimed, content)"
      "f = request_frame CHAT (world_tlvs \<lparr>world_sender_username = usernames st ! fd, world_message_content = content\<rparr>)"
    | claimed name content where "p2p_of bs = Some (claimed, name, content)"
      "f = request_frame CHAT (p2p_tlvs \<lparr>p2p_sender_username = usernames st ! fd,
         p2p_recipient_username = name, p2p_message_content = content\<rparr>)"
    by (auto simp: broadcast_verdict_def split: if_splits list.splits option.splits)
  then show ?thesis
  proof cases
    case (1 claimed content)
    with w assms(2) show ?thesis by (auto simp: request_frame_def world_of_encode)
  next
    case (2 claimed name content)
    with p assms(2) show ?thesis by (auto simp: request_frame_def p2p_of_encode)
  qed
qed

lemma verdict_not_ok: "broadcast_verdict fd bs st \<noteq> Inl RESP_OK"
  by (simp add: broadcast_verdict_def split: list.split option.split)

end
