(* ===== verification/Requests.thy ===== *)
theory Requests
  imports Broadcast
begin

text \<open>
  Serving requests, \<open>try_one_request\<close> of \<open>src/server_utils.cpp\<close> and the loop around it. The
  specification cuts the incoming bytes into requests, runs them in order, each as one effect
  with one response frame, and appends the frames to the outgoing buffer. The loop is shown to
  terminate and to refine it. What it relies on in a request is the locale \<open>request_handler\<close>.
\<close>

text \<open>
  \<open>response_payload\<close> is an uninitialised array; it is modelled as zeros, and no byte of it that
  was not written first reaches a frame: the handlers' lemmas hold for any content.
\<close>

definition empty_response :: message_t where
  "empty_response = message_zero\<lparr>payload := Some (replicate MSG_MAX_PAYLOAD_SIZE 0), payload_length := 0\<rparr>"

text \<open>The \<open>switch (request.type)\<close>; the handlers' return values are ignored by the code.\<close>

definition dispatch ::
  "'db sqlite \<Rightarrow> nat \<Rightarrow> message_t \<Rightarrow> message_t \<Rightarrow> 'db server \<Rightarrow> (message_t \<times> 'db server) option" where
  "dispatch sq connfd request response st =
     (if msg_type request = mtype REGISTER then do {
        (_, response, st) \<leftarrow> register_user sq request response st; Some (response, st) }
      else if msg_type request = mtype LOGIN then do {
        (_, response, st) \<leftarrow> login_user sq connfd request response st; Some (response, st) }
      else if msg_type request = mtype CHAT then do {
        (_, response, st) \<leftarrow> handle_broadcast_message connfd request response st;
        Some (response, st) }
      else Some (build_server_response (msg_type request)
        (rcode RESP_ERROR_UNKNOWN_COMMAND) None 0, st))"

definition try_one_request ::
  "'db sqlite \<Rightarrow> nat \<Rightarrow> 'db server \<Rightarrow> (bool \<times> 'db server) option" where
  "try_one_request sq connfd st = do {
     incoming_buffer \<leftarrow> at (incoming_buffers st) connfd;
     if length incoming_buffer < MSG_HEADER_SIZE + 1 then Some (False, st)
     else do {
       request \<leftarrow> parse_message incoming_buffer message_zero;
       if payload_length request > u32_cast MSG_MAX_PAYLOAD_SIZE then do {
         st \<leftarrow> set_connection_state connfd CLOSING st;
         Some (False, st) }
       else if MSG_HEADER_SIZE + unat (payload_length request) > length incoming_buffer
       then Some (False, st)
       else do {
         let response = empty_response;
         (response, st) \<leftarrow> dispatch sq connfd request response st;
         incoming_buffer \<leftarrow> at (incoming_buffers st) connfd;
         incoming_buffer \<leftarrow> buf_consume incoming_buffer
           (MSG_HEADER_SIZE + unat (payload_length request));
         ins \<leftarrow> put (incoming_buffers st) connfd incoming_buffer;
         let st = st\<lparr>incoming_buffers := ins\<rparr>;
         outgoing_buffer \<leftarrow> at (outgoing_buffers st) connfd;
         outgoing_buffer \<leftarrow> write_message_to_buffer outgoing_buffer response;
         outs \<leftarrow> put (outgoing_buffers st) connfd outgoing_buffer;
         Some (True, st\<lparr>outgoing_buffers := outs\<rparr>) } } }"

section \<open>The loop terminates\<close>

text \<open>No handler touches the incoming buffers, whatever the state.\<close>

lemma set_connection_state_incoming:
  "set_connection_state fd s st = Some st' \<Longrightarrow> incoming_buffers st' = incoming_buffers st"
  by (auto simp: set_connection_state_Some table_simps)

lemma world_fanout_incoming:
  "world_fanout fd bs i st = Some st' \<Longrightarrow> incoming_buffers st' = incoming_buffers st"
proof (induction fd bs i st rule: world_fanout.induct)
  case (1 fd bs i st)
  show ?case
  proof (cases "i < get_size st")
    case False
    with "1.prems" show ?thesis by (simp add: world_fanout.simps [of fd bs i st])
  next
    case True
    then have fl: "at (flags st) i = Some (flags st ! i)" by (simp add: at_in get_size_def)
    show ?thesis
    proof (cases "has_flag (flags st ! i) IS_AUTH \<and> i \<noteq> fd")
      case False
      with True fl 1 show ?thesis by (simp add: world_fanout.simps [of fd bs i st])
    next
      case auth: True
      with True fl "1.prems" obtain out outs st1 where s:
        "at (outgoing_buffers st) i = Some out" "put (outgoing_buffers st) i (out @ bs) = Some outs"
        "set_connection_state i WRITING (st\<lparr>outgoing_buffers := outs\<rparr>) = Some st1"
        "world_fanout fd bs (i + 1) st1 = Some st'"
        by (auto simp: world_fanout.simps [of fd bs i st] bind_eq_Some_conv)
      from "1.IH"(2) [OF True fl _ s(1,2,3) s(4)] auth s(3) show ?thesis
        by (auto dest: set_connection_state_incoming)
    qed
  qed
qed

lemma handlers_incoming:
  "register_user sq rq rs st = Some (c, m, st') \<Longrightarrow> incoming_buffers st' = incoming_buffers st"
  "login_user sq fd rq rs st = Some (c, m, st') \<Longrightarrow> incoming_buffers st' = incoming_buffers st"
  "handle_broadcast_message fd rq rs st = Some (c, m, st') \<Longrightarrow> incoming_buffers st' = incoming_buffers st"
  subgoal by (auto simp: register_user_def bind_eq_Some_conv Let_def split: prod.splits if_splits)
  subgoal by (auto simp: login_user_def bind_eq_Some_conv Let_def split: prod.splits if_splits)
  subgoal by (auto simp: handle_broadcast_message_def world_broadcast_case_def p2p_broadcast_case_def
        bind_eq_Some_conv Let_def
        dest!: world_fanout_incoming set_connection_state_incoming split: prod.splits if_splits)
  done

lemma dispatch_incoming:
  "dispatch sq fd rq rs st = Some (m, st') \<Longrightarrow> incoming_buffers st' = incoming_buffers st"
  by (auto simp: dispatch_def bind_eq_Some_conv dest: handlers_incoming split: if_splits)

lemma try_one_request_consumes:
  assumes "try_one_request sq fd st = Some (True, st')"
  shows "length (incoming_buffers st' ! fd) < length (incoming_buffers st ! fd)"
  using assms
  by (auto simp: try_one_request_def bind_eq_Some_conv Let_def buf_consume_def mem_Some
      MSG_HEADER_SIZE_def dest!: dispatch_incoming split: prod.splits if_splits)

function serve_requests :: "'db sqlite \<Rightarrow> nat \<Rightarrow> 'db server \<Rightarrow> 'db server option" where
  "serve_requests sq connfd st = do {
     (served, st) \<leftarrow> try_one_request sq connfd st;
     if served then serve_requests sq connfd st else Some st }"
  by pat_completeness auto
termination
  by (relation "measure (\<lambda>(sq, fd, st). length (incoming_buffers st ! fd))")
    (auto dest: try_one_request_consumes)

declare serve_requests.simps [simp del]

section \<open>Specification: requests, effects and responses\<close>

text \<open>What the start of an incoming buffer holds.\<close>

datatype arrival = Incomplete | Oversized | Request u8 bytes bytes

definition next_request :: "bytes \<Rightarrow> arrival" where
  "next_request bs =
     (if length bs < 8 then Incomplete
      else let n = unat (ntohl (u32_of_bytes (take 4 (drop 3 bs)))) in
        if n > MSG_MAX_PAYLOAD_SIZE then Oversized
        else if 7 + n > length bs then Incomplete
        else Request (bs ! 1) (take n (drop 7 bs)) (drop (7 + n) bs))"

text \<open>The frame a request is answered with, and its effect on the server.\<close>

definition request_effect ::
  "'db sqlite \<Rightarrow> ('db \<Rightarrow> user_row list) \<Rightarrow> nat \<Rightarrow> u8 \<Rightarrow> bytes \<Rightarrow> 'db server \<Rightarrow> frame \<times> 'db server" where
  "request_effect sq rows fd ty bs st =
     (if ty = mtype REGISTER then register_effect sq rows bs st
      else if ty = mtype LOGIN then login_effect rows fd bs st
      else if ty = mtype CHAT then
        (let v = broadcast_verdict fd bs st in (broadcast_frame v, broadcast_effect v st))
      else (error_frame ty RESP_ERROR_UNKNOWN_COMMAND, st))"

text \<open>The buffers of a connection after its input has been used up to \<open>rest\<close> and \<open>bs\<close> queued.\<close>

definition queue :: "nat \<Rightarrow> bytes \<Rightarrow> bytes \<Rightarrow> 'db server \<Rightarrow> 'db server" where
  "queue fd rest bs st = st\<lparr>incoming_buffers := (incoming_buffers st)[fd := rest],
     outgoing_buffers := (outgoing_buffers st)[fd := outgoing_buffers st ! fd @ bs]\<rparr>"

lemma next_request_length:
  "next_request bs = Request ty pl rest \<Longrightarrow> length rest < length bs"
  by (auto simp: next_request_def Let_def split: if_splits)

function split_requests :: "bytes \<Rightarrow> (u8 \<times> bytes) list \<times> bytes" where
  "split_requests bs =
     (case next_request bs of
        Request ty pl rest \<Rightarrow> (let (rqs, rest') = split_requests rest in ((ty, pl) # rqs, rest'))
      | _ \<Rightarrow> ([], bs))"
  by pat_completeness auto
termination
  by (relation "measure length") (auto dest: next_request_length)

text \<open>A run of requests, one answer each.\<close>

fun run_effects :: "(u8 \<Rightarrow> bytes \<Rightarrow> 's \<Rightarrow> 'f \<times> 's) \<Rightarrow> (u8 \<times> bytes) list \<Rightarrow> 's \<Rightarrow> 'f list \<times> 's" where
  "run_effects e [] s = ([], s)"
| "run_effects e ((ty, pl) # rqs) s =
     (let (f, s) = e ty pl s; (fs, s) = run_effects e rqs s in (f # fs, s))"

definition run_requests ::
  "'db sqlite \<Rightarrow> ('db \<Rightarrow> user_row list) \<Rightarrow> nat \<Rightarrow> (u8 \<times> bytes) list \<Rightarrow> 'db server
     \<Rightarrow> frame list \<times> 'db server" where
  "run_requests sq rows fd = run_effects (request_effect sq rows fd)"

lemma run_requests_simps [simp]:
  "run_requests sq rows fd [] st = ([], st)"
  "run_requests sq rows fd ((ty, pl) # rqs) st =
     (let (f, st) = request_effect sq rows fd ty pl st;
          (fs, st) = run_requests sq rows fd rqs st in (f # fs, st))"
  by (simp_all add: run_requests_def)

text \<open>What every request of a run keeps, the run keeps.\<close>

lemma run_effects_inv:
  assumes "\<And>ty bs s f s'. I s \<Longrightarrow> e ty bs s = (f, s') \<Longrightarrow> I s' \<and> P f"
    and "I s" "run_effects e rqs s = (fs, s')"
  shows "I s' \<and> list_all P fs \<and> length fs = length rqs"
  using assms(2,3)
proof (induction rqs arbitrary: s fs)
  case (Cons rq rqs)
  obtain ty bs where rq: "rq = (ty, bs)" by (rule prod.exhaust)
  obtain f s1 where e: "e ty bs s = (f, s1)" by (rule prod.exhaust)
  obtain gs s2 where r: "run_effects e rqs s1 = (gs, s2)" by (rule prod.exhaust)
  from Cons.IH [of s1 gs] assms(1) [OF Cons.prems(1) e] Cons.prems(2) rq e r show ?case by auto
qed simp

lemma run_effects_append:
  "run_effects e (xs @ ys) s =
    (let (fs, s) = run_effects e xs s; (gs, s) = run_effects e ys s in (fs @ gs, s))"
  by (induction xs arbitrary: s) (auto split: prod.split)

declare split_requests.simps [simp del]

text \<open>All that serving a connection does, given what its incoming buffer holds.\<close>

definition serve_spec :: "'db sqlite \<Rightarrow> ('db \<Rightarrow> user_row list) \<Rightarrow> nat \<Rightarrow> 'db server \<Rightarrow> 'db server" where
  "serve_spec sq rows fd st =
     (let (rqs, rest) = split_requests (incoming_buffers st ! fd);
          (fs, st) = run_requests sq rows fd rqs st;
          st = queue fd rest (encode_frames fs) st in
      if next_request rest = Oversized
      then mark fd CLOSING st else st)"

section \<open>One request\<close>

lemma empty_response_buffer:
  "payload empty_response = Some (replicate MSG_MAX_PAYLOAD_SIZE 0)"
  by (simp add: empty_response_def)

text \<open>What every request leaves alone, and that the database stays well-formed.\<close>

definition kept :: "'db server \<Rightarrow> 'db server \<Rightarrow> bool" where
  "kept st st' \<longleftrightarrow> get_size st' = get_size st \<and> incoming_buffers st' = incoming_buffers st \<and>
     wire st' = wire st \<and> (same_sizes st \<longrightarrow> same_sizes st')"

lemma keptD:
  "kept st st' \<Longrightarrow> get_size st' = get_size st"
  "kept st st' \<Longrightarrow> incoming_buffers st' = incoming_buffers st"
  "kept st st' \<Longrightarrow> wire st' = wire st"
  "kept st st' \<Longrightarrow> same_sizes st \<Longrightarrow> same_sizes st'"
  by (simp_all add: kept_def)

lemma kept_db: "kept st (st\<lparr>db := d\<rparr>)"
  by (simp add: kept_def same_sizes_def get_size_def)

lemma kept_authenticate: "kept st (authenticate fd a st)"
  by (simp add: kept_def same_sizes_def get_size_def authenticate_def)

lemma kept_broadcast: "kept st (broadcast_effect v st)"
  by (simp add: kept_def broadcast_effect_def table_simps split: sum.split prod.split)

section \<open>The connection's own buffers\<close>

lemma queue_fields [table_simps]:
  "get_size (queue fd r b st) = get_size st" "flags (queue fd r b st) = flags st"
  "usernames (queue fd r b st) = usernames st" "user_ids (queue fd r b st) = user_ids st"
  "db (queue fd r b st) = db st" "epoll (queue fd r b st) = epoll st" "wire (queue fd r b st) = wire st"
  "same_sizes (queue fd r b st) \<longleftrightarrow> same_sizes st"
  by (simp_all add: queue_def get_size_def same_sizes_def)

lemma queue_nth [table_simps]:
  assumes "same_sizes st" "fd < get_size st"
  shows "incoming_buffers (queue fd r b st) ! i = (if i = fd then r else incoming_buffers st ! i)"
    and "outgoing_buffers (queue fd r b st) ! i =
      (if i = fd then outgoing_buffers st ! fd @ b else outgoing_buffers st ! i)"
  using assms by (auto simp: queue_def same_sizes_def nth_list_update)

lemma queue_queue:
  "same_sizes st \<Longrightarrow> fd < get_size st \<Longrightarrow> queue fd r2 b2 (queue fd r1 b1 st) = queue fd r2 (b1 @ b2) st"
  by (simp add: queue_def same_sizes_def)

lemma queue_nothing: "queue fd (incoming_buffers st ! fd) [] st = st"
  by (simp add: queue_def)

lemma deliver_queue:
  assumes "same_sizes st" "fd < get_size st" "\<not> to fd"
  shows "deliver to bs (queue fd r b st) = queue fd r b (deliver to bs st)"
proof -
  have "map (\<lambda>j. outgoing_buffers (queue fd r b st) ! j @ (if to j then bs else [])) [0..<get_size st]
      = (outgoing_buffers (deliver to bs st))[fd := outgoing_buffers (deliver to bs st) ! fd @ b]"
    using assms by (intro nth_equalityI) (auto simp: table_simps nth_list_update)
  then show ?thesis
    unfolding deliver_def [of to bs "queue fd r b st"] queue_fields by (simp add: queue_def deliver_def)
qed

lemma verdict_queue: "broadcast_verdict fd bs (queue i r b st) = broadcast_verdict fd bs st"
proof -
  have others: "other_authenticated fd (queue i r b st) = other_authenticated fd st"
    by (simp add: other_authenticated_def fun_eq_iff table_simps)
  show ?thesis unfolding broadcast_verdict_def recipient_of_def queue_fields others by (rule refl)
qed

section \<open>The contract of a request\<close>

text \<open>
  What the loop relies on in every kind of request: it leaves the other fields of the table and the
  connection's own buffers alone, keeps the database well-formed, and does not look at the
  connection's own buffers, so that it can be run before or after they change.
\<close>

locale request_handler =
  fixes sq :: "'db sqlite" and rows :: "'db \<Rightarrow> user_row list" and fd :: nat
    and effect :: "bytes \<Rightarrow> 'db server \<Rightarrow> frame \<times> 'db server"
  assumes keeps: "effect bs st = (f, st') \<Longrightarrow> kept st st'"
    and stores: "effect bs st = (f, st') \<Longrightarrow> db_ok sq rows (db st) \<Longrightarrow> db_ok sq rows (db st')"
    and own_output: "effect bs st = (f, st') \<Longrightarrow> fd < get_size st \<Longrightarrow>
      outgoing_buffers st' ! fd = outgoing_buffers st ! fd"
    and defers: "effect bs st = (f, st') \<Longrightarrow> same_sizes st \<Longrightarrow> fd < get_size st \<Longrightarrow>
      effect bs (queue fd r b st) = (f, queue fd r b st')"
begin

lemma ready:
  assumes "effect bs st = (f, st')" "same_sizes st" "fd < get_size st" "db_ok sq rows (db st)"
  shows "same_sizes st'" "fd < get_size st'" "db_ok sq rows (db st')"
  using keptD [OF keeps [OF assms(1)]] stores [OF assms(1,4)] assms(2,3) by simp_all

lemma answered:
  assumes "effect bs (queue fd r b st) = (f, st')" "same_sizes st" "fd < get_size st"
  shows "incoming_buffers st' ! fd = r" "outgoing_buffers st' ! fd = outgoing_buffers st ! fd @ b"
  using keptD(2) [OF keeps [OF assms(1)]] own_output [OF assms(1)] assms(2,3)
  by (simp_all add: table_simps)

end

text \<open>A service answers requests of every type under this contract; so does a run of them.\<close>

locale request_service =
  fixes sq :: "'db sqlite" and rows :: "'db \<Rightarrow> user_row list" and fd :: nat
    and serve :: "u8 \<Rightarrow> bytes \<Rightarrow> 'db server \<Rightarrow> frame \<times> 'db server"
  assumes handler: "request_handler sq rows fd (serve ty)"
begin

lemma one_keeps: "serve ty bs st = (f, st') \<Longrightarrow> kept st st'"
  by (rule request_handler.keeps [OF handler])

lemma run_keeps:
  assumes "run_effects serve rqs st = (fs, st')" "db_ok sq rows (db st)"
  shows "kept st st' \<and> db_ok sq rows (db st') \<and> length fs = length rqs"
proof -
  let ?I = "\<lambda>s. kept st s \<and> db_ok sq rows (db s)"
  have step: "?I s' \<and> True" if "?I s" "serve ty bs s = (f, s')" for ty bs s f s'
    using request_handler.stores [OF handler that(2)] one_keeps [OF that(2)] that(1) by (simp add: kept_def)
  have init: "?I st" using assms(2) by (simp add: kept_def)
  have "?I st' \<and> list_all (\<lambda>_. True) fs \<and> length fs = length rqs"
    by (rule run_effects_inv [where e = serve and I = ?I, OF _ init assms(1)]) (rule step)
  then show ?thesis by blast
qed

lemma run_own_output:
  assumes "run_effects serve rqs st = (fs, st')" "fd < get_size st"
  shows "outgoing_buffers st' ! fd = outgoing_buffers st ! fd"
proof -
  let ?I = "\<lambda>s. fd < get_size s \<and> outgoing_buffers s ! fd = outgoing_buffers st ! fd"
  have step: "?I s' \<and> True" if "?I s" "serve ty bs s = (f, s')" for ty bs s f s'
    using request_handler.own_output [OF handler that(2)] keptD(1) [OF one_keeps [OF that(2)]] that(1) by simp
  have init: "?I st" using assms(2) by simp
  have "?I st' \<and> list_all (\<lambda>_. True) fs \<and> length fs = length rqs"
    by (rule run_effects_inv [where e = serve and I = ?I, OF _ init assms(1)]) (rule step)
  then show ?thesis by blast
qed

lemma run_defers:
  "run_effects serve rqs st = (fs, st') \<Longrightarrow> same_sizes st \<Longrightarrow> fd < get_size st \<Longrightarrow>
   run_effects serve rqs (queue fd r b st) = (fs, queue fd r b st')"
proof (induction rqs arbitrary: st fs)
  case (Cons rq rqs)
  obtain ty pl where rq: "rq = (ty, pl)" by (rule prod.exhaust)
  obtain f st1 where e: "serve ty pl st = (f, st1)" by (rule prod.exhaust)
  note k = keptD [OF one_keeps [OF e]]
  from Cons e rq k request_handler.defers [OF handler e] show ?case
    by (auto split: prod.splits)
qed simp

end

text \<open>The three services and the answer to an unknown type.\<close>

interpretation registering: request_handler sq rows fd "register_effect sq rows"
proof unfold_locales
  fix bs and st st' :: "'a server" and f r b
  assume e: "register_effect sq rows bs st = (f, st')"
  have "kept st (snd (register_effect sq rows bs st))"
    by (auto simp: register_effect_def kept_db [of st "db st", simplified] kept_db split: sum.split prod.split)
  with e show "kept st st'" by simp
  show "db_ok sq rows (db st')" if "db_ok sq rows (db st)"
    using register_effect_accounts [OF that e] by blast
  show "outgoing_buffers st' ! fd = outgoing_buffers st ! fd"
    using e by (auto simp: register_effect_def split: sum.splits prod.splits)
  show "register_effect sq rows bs (queue fd r b st) = (f, queue fd r b st')"
    using e by (auto simp: register_effect_def queue_def Let_def split: sum.splits prod.splits)
qed

interpretation logging_in: request_handler sq rows fd "login_effect rows fd"
  by unfold_locales
    (auto simp: login_effect_def authenticate_def queue_def Let_def kept_def same_sizes_def get_size_def
      split: sum.splits)

lemma broadcast_not_own: "broadcast_verdict fd bs st = Inr (g, to) \<Longrightarrow> \<not> to fd"
  using broadcast_recipients [of fd bs st g to fd] by (auto simp: other_authenticated_def)

interpretation broadcasting: request_handler sq rows fd
  "\<lambda>bs st. let v = broadcast_verdict fd bs st in (broadcast_frame v, broadcast_effect v st)"
  by unfold_locales
    (auto simp: Let_def kept_def verdict_queue broadcast_effect_def table_simps deliver_queue
      broadcast_not_own split: sum.splits)

interpretation unknown: request_handler sq rows fd "\<lambda>bs st. (error_frame ty RESP_ERROR_UNKNOWN_COMMAND, st)"
  by unfold_locales (auto simp: kept_def)

lemma request_effect_handler: "request_handler sq rows fd (request_effect sq rows fd ty)"
proof -
  consider "ty = mtype REGISTER" | "ty = mtype LOGIN" | "ty = mtype CHAT"
    | "ty \<noteq> mtype REGISTER" "ty \<noteq> mtype LOGIN" "ty \<noteq> mtype CHAT"
    by blast
  then show ?thesis
  proof cases
    case 1
    then have "request_effect sq rows fd ty = register_effect sq rows"
      by (simp add: request_effect_def fun_eq_iff)
    then show ?thesis by (simp only: registering.request_handler_axioms)
  next
    case 2
    then have "request_effect sq rows fd ty = login_effect rows fd"
      by (simp add: request_effect_def fun_eq_iff)
    then show ?thesis by (simp only: logging_in.request_handler_axioms)
  next
    case 3
    then have "request_effect sq rows fd ty =
        (\<lambda>bs st. let v = broadcast_verdict fd bs st in (broadcast_frame v, broadcast_effect v st))"
      by (simp add: request_effect_def fun_eq_iff)
    then show ?thesis by (simp only: broadcasting.request_handler_axioms)
  next
    case 4
    then have "request_effect sq rows fd ty = (\<lambda>bs st. (error_frame ty RESP_ERROR_UNKNOWN_COMMAND, st))"
      by (simp add: request_effect_def fun_eq_iff)
    then show ?thesis by (simp only: unknown.request_handler_axioms)
  qed
qed

interpretation requests: request_service sq rows fd "request_effect sq rows fd"
  by (rule request_service.intro [OF request_effect_handler])

lemma kept_effect: "request_effect sq rows fd ty bs st = (f, st') \<Longrightarrow> kept st st'"
  by (rule requests.one_keeps)

lemma effect_queue:
  assumes "same_sizes st" "fd < get_size st" "request_effect sq rows fd ty bs st = (f, st')"
  shows "request_effect sq rows fd ty bs (queue fd r b st) = (f, queue fd r b st')"
  by (rule request_handler.defers [OF requests.handler assms(3,1,2)])

lemma run_requests_kept:
  assumes "run_requests sq rows fd rqs st = (fs, st')" "db_ok sq rows (db st)"
  shows "kept st st'" and "db_ok sq rows (db st')" and "length fs = length rqs"
  using requests.run_keeps [OF assms [unfolded run_requests_def]] by blast+

lemma run_requests_queue:
  assumes "same_sizes st" "fd < get_size st" "run_requests sq rows fd rqs st = (fs, st')"
  shows "run_requests sq rows fd rqs (queue fd r b st) = (fs, queue fd r b st')"
  using requests.run_defers [OF assms(3) [unfolded run_requests_def] assms(1,2)] by (simp add: run_requests_def)

section \<open>Dispatching a request\<close>

lemma dispatch_effect:
  assumes "same_sizes st" "fd < get_size st" "db_ok sq rows (db st)"
    and "payload_inside rq" "payload_mem rq \<noteq> []"
  defines "e \<equiv> request_effect sq rows fd (msg_type rq) (msg_payload rq) st"
  shows "\<exists>m. dispatch sq fd rq empty_response st = Some (m, snd e) \<and> message_ok m \<and> message_frame m = fst e"
proof -
  note buf = empty_response_buffer
  have full: "MSG_MAX_PAYLOAD_SIZE \<le> length (replicate MSG_MAX_PAYLOAD_SIZE (0 :: u8))" by simp
  note run = dispatch_def e_def request_effect_def
  consider "msg_type rq = mtype REGISTER" | "msg_type rq = mtype LOGIN" | "msg_type rq = mtype CHAT"
    | "msg_type rq \<noteq> mtype REGISTER" "msg_type rq \<noteq> mtype LOGIN" "msg_type rq \<noteq> mtype CHAT"
    by blast
  then show ?thesis
  proof cases
    case 1
    from register_user_effect [where st = st, OF assms(3,4) buf full] obtain c m where
      "register_user sq rq empty_response st = Some (c, m, snd (register_effect sq rows (msg_payload rq) st))"
      "message_ok m" "message_frame m = fst (register_effect sq rows (msg_payload rq) st)" by blast
    with 1 show ?thesis by (simp add: run)
  next
    case 2
    let ?v = "login_verdict (account rows (db st)) (msg_payload rq)"
    from login_user_verdict [where st = st, OF assms(3,1,2,4) buf full] obtain m where
      "login_user sq fd rq empty_response st = Some (verdict_code ?v, m,
        case ?v of Inl _ \<Rightarrow> st | Inr a \<Rightarrow> authenticate fd a st)"
      "message_ok m" "message_frame m = verdict_frame LOGIN ?v" by blast
    with 2 show ?thesis by (simp add: run login_effect_def Let_def)
  next
    case 3
    let ?v = "broadcast_verdict fd (msg_payload rq) st"
    from handle_broadcast_verdict [OF assms(1,2,4,5) buf full] obtain m where
      "handle_broadcast_message fd rq empty_response st = Some (verdict_code ?v, m, broadcast_effect ?v st)"
      "message_ok m" "message_frame m = broadcast_frame ?v" by blast
    with 3 show ?thesis by (simp add: run Let_def)
  next
    case 4
    with error_response [of "msg_type rq" RESP_ERROR_UNKNOWN_COMMAND] show ?thesis by (simp add: run)
  qed
qed

text \<open>What the header in the buffer is parsed to.\<close>

lemma header_parsed:
  assumes "8 \<le> length buf"
  defines "n \<equiv> unat (ntohl (u32_of_bytes (take 4 (drop 3 buf))))"
  obtains rq where "parse_message buf message_zero = Some rq" "unat (payload_length rq) = n"
    "payload_length rq > u32_cast MSG_MAX_PAYLOAD_SIZE \<longleftrightarrow> n > MSG_MAX_PAYLOAD_SIZE"
    "msg_type rq = buf ! 1" "payload_mem rq = drop 7 buf" "payload_mem rq \<noteq> []"
proof -
  let ?rq = "message_zero\<lparr>payload_length := ntohl (u32_of_bytes (take 4 (drop 3 buf))),
      msg_version := buf ! 0, msg_type := buf ! 1, msg_rc := buf ! 2, payload := Some (drop 7 buf)\<rparr>"
  have "parse_message buf message_zero = Some ?rq"
    using assms(1) parse_message_total [of buf message_zero] by (simp add: MSG_HEADER_SIZE_def)
  then show thesis
    by (rule that) (use assms(1) in \<open>simp_all add: n_def word_less_nat_alt MSG_MAX_PAYLOAD_SIZE_def\<close>)
qed

lemma try_one_request_spec:
  assumes "same_sizes st" "fd < get_size st" "db_ok sq rows (db st)"
  shows "try_one_request sq fd st =
    (case next_request (incoming_buffers st ! fd) of
       Incomplete \<Rightarrow> Some (False, st)
     | Oversized \<Rightarrow> Some (False, mark fd CLOSING st)
     | Request ty pl rest \<Rightarrow>
         (let (f, st') = request_effect sq rows fd ty pl st
          in Some (True, queue fd rest (encode_frame f) st')))"
proof -
  define buf where "buf = incoming_buffers st ! fd"
  define n where "n = unat (ntohl (u32_of_bytes (take 4 (drop 3 buf))))"
  have at_buf: "at (incoming_buffers st) fd = Some buf"
    using assms by (simp add: at_in same_sizes_def buf_def)
  note defs = try_one_request_def next_request_def MSG_HEADER_SIZE_def
  show ?thesis
  proof (cases "length buf < 8")
    case False
    then obtain rq where rq: "parse_message buf message_zero = Some rq" "unat (payload_length rq) = n"
      "payload_length rq > u32_cast MSG_MAX_PAYLOAD_SIZE \<longleftrightarrow> n > MSG_MAX_PAYLOAD_SIZE"
      "msg_type rq = buf ! 1" "payload_mem rq = drop 7 buf" "payload_mem rq \<noteq> []"
      using header_parsed [of buf] unfolding n_def by (metis not_less)
    show ?thesis
    proof (cases "n \<le> MSG_MAX_PAYLOAD_SIZE \<and> 7 + n \<le> length buf")
      case True
      let ?pl = "take n (drop 7 buf)" and ?rest = "drop (7 + n) buf"
      have "n \<le> length buf - 7" using True by linarith
      then have mp: "msg_payload rq = ?pl" "payload_inside rq"
        using rq(2,5) by (simp_all add: msg_payload_def payload_inside_def)
      obtain f st1 where eff: "request_effect sq rows fd (buf ! 1) ?pl st = (f, st1)" by (rule prod.exhaust)
      from dispatch_effect [OF assms mp(2) rq(6)] eff rq(4) mp(1) obtain m where m:
        "dispatch sq fd rq empty_response st = Some (m, st1)" "message_ok m" "message_frame m = f"
        by auto
      have bufs: "at (incoming_buffers st1) fd = Some buf" "fd < length (incoming_buffers st1)"
        "fd < length (outgoing_buffers st1)"
        using keptD [OF kept_effect [OF eff]] assms(1,2) at_buf by (simp_all add: same_sizes_def)
      have "try_one_request sq fd st = Some (True, queue fd ?rest (encode_frame f) st1)"
        using True False rq(3) bufs m write_message_frame [OF m(2)]
        unfolding try_one_request_def at_buf
        by (simp add: rq(1,2) Let_def MSG_HEADER_SIZE_def buf_consume_def put_in at_in queue_def
            del: One_nat_def mtype.simps)
      with True False eff show ?thesis
        by (simp add: next_request_def flip: buf_def n_def)
    qed (use False at_buf rq(1-3) set_connection_state_eq [OF assms(2), of CLOSING] in
      \<open>auto simp: defs simp flip: buf_def n_def\<close>)
  qed (use at_buf in \<open>simp add: defs flip: buf_def\<close>)
qed

section \<open>The loop refines its specification\<close>

lemma serve_requests_spec:
  assumes "same_sizes st" "fd < get_size st" "db_ok sq rows (db st)"
  shows "serve_requests sq fd st = Some (serve_spec sq rows fd st)"
  using assms
proof (induction "length (incoming_buffers st ! fd)" arbitrary: st rule: less_induct)
  case less
  let ?buf = "incoming_buffers st ! fd"
  note one = try_one_request_spec [OF less.prems]
  show ?case
  proof (cases "next_request ?buf")
    case Incomplete
    with one show ?thesis
      by (simp add: serve_requests.simps [of sq fd st] serve_spec_def split_requests.simps [of ?buf]
          queue_nothing)
  next
    case Oversized
    with one show ?thesis
      by (simp add: serve_requests.simps [of sq fd st] serve_spec_def split_requests.simps [of ?buf]
          queue_nothing)
  next
    case (Request ty pl rest)
    obtain f st1 where e: "request_effect sq rows fd ty pl st = (f, st1)" by (rule prod.exhaust)
    note ok = request_handler.ready [OF requests.handler e less.prems]
    let ?q = "queue fd rest (encode_frame f) st1"
    have inc: "incoming_buffers ?q ! fd = rest" using ok by (simp add: table_simps)
    obtain rqs rest' where sp: "split_requests rest = (rqs, rest')" by (rule prod.exhaust)
    obtain fs st2 where r: "run_requests sq rows fd rqs st1 = (fs, st2)" by (rule prod.exhaust)
    have ok2: "same_sizes st2" "fd < get_size st2"
      using keptD [OF run_requests_kept(1) [OF r ok(3)]] ok by simp_all
    have "serve_requests sq fd st = serve_requests sq fd ?q"
      using one Request e by (simp add: serve_requests.simps [of sq fd st])
    also have "\<dots> = Some (serve_spec sq rows fd ?q)"
      using next_request_length [OF Request] ok inc by (intro less.hyps) (simp_all add: table_simps)
    also have "serve_spec sq rows fd ?q = serve_spec sq rows fd st"
      using run_requests_queue [OF ok(1,2) r] queue_queue [OF ok2] sp inc e r Request
      by (simp add: serve_spec_def split_requests.simps [of ?buf] Let_def)
    finally show ?thesis .
  qed
qed

section \<open>Cutting the input\<close>

lemma next_request_encode:
  assumes "frame_ok f" "f_payload f @ rest \<noteq> []"
  shows "next_request (encode_frame f @ rest) = Request (f_type f) (f_payload f) rest"
proof -
  obtain a b c d where be: "be_bytes (u32_cast (length (f_payload f))) = [a, b, c, d]"
    by (rule length_4E [OF length_be_bytes])
  let ?xs = "f_payload f @ rest"
  let ?bs = "f_version f # f_type f # f_rc f # a # b # c # d # ?xs"
  have bs: "encode_frame f @ rest = ?bs" by (simp add: encode_frame_def be)
  have parts: "take 4 (drop 3 ?bs) = [a, b, c, d]" "drop 7 ?bs = ?xs"
    "drop (7 + n) ?bs = drop n ?xs" "length ?bs = 7 + length ?xs" for n
    by (simp_all add: eval_nat_numeral)
  have len: "unat (ntohl (u32_of_bytes [a, b, c, d])) = length (f_payload f)"
    using assms(1) by (simp add: frame_ok_def MSG_MAX_PAYLOAD_SIZE_def flip: be)
  have long: "\<not> length ?bs < 8" "\<not> length (f_payload f) > MSG_MAX_PAYLOAD_SIZE"
    "\<not> 7 + length (f_payload f) > length ?bs"
    using assms by (cases ?xs, simp_all add: frame_ok_def)
  show ?thesis
    unfolding next_request_def bs Let_def parts(1,2,3) len using long by simp
qed

lemma next_request_append:
  "next_request bs = Request ty pl rest \<Longrightarrow> next_request (bs @ cs) = Request ty pl (rest @ cs)"
  by (auto simp: next_request_def Let_def nth_append split: if_splits)

lemma next_request_oversized: "next_request bs = Oversized \<Longrightarrow> next_request (bs @ cs) = Oversized"
  by (auto simp: next_request_def Let_def split: if_splits)

lemma split_requests_rest: "split_requests bs = (rqs, rest) \<Longrightarrow> next_request rest = Incomplete \<or> next_request rest = Oversized"
proof (induction bs arbitrary: rqs rest rule: split_requests.induct)
  case (1 bs)
  then show ?case
    by (cases "next_request bs") (auto simp: split_requests.simps [of bs] split: prod.splits)
qed

lemma split_requests_append:
  "split_requests bs = (rqs, rest) \<Longrightarrow>
   split_requests (bs @ cs) = (let (rqs', rest') = split_requests (rest @ cs) in (rqs @ rqs', rest'))"
proof (induction bs arbitrary: rqs rest rule: split_requests.induct)
  case (1 bs)
  show ?case
  proof (cases "next_request bs")
    case (Request ty pl r)
    obtain rqs1 where "split_requests r = (rqs1, rest)" "rqs = (ty, pl) # rqs1"
      using 1(2) Request by (auto simp: split_requests.simps [of bs] split: prod.splits)
    with 1(1) [OF Request] next_request_append [OF Request, of cs] show ?thesis
      by (simp add: split_requests.simps [of "bs @ cs"] split: prod.split)
  qed (use 1(2) in \<open>auto simp: split_requests.simps [of bs] split: prod.split\<close>)
qed

text \<open>A stream of frames is cut into exactly its requests, when the last frame is not a bare header.\<close>

definition request_of :: "frame \<Rightarrow> u8 \<times> bytes" where
  "request_of f = (f_type f, f_payload f)"

lemma split_requests_frames:
  assumes "list_all frame_ok fs" "fs = [] \<or> f_payload (last fs) \<noteq> []"
  shows "split_requests (encode_frames fs) = (map request_of fs, [])"
  using assms
proof (induction fs)
  case Nil
  then show ?case by (simp add: split_requests.simps [of "[]"] next_request_def)
next
  case (Cons f fs)
  have "f_payload f @ encode_frames fs \<noteq> []"
    using Cons.prems(2) by (cases fs) (auto simp: encode_frame_def)
  then have "next_request (encode_frame f @ encode_frames fs) = Request (f_type f) (f_payload f) (encode_frames fs)"
    using Cons.prems(1) by (intro next_request_encode) simp_all
  moreover have "split_requests (encode_frames fs) = (map request_of fs, [])"
    using Cons by (cases fs) simp_all
  ultimately show ?case
    by (simp add: split_requests.simps [of "encode_frame f @ encode_frames fs"] request_of_def)
qed

section \<open>Pipelining and segmentation\<close>

text \<open>The connection's own buffers after serving.\<close>

lemma serve_spec_buffers:
  assumes "same_sizes st" "fd < get_size st" "db_ok sq rows (db st)"
    and "split_requests (incoming_buffers st ! fd) = (rqs, rest)"
    and "run_requests sq rows fd rqs st = (fs, st')"
  shows "incoming_buffers (serve_spec sq rows fd st) ! fd = rest"
    and "outgoing_buffers (serve_spec sq rows fd st) ! fd = outgoing_buffers st ! fd @ encode_frames fs"
  using assms(4,5) requests.run_own_output [OF assms(5) [unfolded run_requests_def] assms(2)] assms(1,2)
    keptD [OF run_requests_kept(1) [OF assms(5,3)]]
  by (simp_all add: serve_spec_def table_simps Let_def)

text \<open>Serving twice, with more input arriving in between, is serving once.\<close>

lemma serve_spec_twice:
  assumes "same_sizes st" "fd < get_size st" "db_ok sq rows (db st)"
    and "next_request (snd (split_requests (incoming_buffers st ! fd))) \<noteq> Oversized"
  shows "serve_spec sq rows fd (queue fd (incoming_buffers (serve_spec sq rows fd st) ! fd @ bs) []
      (serve_spec sq rows fd st)) =
    serve_spec sq rows fd (queue fd (incoming_buffers st ! fd @ bs) [] st)"
proof -
  let ?inc = "incoming_buffers st ! fd"
  obtain rqs rest where sp: "split_requests ?inc = (rqs, rest)" by (rule prod.exhaust)
  obtain rqs' rest' where sp': "split_requests (rest @ bs) = (rqs', rest')" by (rule prod.exhaust)
  obtain fs st1 where r: "run_requests sq rows fd rqs st = (fs, st1)" by (rule prod.exhaust)
  obtain gs st2 where r': "run_requests sq rows fd rqs' st1 = (gs, st2)" by (rule prod.exhaust)
  note k1 = run_requests_kept [OF r assms(3)]
  have ok1: "same_sizes st1" "fd < get_size st1" using keptD [OF k1(1)] assms(1,2) by simp_all
  have ok2: "same_sizes st2" "fd < get_size st2"
    using keptD [OF run_requests_kept(1) [OF r' k1(2)]] ok1 by simp_all
  have serve: "serve_spec sq rows fd st = queue fd rest (encode_frames fs) st1"
    using assms(4) sp r by (simp add: serve_spec_def)
  have "queue fd (rest @ bs) [] (queue fd rest (encode_frames fs) st1) = queue fd (rest @ bs) (encode_frames fs) st1"
    using queue_queue [OF ok1] by simp
  then have left: "serve_spec sq rows fd (queue fd (incoming_buffers (serve_spec sq rows fd st) ! fd @ bs) []
      (serve_spec sq rows fd st)) = serve_spec sq rows fd (queue fd (rest @ bs) (encode_frames fs) st1)"
    using ok1 by (simp add: serve table_simps)
  have "split_requests (?inc @ bs) = (rqs @ rqs', rest')"
    using split_requests_append [OF sp, of bs] sp' by simp
  moreover have "run_requests sq rows fd (rqs @ rqs') st = (fs @ gs, st2)"
    using r r' by (simp add: run_requests_def run_effects_append)
  ultimately have right: "serve_spec sq rows fd (queue fd (?inc @ bs) [] st) =
      (let s = queue fd rest' (encode_frames (fs @ gs)) st2 in
       if next_request rest' = Oversized then mark fd CLOSING s else s)"
    using run_requests_queue [OF assms(1,2), of sq rows "rqs @ rqs'" "fs @ gs" st2] queue_queue [OF ok2] assms(1,2)
    by (simp add: serve_spec_def table_simps)
  have "serve_spec sq rows fd (queue fd (rest @ bs) (encode_frames fs) st1) =
      (let s = queue fd rest' (encode_frames (fs @ gs)) st2 in
       if next_request rest' = Oversized then mark fd CLOSING s else s)"
    using run_requests_queue [OF ok1 r'] queue_queue [OF ok2] sp' ok1
    by (simp add: serve_spec_def table_simps)
  then show ?thesis unfolding left right .
qed

end
