(* ===== verification/Event_Loop.thy ===== *)
theory Event_Loop
  imports Requests Server_Admin
begin

text \<open>
  The event loop: reading, writing and accepting of \<open>src/server_utils.cpp\<close> and the loop of
  \<open>src/server.cpp\<close>. The kernel's answers to one handler call are its arguments: the chunks that
  \<open>read\<close> returns and how it ends, the room \<open>write\<close> finds in the socket, the descriptors \<open>accept\<close>
  returns. Each handler gets a closed form; the loop over events becomes a step relation in the
  theory of its invariants.
\<close>

text \<open>The last answer of \<open>read\<close>: would block, end of file, or an error (an interruption included).\<close>

datatype read_end = Read_Would_Block | Read_Eof | Read_Error
datatype accept_end = Accept_Would_Block | Accept_Error

text \<open>
  The last answer of \<open>write\<close>: would block, an error, or a connection its peer has closed. The last
  raises \<open>SIGPIPE\<close>, and only if the process outlives it does \<open>write\<close> return the error \<open>EPIPE\<close>.
\<close>

datatype write_end = Write_Would_Block | Write_Error | Write_Broken_Pipe

fun read_loop :: "nat \<Rightarrow> bytes list \<Rightarrow> 'db server \<Rightarrow> 'db server option" where
  "read_loop connfd [] st = Some st"
| "read_loop connfd (buffer # chunks) st = do {
     buf \<leftarrow> at (incoming_buffers st) connfd;
     buf \<leftarrow> buf_append buf buffer (length buffer);
     ins \<leftarrow> put (incoming_buffers st) connfd buf;
     read_loop connfd chunks (st\<lparr>incoming_buffers := ins\<rparr>) }"

definition handle_read_connection ::
  "'db sqlite \<Rightarrow> nat \<Rightarrow> bytes list \<Rightarrow> read_end \<Rightarrow> 'db server \<Rightarrow> 'db server option" where
  "handle_read_connection sq connfd chunks ending st = do {
     st \<leftarrow> read_loop connfd chunks st;
     (case ending of
        Read_Error \<Rightarrow> set_connection_state connfd CLOSING st
      | Read_Eof \<Rightarrow> do {
          _ \<leftarrow> at (incoming_buffers st) connfd;
          _ \<leftarrow> at (flags st) connfd;
          set_connection_state connfd CLOSING st }
      | Read_Would_Block \<Rightarrow> do {
          st \<leftarrow> serve_requests sq connfd st;
          outgoing_buffer \<leftarrow> at (outgoing_buffers st) connfd;
          if length outgoing_buffer > 0 then set_connection_state connfd WRITING st
          else Some st }) }"

text \<open>
  \<open>room\<close> is what each call of \<open>write\<close> finds free in the socket; it takes at most what it is given.
  When the calls in the list are used up the next one ends the loop.
\<close>

fun write_loop :: "nat \<Rightarrow> nat list \<Rightarrow> write_end \<Rightarrow> 'db server \<Rightarrow> 'db server outcome option" where
  "write_loop connfd [] ending st =
     (case ending of
        Write_Would_Block \<Rightarrow> Some (Running st)
      | Write_Error \<Rightarrow> do { st \<leftarrow> set_connection_state connfd CLOSING st; Some (Running st) }
      | Write_Broken_Pipe \<Rightarrow>
          (case raised SIGPIPE main_signals of
             Some status \<Rightarrow> Some (Exited status)
           | None \<Rightarrow> do { st \<leftarrow> set_connection_state connfd CLOSING st; Some (Running st) }))"
| "write_loop connfd (room # rooms) ending st = do {
     outgoing_buffer \<leftarrow> at (outgoing_buffers st) connfd;
     let rv = min room (length outgoing_buffer);
     let st = st\<lparr>wire := (wire st)(connfd := wire st connfd @ take rv outgoing_buffer)\<rparr>;
     outgoing_buffer \<leftarrow> buf_consume outgoing_buffer rv;
     outs \<leftarrow> put (outgoing_buffers st) connfd outgoing_buffer;
     let st = st\<lparr>outgoing_buffers := outs\<rparr>;
     if length outgoing_buffer = 0
     then do { st \<leftarrow> set_connection_state connfd READING st; Some (Running st) }
     else write_loop connfd rooms ending st }"

definition handle_write_connection ::
  "nat \<Rightarrow> nat list \<Rightarrow> write_end \<Rightarrow> 'db server \<Rightarrow> 'db server outcome option" where
  "handle_write_connection connfd rooms ending st = do {
     _ \<leftarrow> at (outgoing_buffers st) connfd;
     write_loop connfd rooms ending st }"

fun accept_all_connections ::
  "(nat \<times> admission) list \<Rightarrow> accept_end \<Rightarrow> 'db server \<Rightarrow> 'db server outcome option" where
  "accept_all_connections [] ending st =
     (case ending of
        Accept_Would_Block \<Rightarrow> Some (Running st)
      | Accept_Error \<Rightarrow> Some (Exited (Status (-1))))"
| "accept_all_connections ((conn_fd, k) # conns) ending st = do {
     r \<leftarrow> add_connection conn_fd k st;
     (case r of
        Exited code \<Rightarrow> Some (Exited code)
      | Running st \<Rightarrow> accept_all_connections conns ending st) }"

text \<open>
  One ready descriptor of \<open>epoll_wait\<close>, with whether \<open>EPOLLERR\<close> is set and the answers of the
  system calls made while it is handled.
\<close>

datatype event =
    Listen_Ready bool "(nat \<times> admission) list" accept_end
  | Stdin_Ready bool memory_source "stdin_answer list" stdin_end
  | Conn_Ready nat bool "bytes list" read_end "nat list" write_end

text \<open>The body of the \<open>for\<close> loop of \<open>main\<close>; a \<open>return\<close> of \<open>main\<close> ends the process.\<close>

fun handle_event :: "'db sqlite \<Rightarrow> event \<Rightarrow> 'db server \<Rightarrow> 'db server outcome option" where
  "handle_event sq (Listen_Ready err conns ending) st =
     (if err then Some (Exited (Status (-1))) else accept_all_connections conns ending st)"
| "handle_event sq (Stdin_Ready err src answers ending) st =
     (if err then Some (Exited (Status (-1)))
      else do { _ \<leftarrow> handle_server_input (flags st) src answers ending; Some (Running st) })"
| "handle_event sq (Conn_Ready current_fd err chunks read_end rooms write_end) st = do {
     current_flags \<leftarrow> at (flags st) current_fd;
     st \<leftarrow> (if has_flag current_flags WANT_READ
            then handle_read_connection sq current_fd chunks read_end st else Some st);
     current_flags \<leftarrow> at (flags st) current_fd;
     r \<leftarrow> (if has_flag current_flags WANT_WRITE
            then handle_write_connection current_fd rooms write_end st else Some (Running st));
     (case r of
        Exited code \<Rightarrow> Some (Exited code)
      | Running st \<Rightarrow> do {
          current_flags \<leftarrow> at (flags st) current_fd;
          if err \<or> has_flag current_flags WANT_CLOSE then do {
            st \<leftarrow> remove_connection current_fd st; Some (Running st) }
          else Some (Running st) }) }"

text \<open>The events of one \<open>epoll_wait\<close>, in order.\<close>

fun handle_events :: "'db sqlite \<Rightarrow> event list \<Rightarrow> 'db server \<Rightarrow> 'db server outcome option" where
  "handle_events sq [] st = Some (Running st)"
| "handle_events sq (ev # evs) st = do {
     r \<leftarrow> handle_event sq ev st;
     (case r of Exited code \<Rightarrow> Some (Exited code) | Running st \<Rightarrow> handle_events sq evs st) }"

section \<open>Reading\<close>

text \<open>Only the concatenation of what \<open>read\<close> returned matters, not how it was cut.\<close>

definition receive :: "nat \<Rightarrow> bytes \<Rightarrow> 'db server \<Rightarrow> 'db server" where
  "receive fd bs st = st\<lparr>incoming_buffers := (incoming_buffers st)[fd := incoming_buffers st ! fd @ bs]\<rparr>"

lemma receive_fields [table_simps]:
  "get_size (receive fd bs st) = get_size st" "flags (receive fd bs st) = flags st"
  "outgoing_buffers (receive fd bs st) = outgoing_buffers st"
  "usernames (receive fd bs st) = usernames st" "user_ids (receive fd bs st) = user_ids st"
  "db (receive fd bs st) = db st" "epoll (receive fd bs st) = epoll st" "wire (receive fd bs st) = wire st"
  "same_sizes (receive fd bs st) \<longleftrightarrow> same_sizes st"
  by (simp_all add: receive_def get_size_def same_sizes_def)

lemma receive_nth [table_simps]:
  "same_sizes st \<Longrightarrow> fd < get_size st \<Longrightarrow> incoming_buffers (receive fd bs st) ! i =
    (if i = fd then incoming_buffers st ! fd @ bs else incoming_buffers st ! i)"
  by (simp add: receive_def same_sizes_def nth_list_update)

lemma receive_nothing [simp]: "receive fd [] st = st"
  by (simp add: receive_def)

lemma receive_receive:
  "same_sizes st \<Longrightarrow> fd < get_size st \<Longrightarrow> receive fd b (receive fd a st) = receive fd (a @ b) st"
  by (simp add: receive_def same_sizes_def)

lemma read_loop_receive:
  "same_sizes st \<Longrightarrow> fd < get_size st \<Longrightarrow> read_loop fd chunks st = Some (receive fd (concat chunks) st)"
proof (induction chunks arbitrary: st)
  case Nil
  then show ?case by simp
next
  case (Cons c cs)
  have "read_loop fd (c # cs) st = read_loop fd cs (receive fd c st)"
    using Cons.prems
    by (simp add: buf_append_def mem_read_in at_in put_in same_sizes_def receive_def)
  with Cons show ?case by (simp add: table_simps receive_receive)
qed

text \<open>The state after serving: what a read event leaves of the connection.\<close>

definition read_effect ::
  "'db sqlite \<Rightarrow> ('db \<Rightarrow> user_row list) \<Rightarrow> nat \<Rightarrow> bytes \<Rightarrow> read_end \<Rightarrow> 'db server \<Rightarrow> 'db server" where
  "read_effect sq rows fd bs ending st =
     (let st = receive fd bs st in
      case ending of
        Read_Would_Block \<Rightarrow>
          (let st = serve_spec sq rows fd st in
           if outgoing_buffers st ! fd \<noteq> [] then mark fd WRITING st else st)
      | _ \<Rightarrow> mark fd CLOSING st)"

lemma serve_spec_kept:
  assumes "same_sizes st" "db_ok sq rows (db st)"
  shows "get_size (serve_spec sq rows fd st) = get_size st"
    and "same_sizes (serve_spec sq rows fd st)"
    and "wire (serve_spec sq rows fd st) = wire st"
    and "db_ok sq rows (db (serve_spec sq rows fd st))"
proof -
  obtain rqs rest where sp: "split_requests (incoming_buffers st ! fd) = (rqs, rest)" by (rule prod.exhaust)
  obtain fs st1 where r: "run_requests sq rows fd rqs st = (fs, st1)" by (rule prod.exhaust)
  note k = run_requests_kept [OF r assms(2)]
  let ?q = "queue fd rest (encode_frames fs) st1"
  have q: "get_size ?q = get_size st" "same_sizes ?q" "wire ?q = wire st" "db_ok sq rows (db ?q)"
    using keptD [OF k(1)] k(2) assms(1) by (simp_all add: table_simps)
  have "serve_spec sq rows fd st = ?q \<or> serve_spec sq rows fd st = mark fd CLOSING ?q"
    using sp r by (auto simp: serve_spec_def Let_def)
  then show "get_size (serve_spec sq rows fd st) = get_size st" "same_sizes (serve_spec sq rows fd st)"
    "wire (serve_spec sq rows fd st) = wire st" "db_ok sq rows (db (serve_spec sq rows fd st))"
    using q by (auto simp: table_simps)
qed

lemma handle_read_effect:
  assumes "same_sizes st" "fd < get_size st" "db_ok sq rows (db st)"
  shows "handle_read_connection sq fd chunks ending st =
    Some (read_effect sq rows fd (concat chunks) ending st)"
proof -
  let ?r = "receive fd (concat chunks) st"
  have ok: "same_sizes ?r" "fd < get_size ?r" "db_ok sq rows (db ?r)"
    using assms by (simp_all add: table_simps)
  note s = serve_spec_kept [OF ok(1,3), of fd]
  show ?thesis
  proof (cases ending)
    case Read_Would_Block
    then show ?thesis
      using read_loop_receive [OF assms(1,2)] serve_requests_spec [OF ok] s ok
        set_connection_state_eq [of fd "serve_spec sq rows fd ?r" WRITING]
      by (simp add: handle_read_connection_def read_effect_def at_in same_sizes_def Let_def)
  qed (use read_loop_receive [OF assms(1,2)] ok set_connection_state_eq [OF ok(2), of CLOSING] in
      \<open>simp_all add: handle_read_connection_def read_effect_def at_in same_sizes_def get_size_def Let_def\<close>)
qed

text \<open>Receiving is queueing no output; frames that arrive on an idle connection are its requests.\<close>

lemma receive_queue: "receive fd bs st = queue fd (incoming_buffers st ! fd @ bs) [] st"
  by (simp add: receive_def queue_def)

lemma serve_frames:
  assumes "same_sizes st" "fd < get_size st" "db_ok sq rows (db st)" "incoming_buffers st ! fd = []"
    and "list_all frame_ok fs" "fs = [] \<or> f_payload (last fs) \<noteq> []"
    and "run_requests sq rows fd (map request_of fs) st = (gs, st')"
  shows "serve_spec sq rows fd (receive fd (encode_frames fs) st) = queue fd [] (encode_frames gs) st'"
proof -
  note sp = split_requests_frames [OF assms(5,6)]
  have k: "same_sizes st'" "fd < get_size st'"
    using keptD [OF run_requests_kept(1) [OF assms(7,3)]] assms(1,2) by simp_all
  show ?thesis
    using sp run_requests_queue [OF assms(1,2,7)] queue_queue [OF k] assms(1,2,4)
    by (simp add: serve_spec_def receive_queue table_simps next_request_def)
qed

lemma serve_one_frame:
  assumes "same_sizes st" "fd < get_size st" "db_ok sq rows (db st)"
    and "incoming_buffers st ! fd = []" "frame_ok f" "f_payload f \<noteq> []"
    and "request_effect sq rows fd (f_type f) (f_payload f) st = (g, st')"
  shows "serve_spec sq rows fd (receive fd (encode_frame f) st) = queue fd [] (encode_frame g) st'"
  using serve_frames [OF assms(1-4), of "[f]" "[g]" st'] assms(5-7) by (simp add: request_of_def)

end
