(* ===== verification/Server_Invariant.thy ===== *)
theory Server_Invariant
  imports Event_Loop
begin

text \<open>
  The running server as a transition system, and what holds in every reachable state: the
  connection table is consistent with epoll, the bytes sent and queued on every connection are
  whole frames, no output and no complete request is left waiting, connections that should be
  closed are closed, authenticated connections stand for accounts of the database, and
  descriptors not handed out yet are untouched. Each handler's effect is shown to keep the
  parts; rule induction gives the rest.
\<close>

section \<open>Writing\<close>

text \<open>What \<open>write\<close> takes of the buffer call by call: sent, left over, and whether it emptied.\<close>

fun drain :: "nat list \<Rightarrow> bytes \<Rightarrow> bytes \<times> bytes \<times> bool" where
  "drain [] out = ([], out, False)"
| "drain (room # rooms) out =
     (if length out \<le> room then (out, [], True)
      else let (s, l, emptied) = drain rooms (drop room out) in (take room out @ s, l, emptied))"

definition transmit :: "nat \<Rightarrow> bytes \<Rightarrow> bytes \<Rightarrow> 'db server \<Rightarrow> 'db server" where
  "transmit fd s l st = st\<lparr>wire := (wire st)(fd := wire st fd @ s),
     outgoing_buffers := (outgoing_buffers st)[fd := l]\<rparr>"

definition write_effect :: "nat \<Rightarrow> nat list \<Rightarrow> write_end \<Rightarrow> 'db server \<Rightarrow> 'db server" where
  "write_effect fd rooms ending st =
     (let (s, l, emptied) = drain rooms (outgoing_buffers st ! fd); st = transmit fd s l st in
      if emptied then mark fd READING st
      else case ending of Write_Error \<Rightarrow> mark fd CLOSING st | _ \<Rightarrow> st)"

text \<open>The event comes to a write on a connection that its peer has closed.\<close>

definition pipe_breaks :: "nat list \<Rightarrow> write_end \<Rightarrow> bytes \<Rightarrow> bool" where
  "pipe_breaks rooms ending out \<longleftrightarrow> ending = Write_Broken_Pipe \<and> \<not> snd (snd (drain rooms out))"

definition write_outcome :: "nat \<Rightarrow> nat list \<Rightarrow> write_end \<Rightarrow> 'db server \<Rightarrow> 'db server outcome" where
  "write_outcome fd rooms ending st =
     (if pipe_breaks rooms ending (outgoing_buffers st ! fd) then Exited (Signalled SIGPIPE)
      else Running (write_effect fd rooms ending st))"

text \<open>It empties exactly when there is a write and the calls together have the room.\<close>

lemma drain_emptied:
  "snd (snd (drain rooms out)) \<longleftrightarrow> rooms \<noteq> [] \<and> length out \<le> sum_list rooms"
proof (induction rooms out rule: drain.induct)
  case (2 room rooms out)
  then show ?case by (cases rooms) (auto split: prod.split)
qed simp

lemma drain_parts:
  "drain rooms out = (s, l, emptied) \<Longrightarrow> s @ l = out \<and> (emptied \<longrightarrow> l = []) \<and> (l = [] \<longrightarrow> emptied \<or> out = [])"
proof (induction rooms out arbitrary: s l emptied rule: drain.induct)
  case (2 room rooms out)
  show ?case
  proof (cases "length out \<le> room")
    case True
    with 2(2) show ?thesis by simp
  next
    case False
    obtain s' l' e' where d: "drain rooms (drop room out) = (s', l', e')" by (rule prod_cases3)
    from 2(1) [OF False d] False 2(2) d show ?thesis
      using append_take_drop_id [of room out] by auto
  qed
qed simp

lemma transmit_fields [table_simps]:
  "get_size (transmit fd s l st) = get_size st" "flags (transmit fd s l st) = flags st"
  "incoming_buffers (transmit fd s l st) = incoming_buffers st"
  "usernames (transmit fd s l st) = usernames st" "user_ids (transmit fd s l st) = user_ids st"
  "db (transmit fd s l st) = db st" "epoll (transmit fd s l st) = epoll st"
  "wire (transmit fd s l st) i = (if i = fd then wire st fd @ s else wire st i)"
  "same_sizes (transmit fd s l st) \<longleftrightarrow> same_sizes st"
  by (simp_all add: transmit_def get_size_def same_sizes_def)

lemma transmit_nth [table_simps]:
  "same_sizes st \<Longrightarrow> fd < get_size st \<Longrightarrow>
   outgoing_buffers (transmit fd s l st) ! i = (if i = fd then l else outgoing_buffers st ! i)"
  by (simp add: transmit_def same_sizes_def nth_list_update)

lemma transmit_transmit:
  "same_sizes st \<Longrightarrow> fd < get_size st \<Longrightarrow>
   transmit fd s' l' (transmit fd s l st) = transmit fd (s @ s') l' st"
  by (simp add: transmit_def same_sizes_def)

lemma write_loop_effect:
  "same_sizes st \<Longrightarrow> fd < get_size st \<Longrightarrow> write_loop fd rooms ending st = Some (write_outcome fd rooms ending st)"
proof (induction rooms arbitrary: st)
  case Nil
  have "transmit fd [] (outgoing_buffers st ! fd) st = st" by (simp add: transmit_def)
  with Nil show ?case
    by (simp add: write_outcome_def pipe_breaks_def write_effect_def set_connection_state_eq split: write_end.split)
next
  case (Cons room rooms)
  let ?out = "outgoing_buffers st ! fd"
  have at_out: "at (outgoing_buffers st) fd = Some ?out" "fd < length (outgoing_buffers st)"
    using Cons.prems by (simp_all add: at_in same_sizes_def)
  show ?case
  proof (cases "length ?out \<le> room")
    case True
    with at_out Cons.prems set_connection_state_eq [of fd "transmit fd ?out [] st" READING]
    show ?thesis
      by (simp add: write_outcome_def pipe_breaks_def write_effect_def table_simps)
        (simp add: buf_consume_def put_in transmit_def Let_def)
  next
    case False
    let ?t = "transmit fd (take room ?out) (drop room ?out) st"
    obtain s l e where d: "drain rooms (drop room ?out) = (s, l, e)" by (rule prod_cases3)
    have "write_loop fd (room # rooms) ending st = write_loop fd rooms ending ?t"
      using False at_out by (simp add: buf_consume_def put_in transmit_def Let_def)
    also have "\<dots> = Some (write_outcome fd rooms ending ?t)"
      using Cons.prems by (intro Cons.IH) (simp_all add: table_simps)
    also have "write_outcome fd rooms ending ?t = write_outcome fd (room # rooms) ending st"
      using False Cons.prems d transmit_transmit [OF Cons.prems, of s l]
      by (cases ending) (simp_all add: write_outcome_def pipe_breaks_def write_effect_def table_simps Let_def)
    finally show ?thesis .
  qed
qed

lemma handle_write_effect:
  assumes "same_sizes st" "fd < get_size st"
  shows "handle_write_connection fd rooms ending st = Some (write_outcome fd rooms ending st)"
  using assms write_loop_effect [OF assms]
  by (simp add: handle_write_connection_def at_in same_sizes_def)

section \<open>The invariant\<close>

text \<open>
  The frames the server sends: an error without payload, the user of a registration or login, or a
  broadcast.
\<close>

definition answer_typed :: "frame \<Rightarrow> bool" where
  "answer_typed f \<longleftrightarrow> (\<exists>ty e. f = error_frame ty e \<and> e \<noteq> RESP_OK) \<or>
     (\<exists>ty u. (ty = REGISTER \<or> ty = LOGIN) \<and> f = request_frame ty (user_tlvs u)) \<or>
     (\<exists>w. f = request_frame CHAT (world_tlvs w)) \<or> (\<exists>q. f = request_frame CHAT (p2p_tlvs q))"

definition answer_ok :: "frame \<Rightarrow> bool" where
  "answer_ok f \<longleftrightarrow> frame_ok f \<and> answer_typed f"

lemma answer_typed_fields:
  assumes "answer_typed f"
  shows "f_version f = 1 \<and> (\<exists>e. f_rc f = word_of_int (rcode e)) \<and> (f_rc f \<noteq> 0 \<longrightarrow> f_payload f = []) \<and>
    (f_rc f = 0 \<longrightarrow>
      (\<exists>u. f_type f \<in> {mtype REGISTER, mtype LOGIN} \<and> f_payload f = encode_tlvs (user_tlvs u)) \<or>
      (\<exists>w. f_type f = mtype CHAT \<and> f_payload f = encode_tlvs (world_tlvs w)) \<or>
      (\<exists>q. f_type f = mtype CHAT \<and> f_payload f = encode_tlvs (p2p_tlvs q)))"
proof -
  have ok: "\<exists>e. (0 :: u8) = word_of_int (rcode e)" by (rule exI [of _ RESP_OK]) simp
  have err: "word_of_int (rcode e) \<noteq> (0 :: u8)" if "e \<noteq> RESP_OK" for e using that by (cases e) simp_all
  from assms show ?thesis
    unfolding answer_typed_def using ok err by (auto simp: error_frame_def request_frame_def)
qed

lemma answers_ok: "list_all answer_ok fs \<longleftrightarrow> list_all frame_ok fs \<and> list_all answer_typed fs"
  by (auto simp: list_all_iff answer_ok_def)

text \<open>All bytes of a connection, sent and queued, are such frames of at most the maximal size.\<close>

definition framed :: "'db server \<Rightarrow> nat \<Rightarrow> bool" where
  "framed st i \<longleftrightarrow> (\<exists>fs. list_all answer_ok fs \<and> wire st i @ outgoing_buffers st ! i = encode_frames fs)"

text \<open>An authenticated connection carries the name and id of an account of the database.\<close>

definition identified :: "('db \<Rightarrow> user_row list) \<Rightarrow> 'db server \<Rightarrow> nat \<Rightarrow> bool" where
  "identified rows st i \<longleftrightarrow> (has_flag (flags st ! i) IS_AUTH \<longrightarrow>
     (\<exists>a. account rows (db st) (account_key (usernames st ! i)) = Some a \<and>
          username a = usernames st ! i \<and> user_id a = user_ids st ! i))"

text \<open>A descriptor that \<open>accept\<close> has not returned yet.\<close>

definition untouched :: "'db server \<Rightarrow> nat \<Rightarrow> bool" where
  "untouched st i \<longleftrightarrow> wire st i = [] \<and>
     (i < get_size st \<longrightarrow> flags st ! i = NONE \<and> incoming_buffers st ! i = [] \<and> outgoing_buffers st ! i = [])"

definition core :: "'db sqlite \<Rightarrow> ('db \<Rightarrow> user_row list) \<Rightarrow> nat list \<Rightarrow> 'db server \<Rightarrow> bool" where
  "core sq rows used st \<longleftrightarrow> table_inv st \<and> db_ok sq rows (db st) \<and>
     (\<forall>i < get_size st. framed st i \<and> identified rows st i) \<and>
     (\<forall>i. get_size st \<le> i \<longrightarrow> wire st i = []) \<and>
     (\<forall>i. i \<notin> set used \<longrightarrow> untouched st i)"

text \<open>
  A connection waits for nothing the server could do: its input holds no complete request and
  its output is empty or watched for, unless it is about to be closed.
\<close>

definition settled :: "'db server \<Rightarrow> nat \<Rightarrow> bool" where
  "settled st i \<longleftrightarrow> has_flag (flags st ! i) WANT_CLOSE \<or>
     (next_request (incoming_buffers st ! i) = Incomplete \<and>
      (outgoing_buffers st ! i \<noteq> [] \<longrightarrow> has_flag (flags st ! i) WANT_WRITE))"

definition quiet :: "'db server \<Rightarrow> nat \<Rightarrow> bool" where
  "quiet st i \<longleftrightarrow> (has_flag (flags st ! i) IS_ACTIVE \<longrightarrow>
     \<not> has_flag (flags st ! i) WANT_CLOSE \<and> settled st i)"

definition server_inv :: "'db sqlite \<Rightarrow> ('db \<Rightarrow> user_row list) \<Rightarrow> nat list \<Rightarrow> 'db server \<Rightarrow> bool" where
  "server_inv sq rows used st \<longleftrightarrow> core sq rows used st \<and> (\<forall>i < get_size st. quiet st i)"

lemma coreD:
  assumes "core sq rows used st"
  shows "table_inv st" "same_sizes st" "db_ok sq rows (db st)"
    "i < get_size st \<Longrightarrow> framed st i" "i < get_size st \<Longrightarrow> identified rows st i"
    "get_size st \<le> i \<Longrightarrow> wire st i = []" "i \<notin> set used \<Longrightarrow> untouched st i"
  using assms by (auto simp: core_def table_inv_def)

lemma coreI:
  assumes "table_inv st" "db_ok sq rows (db st)"
    "\<And>i. i < get_size st \<Longrightarrow> framed st i" "\<And>i. i < get_size st \<Longrightarrow> identified rows st i"
    "\<And>i. get_size st \<le> i \<Longrightarrow> wire st i = []" "\<And>i. i \<notin> set used \<Longrightarrow> untouched st i"
  shows "core sq rows used st"
  using assms by (simp add: core_def)

text \<open>An active connection was handed out by \<open>accept\<close>.\<close>

lemma core_used:
  assumes "core sq rows used st" "i < get_size st" "has_flag (flags st ! i) IS_ACTIVE"
  shows "i \<in> set used"
  using coreD(7) [OF assms(1), of i] assms(2,3) by (cases "i \<in> set used") (simp_all add: untouched_def)

lemma settled_cong:
  "flags st' ! i = flags st ! i \<Longrightarrow> incoming_buffers st' ! i = incoming_buffers st ! i \<Longrightarrow>
   outgoing_buffers st' ! i = outgoing_buffers st ! i \<Longrightarrow> settled st' i = settled st i"
  "flags st' ! i = flags st ! i \<Longrightarrow> incoming_buffers st' ! i = incoming_buffers st ! i \<Longrightarrow>
   outgoing_buffers st' ! i = outgoing_buffers st ! i \<Longrightarrow> quiet st' i = quiet st i"
  by (simp_all add: settled_def quiet_def)

section \<open>Every effect keeps the core\<close>

lemma table_inv_cong:
  "flags st' = flags st \<Longrightarrow> epoll st' = epoll st \<Longrightarrow> same_sizes st' \<Longrightarrow> table_inv st \<Longrightarrow> table_inv st'"
  by (simp add: table_inv_def get_size_def)

lemma core_receive:
  assumes "core sq rows used st" "fd < get_size st" "fd \<in> set used"
  shows "core sq rows used (receive fd bs st)"
proof -
  note c = coreD [OF assms(1)]
  have inv: "table_inv (receive fd bs st)"
    using c(1,2) by (intro table_inv_cong [of "receive fd bs st" st]) (simp_all add: table_simps)
  show ?thesis
    using c assms(2,3)
    by (intro coreI inv) (auto simp: table_simps framed_def identified_def untouched_def)
qed

lemma core_mark:
  assumes "core sq rows used st" "fd < get_size st" "has_flag (flags st ! fd) IS_ACTIVE"
  shows "core sq rows used (mark fd s st)"
proof -
  note c = coreD [OF assms(1)]
  have inv: "table_inv (mark fd s st)" by (rule mark_inv [OF c(1) assms(2,3)])
  have "fd \<in> set used" by (rule core_used [OF assms])
  then show ?thesis
    using c assms(2)
    by (intro coreI inv) (auto simp: table_simps framed_def identified_def untouched_def
        state_flags_keep simp del: state_flags.simps)
qed

lemma core_queue:
  assumes "core sq rows used st" "fd < get_size st" "fd \<in> set used" "list_all answer_ok fs"
  shows "core sq rows used (queue fd rest (encode_frames fs) st)"
proof -
  let ?q = "queue fd rest (encode_frames fs) st"
  note c = coreD [OF assms(1)]
  have inv: "table_inv ?q"
    using c(1,2) by (intro table_inv_cong [of ?q st]) (simp_all add: table_simps)
  have "framed ?q i" if i: "i < get_size st" for i
  proof (cases "i = fd")
    case True
    from c(4) [OF i] obtain gs where "list_all answer_ok gs"
      "wire st i @ outgoing_buffers st ! i = encode_frames gs" by (auto simp: framed_def)
    with True assms(4) c(2) i show ?thesis
      unfolding framed_def by (intro exI [of _ "gs @ fs"]) (simp add: table_simps flip: append_assoc)
  next
    case False
    with c(2,4) i assms(2) show ?thesis by (simp add: framed_def table_simps)
  qed
  then show ?thesis
    using c assms(2,3) by (intro coreI inv) (auto simp: table_simps identified_def untouched_def)
qed

lemma core_transmit:
  assumes "core sq rows used st" "fd < get_size st" "fd \<in> set used" "s @ l = outgoing_buffers st ! fd"
  shows "core sq rows used (transmit fd s l st)"
proof -
  note c = coreD [OF assms(1)]
  have inv: "table_inv (transmit fd s l st)"
    using c(1,2) by (intro table_inv_cong [of "transmit fd s l st" st]) (simp_all add: table_simps)
  have "framed (transmit fd s l st) i" if "i < get_size st" for i
    using c(4) [OF that] c(2) assms(2,4) by (auto simp: framed_def table_simps)
  then show ?thesis
    using c assms(2,3) by (intro coreI inv) (auto simp: table_simps identified_def untouched_def)
qed

lemma account_self:
  assumes "db_ok sq rows d" "account rows d k = Some a"
  shows "account_key (username a) = k"
proof -
  from assms(2) obtain i u p where f: "find (\<lambda>(i, u, p). string_to_lower u = k) (rows d) = Some (i, u, p)"
    and a: "a = \<lparr>user_id = word_of_int i, username = u, password = p\<rparr>"
    by (auto simp: account_def)
  from find_member [OF f] assms(1) have "string_to_lower u = k" "0 \<notin> set u" by (auto simp: db_ok_def)
  with a show ?thesis by (simp add: account_key_def)
qed

lemma core_register:
  assumes "core sq rows used st" "register_effect sq rows bs st = (f, st')"
  shows "core sq rows used st'"
proof -
  note c = coreD [OF assms(1)]
  note reg = register_effect_accounts [OF c(3) assms(2)]
  define d where "d = db st'"
  have st': "st' = st\<lparr>db := d\<rparr>" and db: "db_ok sq rows d" using reg by (simp_all add: d_def)
  have acc: "account rows d k = Some a" if "account rows (db st) k = Some a" for k a
    using reg that by (auto simp: d_def)
  have sz: "get_size st' = get_size st" "same_sizes st' = same_sizes st"
    by (simp_all add: st' get_size_def same_sizes_def)
  have inv: "table_inv st'" using c(1,2) sz by (intro table_inv_cong [of st' st]) (simp_all add: st')
  have "identified rows st' i" if "i < get_size st" for i
    using c(5) [OF that] acc by (auto simp: identified_def st')
  then show ?thesis
    using c db sz by (intro coreI inv) (auto simp: st' framed_def untouched_def)
qed

lemma core_authenticate:
  assumes "core sq rows used st" "fd < get_size st" "has_flag (flags st ! fd) IS_ACTIVE"
    and "account rows (db st) k = Some a"
  shows "core sq rows used (authenticate fd a st)"
proof -
  let ?st = "authenticate fd a st"
  note c = coreD [OF assms(1)]
  have sz: "get_size ?st = get_size st" by (simp add: authenticate_def get_size_def)
  have inv: "table_inv ?st" by (rule authenticate_inv [OF c(1) assms(2,3)])
  have used: "fd \<in> set used" by (rule core_used [OF assms(1-3)])
  have "identified rows ?st i" if i: "i < get_size st" for i
  proof (cases "i = fd")
    case True
    then show ?thesis
      using assms(2,4) account_self [OF c(3) assms(4)] c(2)
      by (simp add: identified_def authenticate_def same_sizes_def)
  next
    case False
    with c(5) [OF i] show ?thesis by (simp add: identified_def authenticate_def)
  qed
  moreover have "untouched ?st i" if i: "i \<notin> set used" for i
  proof -
    from used i have "fd \<noteq> i" by auto
    with c(7) [OF i] sz show ?thesis by (simp add: untouched_def authenticate_def)
  qed
  ultimately show ?thesis
    using c sz by (intro coreI inv) (auto simp: authenticate_def framed_def)
qed

lemma broadcast_answer_ok:
  assumes "broadcast_verdict fd bs st = Inr (f, to)"
  shows "answer_ok f"
proof -
  from assms have "frame_ok f"
    by (auto simp: broadcast_verdict_def frame_ok_def request_frame_def chat_tlvs_short
        split: if_splits list.splits option.splits)
  moreover from assms have "answer_typed f"
    unfolding answer_typed_def
    by (auto simp: broadcast_verdict_def split: if_splits list.splits option.splits)
  ultimately show ?thesis by (simp add: answer_ok_def)
qed

lemma core_deliver:
  assumes "core sq rows used st" "answer_ok f"
    and "\<And>j. to j \<Longrightarrow> j < get_size st \<and> has_flag (flags st ! j) IS_ACTIVE"
  shows "core sq rows used (deliver to (encode_frame f) st)"
proof -
  let ?st = "deliver to (encode_frame f) st"
  note c = coreD [OF assms(1)]
  have inv: "table_inv ?st" using c(1) assms(3) by (intro deliver_inv) auto
  have "framed ?st i" if i: "i < get_size st" for i
  proof (cases "to i")
    case True
    from c(4) [OF i] obtain gs where gs: "list_all answer_ok gs"
      "wire st i @ outgoing_buffers st ! i = encode_frames gs" by (auto simp: framed_def)
    then have "wire st i @ outgoing_buffers st ! i @ encode_frame f = encode_frames (gs @ [f])"
      by (simp flip: append_assoc)
    with True gs(1) assms(2) i show ?thesis
      unfolding framed_def by (intro exI [of _ "gs @ [f]"]) (simp add: table_simps)
  next
    case False
    with c(4) [OF i] i show ?thesis by (simp add: framed_def table_simps)
  qed
  moreover have "untouched ?st i" if i: "i \<notin> set used" for i
  proof -
    have "\<not> to i" using core_used [OF assms(1), of i] assms(3) [of i] i by blast
    with c(7) [OF i] show ?thesis by (simp add: untouched_def table_simps)
  qed
  moreover have "identified rows ?st i" if i: "i < get_size st" for i
    using c(5) [OF i] deliver_auth(1) [OF i] by (simp add: identified_def deliver_fields)
  ultimately show ?thesis
    using c by (intro coreI inv) (auto simp: deliver_fields)
qed

lemma broadcast_active:
  assumes "table_inv st" "broadcast_verdict fd bs st = Inr (f, to)" "to j"
  shows "j < get_size st \<and> j \<noteq> fd \<and> has_flag (flags st ! j) IS_AUTH \<and> has_flag (flags st ! j) IS_ACTIVE"
  using broadcast_recipients [OF assms(2,3)] table_inv_slot [OF assms(1), of j]
  by (auto simp: other_authenticated_def intro: slot_ok_auth)

lemma core_broadcast:
  assumes "core sq rows used st"
  shows "core sq rows used (broadcast_effect (broadcast_verdict fd bs st) st)"
proof (cases "broadcast_verdict fd bs st")
  case (Inr x)
  obtain f to where x: "x = (f, to)" by (cases x)
  note v = Inr [unfolded x]
  have "core sq rows used (deliver to (encode_frame f) st)"
    using broadcast_active [OF coreD(1) [OF assms] v]
    by (intro core_deliver assms broadcast_answer_ok [OF v]) blast
  with Inr x show ?thesis by (simp add: broadcast_effect_def)
qed (simp add: assms broadcast_effect_def)

text \<open>One request: the core is kept, the answer is a frame, and the connection stays active.\<close>

lemma user_answer_ok: "ty = REGISTER \<or> ty = LOGIN \<Longrightarrow> answer_ok (request_frame ty (user_tlvs u))"
  using length_u8_trunc_le [of "username u"] unfolding answer_ok_def answer_typed_def
  by (auto simp: frame_ok_def request_frame_def user_tlvs_def MSG_MAX_PAYLOAD_SIZE_def)

lemma error_answer_ok: "e \<noteq> RESP_OK \<Longrightarrow> answer_ok (error_frame ty e)"
  unfolding answer_ok_def answer_typed_def by (auto simp: frame_ok_def error_frame_def)

text \<open>No verdict is an error without being one.\<close>

lemma verdict_error:
  "login_verdict acc bs = Inl e \<Longrightarrow> e \<noteq> RESP_OK" "register_verdict acc bs = Inl e \<Longrightarrow> e \<noteq> RESP_OK"
  "broadcast_verdict fd bs st = Inl e \<Longrightarrow> e \<noteq> RESP_OK"
  by (auto simp: login_verdict_def register_verdict_def broadcast_verdict_def Let_def
      split: option.splits if_splits list.splits)

lemma effect_answer_ok:
  assumes "request_effect sq rows fd ty bs st = (f, st')"
  shows "answer_ok f"
proof -
  have "answer_ok (fst (register_effect sq rows bs st))"
    by (auto simp: register_effect_def user_answer_ok error_answer_ok verdict_error split: sum.split prod.split)
  moreover have "answer_ok (broadcast_frame (broadcast_verdict fd bs st))"
    by (auto simp: broadcast_frame_def error_answer_ok verdict_error intro: broadcast_answer_ok
        split: sum.split prod.split)
  ultimately show ?thesis
    using assms
    by (auto simp: request_effect_def login_effect_def Let_def verdict_frame_def user_answer_ok
        error_answer_ok verdict_error split: if_splits sum.splits)
qed

lemma core_effect:
  assumes "core sq rows used st" "fd < get_size st" "has_flag (flags st ! fd) IS_ACTIVE"
    and "request_effect sq rows fd ty bs st = (f, st')"
  shows "core sq rows used st'"
proof -
  have "core sq rows used (snd (login_effect rows fd bs st))"
  proof (cases "login_verdict (account rows (db st)) bs")
    case (Inr a)
    then obtain k where "account rows (db st) k = Some a"
      by (auto simp: login_verdict_def split: option.splits if_splits)
    with core_authenticate [OF assms(1-3)] Inr show ?thesis by (simp add: login_effect_def)
  qed (simp add: login_effect_def assms(1))
  with assms(4) core_broadcast [OF assms(1), of fd bs] core_register [OF assms(1), of bs] assms(1)
  show ?thesis by (auto simp: request_effect_def Let_def split: if_splits)
qed

section \<open>The other connections stay quiet\<close>

definition undisturbed :: "nat \<Rightarrow> 'db server \<Rightarrow> 'db server \<Rightarrow> bool" where
  "undisturbed fd st st' \<longleftrightarrow> get_size st' = get_size st \<and>
     (\<forall>i < get_size st. (has_flag (flags st' ! i) IS_ACTIVE \<longleftrightarrow> has_flag (flags st ! i) IS_ACTIVE) \<and>
        (i \<noteq> fd \<longrightarrow> quiet st i \<longrightarrow> quiet st' i))"

lemma undisturbed_refl: "undisturbed fd st st"
  by (simp add: undisturbed_def)

lemma undisturbed_trans: "undisturbed fd st st' \<Longrightarrow> undisturbed fd st' st'' \<Longrightarrow> undisturbed fd st st''"
  by (simp add: undisturbed_def)

lemma undisturbed_same:
  assumes "get_size st' = get_size st"
    and "\<And>i. i < get_size st \<Longrightarrow> has_flag (flags st' ! i) IS_ACTIVE \<longleftrightarrow> has_flag (flags st ! i) IS_ACTIVE"
    and "\<And>i. i < get_size st \<Longrightarrow> i \<noteq> fd \<Longrightarrow> flags st' ! i = flags st ! i \<and>
      incoming_buffers st' ! i = incoming_buffers st ! i \<and> outgoing_buffers st' ! i = outgoing_buffers st ! i"
  shows "undisturbed fd st st'"
  using assms settled_cong(2) [of st' _ st] by (simp add: undisturbed_def)

lemma undisturbed_own:
  assumes "same_sizes st" "fd < get_size st"
  shows "undisturbed fd st (receive fd bs st)" "undisturbed fd st (queue fd r bs st)"
    "undisturbed fd st (transmit fd s l st)" "undisturbed fd st (mark fd c st)"
  by (rule undisturbed_same; use assms in \<open>simp add: table_simps state_flags_keep del: state_flags.simps\<close>)+

lemma undisturbed_authenticate:
  "fd < get_size st \<Longrightarrow> undisturbed fd st (authenticate fd a st)"
  by (rule undisturbed_same)
    (auto simp: authenticate_def get_size_def nth_list_update flag_simps)

lemma undisturbed_deliver:
  assumes "\<not> to fd"
  shows "undisturbed fd st (deliver to bs st)"
proof -
  have "quiet (deliver to bs st) i" if i: "i < get_size st" and q: "quiet st i" for i
  proof (cases "to i")
    case True
    with i q show ?thesis
      by (auto simp: quiet_def settled_def deliver_nth deliver_fields flag_simps)
  next
    case False
    with i q show ?thesis by (subst settled_cong(2) [of _ _ st]) (simp_all add: deliver_nth deliver_fields)
  qed
  then show ?thesis by (simp add: undisturbed_def deliver_fields deliver_auth)
qed

lemma undisturbed_effect:
  assumes "fd < get_size st" "request_effect sq rows fd ty bs st = (f, st')"
  shows "undisturbed fd st st'"
proof -
  have db: "undisturbed fd st (st\<lparr>db := d\<rparr>)" for d
    by (rule undisturbed_same) (simp_all add: get_size_def)
  have "undisturbed fd st (snd (register_effect sq rows bs st))"
    by (auto simp: register_effect_def undisturbed_refl db split: sum.split prod.split)
  moreover have "undisturbed fd st (snd (login_effect rows fd bs st))"
    using undisturbed_authenticate [OF assms(1)]
    by (simp add: login_effect_def Let_def undisturbed_refl split: sum.split)
  moreover have "undisturbed fd st (broadcast_effect (broadcast_verdict fd bs st) st)"
  proof (cases "broadcast_verdict fd bs st")
    case (Inr x)
    obtain g to where x: "x = (g, to)" by (cases x)
    with Inr broadcast_recipients [of fd bs st g to fd] have "\<not> to fd"
      by (auto simp: other_authenticated_def)
    with Inr x show ?thesis by (simp add: broadcast_effect_def undisturbed_deliver)
  qed (simp add: broadcast_effect_def undisturbed_refl)
  ultimately show ?thesis
    using assms(2) by (auto simp: request_effect_def Let_def undisturbed_refl split: if_splits)
qed

text \<open>A run of requests keeps the core, answers with frames and leaves the others quiet.\<close>

lemma run_requests_inv:
  assumes "core sq rows used st" "fd < get_size st" "has_flag (flags st ! fd) IS_ACTIVE"
    and "run_requests sq rows fd rqs st = (fs, st')"
  shows "core sq rows used st' \<and> list_all answer_ok fs \<and> undisturbed fd st st'"
proof -
  let ?I = "\<lambda>s. core sq rows used s \<and> fd < get_size s \<and> has_flag (flags s ! fd) IS_ACTIVE \<and> undisturbed fd st s"
  have step: "?I s' \<and> answer_ok f" if "?I s" "request_effect sq rows fd ty bs s = (f, s')" for ty bs s f s'
  proof -
    from that(1) have s: "core sq rows used s" "fd < get_size s" "has_flag (flags s ! fd) IS_ACTIVE"
      "undisturbed fd st s" by simp_all
    note u = undisturbed_effect [OF s(2) that(2)]
    from u s(2,3) have "fd < get_size s'" "has_flag (flags s' ! fd) IS_ACTIVE" by (simp_all add: undisturbed_def)
    with core_effect [OF s(1-3) that(2)] effect_answer_ok [OF that(2)] undisturbed_trans [OF s(4) u]
    show ?thesis by simp
  qed
  have "?I st" using assms(1-3) undisturbed_refl by blast
  then have "?I st' \<and> list_all answer_ok fs \<and> length fs = length rqs"
    by (rule run_effects_inv [OF _ _ assms(4) [unfolded run_requests_def], rotated]) (rule step)
  then show ?thesis by blast
qed

section \<open>Handlers\<close>

text \<open>What every handler of a connection keeps, and what reading and writing achieve for it.\<close>

definition step_ok :: "'db sqlite \<Rightarrow> ('db \<Rightarrow> user_row list) \<Rightarrow> nat list \<Rightarrow> nat \<Rightarrow> 'db server \<Rightarrow> 'db server \<Rightarrow> bool" where
  "step_ok sq rows used fd st st' \<longleftrightarrow> core sq rows used st' \<and> undisturbed fd st st'"

lemma step_okD:
  assumes "step_ok sq rows used fd st st'"
  shows "core sq rows used st'" "undisturbed fd st st'" "get_size st' = get_size st"
  using assms by (simp_all add: step_ok_def undisturbed_def)

lemma step_ok_trans:
  "step_ok sq rows used fd st st' \<Longrightarrow> step_ok sq rows used fd st' st'' \<Longrightarrow> step_ok sq rows used fd st st''"
  by (auto simp: step_ok_def intro: undisturbed_trans)

lemma step_ok_active:
  "step_ok sq rows used fd st st' \<Longrightarrow> fd < get_size st \<Longrightarrow> has_flag (flags st ! fd) IS_ACTIVE \<Longrightarrow>
   fd < get_size st' \<and> has_flag (flags st' ! fd) IS_ACTIVE"
  by (simp add: step_ok_def undisturbed_def)

lemma mark_step:
  "core sq rows used st \<Longrightarrow> fd < get_size st \<Longrightarrow> has_flag (flags st ! fd) IS_ACTIVE \<Longrightarrow>
   step_ok sq rows used fd st (mark fd c st)"
  by (simp add: step_ok_def core_mark undisturbed_own coreD)

lemma serve_step:
  assumes "core sq rows used st" "fd < get_size st" "has_flag (flags st ! fd) IS_ACTIVE"
  shows "step_ok sq rows used fd st (serve_spec sq rows fd st)"
    and "has_flag (flags (serve_spec sq rows fd st) ! fd) WANT_CLOSE \<or>
      next_request (incoming_buffers (serve_spec sq rows fd st) ! fd) = Incomplete"
proof -
  obtain rqs rest where sp: "split_requests (incoming_buffers st ! fd) = (rqs, rest)" by (rule prod.exhaust)
  obtain fs st1 where r: "run_requests sq rows fd rqs st = (fs, st1)" by (rule prod.exhaust)
  have run: "core sq rows used st1" "list_all answer_ok fs" "undisturbed fd st st1"
    using run_requests_inv [OF assms r] by blast+
  have fd1: "fd < get_size st1" "has_flag (flags st1 ! fd) IS_ACTIVE"
    using run(3) assms(2,3) by (simp_all add: undisturbed_def)
  let ?q = "queue fd rest (encode_frames fs) st1"
  have "core sq rows used ?q" by (rule core_queue [OF run(1) fd1(1) core_used [OF run(1) fd1] run(2)])
  moreover have "undisturbed fd st ?q"
    using undisturbed_trans [OF run(3)] undisturbed_own(2) [OF coreD(2) [OF run(1)] fd1(1)] by blast
  ultimately have q: "step_ok sq rows used fd st ?q" by (simp add: step_ok_def)
  have qfd: "fd < get_size ?q" "has_flag (flags ?q ! fd) IS_ACTIVE" using fd1 by (simp_all add: table_simps)
  have serve: "serve_spec sq rows fd st = (if next_request rest = Oversized then mark fd CLOSING ?q else ?q)"
    using sp r by (simp add: serve_spec_def)
  show "step_ok sq rows used fd st (serve_spec sq rows fd st)"
    using q step_ok_trans [OF q mark_step [OF step_okD(1) [OF q] qfd]] by (simp add: serve)
  have "next_request rest = Incomplete \<or> next_request rest = Oversized"
    by (rule split_requests_rest [OF sp])
  then show "has_flag (flags (serve_spec sq rows fd st) ! fd) WANT_CLOSE \<or>
      next_request (incoming_buffers (serve_spec sq rows fd st) ! fd) = Incomplete"
    using coreD(2) [OF run(1)] fd1 by (auto simp: serve table_simps flag_simps)
qed

lemma read_step:
  assumes "core sq rows used st" "fd < get_size st" "has_flag (flags st ! fd) IS_ACTIVE"
  shows "step_ok sq rows used fd st (read_effect sq rows fd bs ending st)"
    and "settled (read_effect sq rows fd bs ending st) fd"
proof -
  let ?r = "receive fd bs st"
  have r: "step_ok sq rows used fd st ?r"
    using core_receive [OF assms(1,2) core_used [OF assms]] undisturbed_own(1) [OF coreD(2) [OF assms(1)] assms(2)]
    by (simp add: step_ok_def)
  note rfd = step_ok_active [OF r assms(2,3)]
  note c = step_ok_trans [OF r mark_step [OF step_okD(1) [OF r]], of CLOSING]
  let ?s = "serve_spec sq rows fd ?r"
  note s = serve_step [OF step_okD(1) [OF r], of fd]
  have s1: "step_ok sq rows used fd st ?s" using s(1) rfd r by (blast intro: step_ok_trans)
  note sfd = step_ok_active [OF s1 assms(2,3)]
  note w = step_ok_trans [OF s1 mark_step [OF step_okD(1) [OF s1]], of WRITING]
  show "step_ok sq rows used fd st (read_effect sq rows fd bs ending st)"
    using c rfd s1 w sfd by (auto simp: read_effect_def Let_def split: read_end.split)
  show "settled (read_effect sq rows fd bs ending st) fd"
    using s(2) rfd sfd by (auto simp: read_effect_def Let_def settled_def table_simps flag_simps
        split: read_end.split)
qed

lemma write_step:
  assumes "core sq rows used st" "fd < get_size st" "has_flag (flags st ! fd) IS_ACTIVE"
  shows "step_ok sq rows used fd st (write_effect fd rooms ending st)"
    and "settled st fd \<Longrightarrow> settled (write_effect fd rooms ending st) fd"
proof -
  obtain s l e where d: "drain rooms (outgoing_buffers st ! fd) = (s, l, e)" by (rule prod_cases3)
  note parts = drain_parts [OF d]
  let ?t = "transmit fd s l st"
  have t: "step_ok sq rows used fd st ?t"
    using core_transmit [OF assms(1,2) core_used [OF assms]] parts
      undisturbed_own(3) [OF coreD(2) [OF assms(1)] assms(2)] by (simp add: step_ok_def)
  note tfd = step_ok_active [OF t assms(2,3)]
  have m: "step_ok sq rows used fd st (mark fd x ?t)" for x
    using step_ok_trans [OF t mark_step [OF step_okD(1) [OF t]]] tfd by blast
  have eff: "write_effect fd rooms ending st = (if e then mark fd READING ?t
      else case ending of Write_Error \<Rightarrow> mark fd CLOSING ?t | _ \<Rightarrow> ?t)"
    using d by (simp add: write_effect_def Let_def)
  show "step_ok sq rows used fd st (write_effect fd rooms ending st)"
    using t m by (auto simp: eff split: write_end.split)
  show "settled (write_effect fd rooms ending st) fd" if "settled st fd"
    using that parts coreD(2) [OF assms(1)] assms(2)
    by (auto simp: eff settled_def table_simps flag_simps split: write_end.split)
qed

section \<open>Opening and closing\<close>

lemma core_mono:
  assumes "core sq rows used st" "set used \<subseteq> set used'"
  shows "core sq rows used' st"
  using assms by (auto simp: core_def)

lemma core_remove:
  assumes "core sq rows used st" "remove_connection fd st = Some st'"
  shows "core sq rows used st'"
proof -
  note c = coreD [OF assms(1)]
  have inv: "table_inv st'" by (rule remove_connection_inv [OF c(1) assms(2)])
  from assms(2) have fd: "fd < get_size st"
    and st': "st' = st\<lparr>flags := (flags st)[fd := NONE], epoll := (epoll st)(fd := None)\<rparr>"
    by (simp_all add: remove_connection_Some)
  have fl: "flags st' ! i = (if i = fd then NONE else flags st ! i)" for i
    using fd by (simp add: st' get_size_def nth_list_update)
  have sz: "get_size st' = get_size st" by (simp add: st' get_size_def)
  show ?thesis
    using c sz fl by (intro coreI inv) (auto simp: framed_def identified_def untouched_def st')
qed

lemma add_connection_users:
  assumes "add_connection fd k st = Some (Running st')" "same_sizes st" "i < get_size st"
  shows "usernames st' ! i = usernames st ! i" "user_ids st' ! i = user_ids st ! i"
  using assms
  by (auto simp: add_connection_def same_sizes_def get_size_def Let_def put_eq_Some resize_nth
      bind_eq_Some_conv split: outcome.splits if_splits)

lemma add_connection_flags:
  assumes "add_connection fd k st = Some (Running st')" "ctl_rc k \<noteq> -1" "i < get_size st'"
  shows "flags st' ! i = (if i = fd then flag_or IS_ACTIVE WANT_READ
    else if i < get_size st then flags st ! i else NONE)"
  using add_connection_slot(2) [OF assms(1,2)] add_connection_slot(3) [OF assms(1-3)] by auto

lemma core_add:
  assumes "core sq rows used st" "add_connection fd k st = Some (Running st')" "ctl_rc k \<noteq> -1" "fd \<notin> set used"
  shows "core sq rows (used @ [fd]) st'"
proof -
  note c = coreD [OF assms(1)]
  note slot = add_connection_slot [OF assms(2,3)]
  note bufs = add_connection_buffers [OF assms(2) c(2)]
  note flag = add_connection_flags [OF assms(2,3)]
  have inv: "table_inv st'" by (rule add_connection_inv [OF c(1) assms(2)])
  have "framed st' i" if i: "i < get_size st'" for i
  proof (cases "i < get_size st")
    case True
    with c(4) [OF True] bufs(1) [OF i] slot(5) show ?thesis by (simp add: framed_def)
  next
    case False
    with c(6) [of i] bufs(1) [OF i] slot(5) show ?thesis
      unfolding framed_def by (intro exI [of _ "[]"]) simp
  qed
  moreover have "identified rows st' i" if i: "i < get_size st'" for i
    using c(5) [of i] add_connection_users [OF assms(2) c(2)] flag [OF i] slot(6)
    by (auto simp: identified_def flag_simps split: if_splits)
  moreover have "untouched st' i" if i: "i \<notin> set (used @ [fd])" for i
    using c(7) [of i] i flag [of i] bufs [of i] slot(5) by (auto simp: untouched_def)
  ultimately show ?thesis
    using c(3,6) slot by (intro coreI inv) auto
qed

lemma quiet_add:
  assumes "core sq rows used st" "\<And>i. i < get_size st \<Longrightarrow> quiet st i"
    and "add_connection fd k st = Some (Running st')" "ctl_rc k \<noteq> -1" "fd \<notin> set used" "i < get_size st'"
  shows "quiet st' i"
proof -
  note c = coreD [OF assms(1)]
  note bufs = add_connection_buffers [OF assms(3) c(2) assms(6)]
  note flag = add_connection_flags [OF assms(3,4,6)]
  consider "i = fd" | "i \<noteq> fd" "i < get_size st" | "i \<noteq> fd" "\<not> i < get_size st" by blast
  then show ?thesis
  proof cases
    case 1
    with c(7) assms(5) have "untouched st i" by blast
    with 1 bufs flag show ?thesis
      by (auto simp: quiet_def settled_def untouched_def next_request_def flag_simps)
  next
    case 2
    with assms(2) settled_cong(2) [of st' i st] bufs flag show ?thesis by simp
  qed (use flag in \<open>simp add: quiet_def\<close>)
qed

lemma server_inv_add:
  assumes "server_inv sq rows used st" "add_connection fd k st = Some (Running st')" "fd \<notin> set used"
  shows "server_inv sq rows (used @ [fd]) st'"
proof (cases "ctl_rc k = -1")
  case True
  with assms(2) have "st' = st" by (auto simp: add_connection_def split: outcome.splits)
  with assms(1) show ?thesis by (auto simp: server_inv_def intro: core_mono)
next
  case False
  with assms core_add [of sq rows used st fd k st'] quiet_add [of sq rows used st fd k st']
  show ?thesis by (auto simp: server_inv_def)
qed

lemma accept_inv:
  assumes "server_inv sq rows used st" "distinct (map fst conns)" "set (map fst conns) \<inter> set used = {}"
    and "accept_all_connections conns ending st = Some (Running st')"
  shows "server_inv sq rows (used @ map fst conns) st'"
  using assms
proof (induction conns ending st arbitrary: used rule: accept_all_connections.induct)
  case (1 ending st)
  then show ?case by (cases ending) simp_all
next
  case (2 conn_fd k conns ending st)
  from "2.prems"(4) obtain st1 where add: "add_connection conn_fd k st = Some (Running st1)"
    and rest: "accept_all_connections conns ending st1 = Some (Running st')"
    by (cases "add_connection conn_fd k st" rule: option.exhaust) (auto split: outcome.splits)
  have "server_inv sq rows (used @ [conn_fd]) st1"
    using server_inv_add [OF "2.prems"(1) add] "2.prems"(3) by auto
  from "2.IH" [OF add refl this _ _ rest] "2.prems"(2,3) show ?case by auto
qed

lemma accept_total: "\<exists>r. accept_all_connections conns ending st = Some r"
proof (induction conns ending st rule: accept_all_connections.induct)
  case (1 ending st)
  then show ?case by (cases ending) simp_all
next
  case (2 fd k conns ending st)
  obtain r where r: "add_connection fd k st = Some r" using add_connection_total [of fd k st] by blast
  with 2 show ?case by (cases r) auto
qed

section \<open>Events\<close>

text \<open>
  The events the kernel can report: a connection event only for a registered descriptor, and
  \<open>accept\<close> only returns descriptors that are not in use. The server never closes a connection's
  socket, so a descriptor once returned stays in use. Descriptors stay below the range of an \<open>int\<close>,
  so the table does, and the sizes the system reports of the process are below \<open>2 ^ 63\<close> bytes. A read of
  the console that is no end of file returns at least one byte, any byte.
\<close>

fun event_fds :: "event \<Rightarrow> nat list" where
  "event_fds (Listen_Ready _ conns _) = map fst conns"
| "event_fds _ = []"

fun possible :: "nat list \<Rightarrow> 'db server \<Rightarrow> event \<Rightarrow> bool" where
  "possible used st (Listen_Ready _ conns _) \<longleftrightarrow>
     distinct (map fst conns) \<and> list_all (\<lambda>fd. fd \<notin> set used \<and> fd < 2 ^ 31 - 1) (map fst conns)"
| "possible used st (Stdin_Ready _ src answers _) \<longleftrightarrow>
     get_size st < 2 ^ 31 \<and> get_memory_usage src \<noteq> None \<and>
     list_all (\<lambda>a. case a of Stdin_Data bs \<Rightarrow> bs \<noteq> [] | Stdin_Interrupted \<Rightarrow> True) answers"
| "possible used st (Conn_Ready fd _ _ _ _ _) \<longleftrightarrow> epoll st fd \<noteq> None"

text \<open>A console read that begins with a NUL, served by \<open>handle_server_input\<close>.\<close>

fun nul_read :: "event \<Rightarrow> bool" where
  "nul_read (Stdin_Ready err _ answers _) \<longleftrightarrow> \<not> err \<and> starts_with_nul answers"
| "nul_read (Listen_Ready _ _ _) \<longleftrightarrow> False"
| "nul_read (Conn_Ready _ _ _ _ _ _) \<longleftrightarrow> False"

text \<open>The three phases of a connection's event as one function.\<close>

definition conn_effect ::
  "'db sqlite \<Rightarrow> ('db \<Rightarrow> user_row list) \<Rightarrow> nat \<Rightarrow> bool \<Rightarrow> bytes \<Rightarrow> read_end \<Rightarrow> nat list \<Rightarrow> write_end
     \<Rightarrow> 'db server \<Rightarrow> 'db server" where
  "conn_effect sq rows fd err bs re rooms we st =
     (let st = (if has_flag (flags st ! fd) WANT_READ then read_effect sq rows fd bs re st else st);
          st = (if has_flag (flags st ! fd) WANT_WRITE then write_effect fd rooms we st else st)
      in if err \<or> has_flag (flags st ! fd) WANT_CLOSE
         then st\<lparr>flags := (flags st)[fd := NONE], epoll := (epoll st)(fd := None)\<rparr> else st)"

text \<open>Whether the event ends in \<open>SIGPIPE\<close> instead.\<close>

definition conn_killed ::
  "'db sqlite \<Rightarrow> ('db \<Rightarrow> user_row list) \<Rightarrow> nat \<Rightarrow> bytes \<Rightarrow> read_end \<Rightarrow> nat list \<Rightarrow> write_end \<Rightarrow> 'db server \<Rightarrow> bool" where
  "conn_killed sq rows fd bs re rooms we st =
     (let st = (if has_flag (flags st ! fd) WANT_READ then read_effect sq rows fd bs re st else st)
      in has_flag (flags st ! fd) WANT_WRITE \<and> pipe_breaks rooms we (outgoing_buffers st ! fd))"

definition conn_outcome ::
  "'db sqlite \<Rightarrow> ('db \<Rightarrow> user_row list) \<Rightarrow> nat \<Rightarrow> bool \<Rightarrow> bytes \<Rightarrow> read_end \<Rightarrow> nat list \<Rightarrow> write_end
     \<Rightarrow> 'db server \<Rightarrow> 'db server outcome" where
  "conn_outcome sq rows fd err bs re rooms we st =
     (if conn_killed sq rows fd bs re rooms we st then Exited (Signalled SIGPIPE)
      else Running (conn_effect sq rows fd err bs re rooms we st))"

lemma conn_outcome_running [simp]:
  "we \<noteq> Write_Broken_Pipe \<Longrightarrow>
   conn_outcome sq rows fd err bs re rooms we st = Running (conn_effect sq rows fd err bs re rooms we st)"
  by (simp add: conn_outcome_def conn_killed_def pipe_breaks_def Let_def)

text \<open>The first two phases lead to a state the last one either keeps or takes the connection out of.\<close>

lemma conn_phases:
  fixes chunks :: "bytes list" and rooms :: "nat list"
    and err :: bool and re :: read_end and we :: write_end
  assumes "server_inv sq rows used st" "fd < get_size st" "has_flag (flags st ! fd) IS_ACTIVE"
  obtains st2 where "step_ok sq rows used fd st st2" "settled st2 fd"
    and "conn_effect sq rows fd err (concat chunks) re rooms we st =
      (if err \<or> has_flag (flags st2 ! fd) WANT_CLOSE
       then st2\<lparr>flags := (flags st2)[fd := NONE], epoll := (epoll st2)(fd := None)\<rparr> else st2)"
    and "handle_event sq (Conn_Ready fd err chunks re rooms we) st =
      Some (conn_outcome sq rows fd err (concat chunks) re rooms we st)"
proof -
  from assms(1) have core: "core sq rows used st" and "quiet st fd"
    using assms(2) by (simp_all add: server_inv_def)
  define st1 where "st1 = (if has_flag (flags st ! fd) WANT_READ
    then read_effect sq rows fd (concat chunks) re st else st)"
  have settled: "settled st fd" using \<open>quiet st fd\<close> assms(3) by (simp add: quiet_def)
  have s1: "step_ok sq rows used fd st st1" "settled st1 fd"
    using read_step [OF core assms(2,3)] settled core
    by (auto simp: st1_def step_ok_def undisturbed_refl)
  note fd1 = step_ok_active [OF s1(1) assms(2,3)]
  define st2 where "st2 = (if has_flag (flags st1 ! fd) WANT_WRITE then write_effect fd rooms we st1 else st1)"
  have s2: "step_ok sq rows used fd st st2" "settled st2 fd"
    using write_step [OF step_okD(1) [OF s1(1)]] fd1 s1
    by (auto simp: st2_def intro: step_ok_trans)
  note fd2 = step_ok_active [OF s2(1) assms(2,3)]
  note c = coreD [OF core] and c1 = coreD [OF step_okD(1) [OF s1(1)]]
  have st': "conn_effect sq rows fd err (concat chunks) re rooms we st =
      (if err \<or> has_flag (flags st2 ! fd) WANT_CLOSE
       then st2\<lparr>flags := (flags st2)[fd := NONE], epoll := (epoll st2)(fd := None)\<rparr> else st2)"
    by (simp add: conn_effect_def flip: st1_def st2_def)
  have "(if has_flag (flags st ! fd) WANT_READ then handle_read_connection sq fd chunks re st else Some st) = Some st1"
    using handle_read_effect [OF c(2) assms(2) c(3)] by (simp add: st1_def)
  moreover have "(if has_flag (flags st1 ! fd) WANT_WRITE then handle_write_connection fd rooms we st1 else Some (Running st1)) =
      Some (if conn_killed sq rows fd (concat chunks) re rooms we st then Exited (Signalled SIGPIPE) else Running st2)"
    using handle_write_effect [OF c1(2)] fd1
    by (simp add: st2_def write_outcome_def conn_killed_def flip: st1_def)
  moreover have "fd < length (flags st)" "fd < length (flags st1)" "fd < length (flags st2)"
    using assms(2) fd1 fd2 by (simp_all add: get_size_def)
  ultimately have "handle_event sq (Conn_Ready fd err chunks re rooms we) st =
      Some (conn_outcome sq rows fd err (concat chunks) re rooms we st)"
    by (simp add: at_in remove_connection_def put_in st' conn_outcome_def)
  with s2 st' show thesis by (rule that)
qed

text \<open>Taking a connection out leaves the others as they are.\<close>

lemma removed_inv:
  assumes "core sq rows used st" "fd < get_size st" "\<And>i. i < get_size st \<Longrightarrow> i \<noteq> fd \<Longrightarrow> quiet st i"
  shows "server_inv sq rows used (st\<lparr>flags := (flags st)[fd := NONE], epoll := (epoll st)(fd := None)\<rparr>)"
proof -
  let ?st = "st\<lparr>flags := (flags st)[fd := NONE], epoll := (epoll st)(fd := None)\<rparr>"
  have fl: "flags ?st ! i = (if i = fd then NONE else flags st ! i)" for i
    using assms(2) by (simp add: get_size_def nth_list_update)
  have "quiet ?st i" if "i < get_size st" for i
    using that assms(3) [OF that] fl [of i] settled_cong(2) [of ?st i st]
    by (cases "i = fd") (simp_all add: quiet_def)
  with core_remove [OF assms(1), of fd ?st] assms(2) show ?thesis
    by (simp add: server_inv_def remove_connection_Some get_size_def)
qed

lemma conn_event:
  fixes chunks :: "bytes list" and rooms :: "nat list"
    and err :: bool and re :: read_end and we :: write_end
  assumes "server_inv sq rows used st" "fd < get_size st" "has_flag (flags st ! fd) IS_ACTIVE"
  defines "st' \<equiv> conn_effect sq rows fd err (concat chunks) re rooms we st"
  shows "handle_event sq (Conn_Ready fd err chunks re rooms we) st =
      Some (conn_outcome sq rows fd err (concat chunks) re rooms we st)"
    and "server_inv sq rows used st'"
    and "\<forall>i < get_size st. i \<noteq> fd \<longrightarrow>
      (has_flag (flags st' ! i) IS_ACTIVE \<longleftrightarrow> has_flag (flags st ! i) IS_ACTIVE)"
    and "get_size st' = get_size st"
proof -
  obtain st2 where s2: "step_ok sq rows used fd st st2" "settled st2 fd"
    and st': "st' = (if err \<or> has_flag (flags st2 ! fd) WANT_CLOSE
      then st2\<lparr>flags := (flags st2)[fd := NONE], epoll := (epoll st2)(fd := None)\<rparr> else st2)"
    and run: "handle_event sq (Conn_Ready fd err chunks re rooms we) st =
      Some (conn_outcome sq rows fd err (concat chunks) re rooms we st)"
    unfolding st'_def by (rule conn_phases [OF assms(1-3)])
  show "handle_event sq (Conn_Ready fd err chunks re rooms we) st =
      Some (conn_outcome sq rows fd err (concat chunks) re rooms we st)" by (rule run)
  note fd2 = step_ok_active [OF s2(1) assms(2,3)] and d = step_okD [OF s2(1)]
  have q2: "quiet st2 i" if "i < get_size st2" "i \<noteq> fd" for i
    using that d(2) assms(1) by (simp add: undisturbed_def server_inv_def)
  with removed_inv [OF d(1) _ q2] fd2 s2(2) d(1) show "server_inv sq rows used st'"
    unfolding st' by (cases "err \<or> has_flag (flags st2 ! fd) WANT_CLOSE") (auto simp: server_inv_def quiet_def)
  show "get_size st' = get_size st" using d(3) by (simp add: st' get_size_def)
  show "\<forall>i < get_size st. i \<noteq> fd \<longrightarrow>
      (has_flag (flags st' ! i) IS_ACTIVE \<longleftrightarrow> has_flag (flags st ! i) IS_ACTIVE)"
    using d(2) by (simp add: st' undisturbed_def)
qed

lemma conn_running:
  assumes "server_inv sq rows used st" "fd < get_size st" "has_flag (flags st ! fd) IS_ACTIVE"
    and "handle_event sq (Conn_Ready fd err chunks re rooms we) st = Some (Running st')"
  shows "st' = conn_effect sq rows fd err (concat chunks) re rooms we st"
  using conn_event(1) [OF assms(1-3), of err chunks re rooms we] assms(4)
  by (simp add: conn_outcome_def del: handle_event.simps split: if_splits)

text \<open>
  Every possible event but a console read that begins with a NUL is handled within the memory of the
  server, and keeps the invariant.
\<close>

lemma handle_event_total:
  assumes "server_inv sq rows used st" "possible used st ev"
  shows "handle_event sq ev st = None \<longleftrightarrow> nul_read ev"
proof (cases ev)
  case (Listen_Ready err conns ending)
  then show ?thesis using accept_total [of conns ending st] by simp
next
  case (Stdin_Ready err src answers ending)
  with assms(2) obtain mem where mem: "get_memory_usage src = Some mem" "get_size st < 2 ^ 31" by auto
  obtain c a where ca: "count_connections (flags st) (0, 0) = (c, a)" by (rule prod.exhaust)
  have "c \<le> get_size st" "a \<le> get_size st"
    using ca count_connections_filter [of "flags st" 0 0]
    by (auto simp: get_size_def)
  with log_server_metrics_report [OF ca _ _ mem(1)] mem(2) have "log_server_metrics (flags st) src \<noteq> None" by simp
  from handle_server_input_undefined [OF this, of answers ending] Stdin_Ready show ?thesis
    by (cases "handle_server_input (flags st) src answers ending") simp_all
next
  case (Conn_Ready fd err chunks re rooms we)
  from assms have inv: "table_inv st" by (simp add: server_inv_def core_def)
  from assms(2) Conn_Ready have "epoll st fd \<noteq> None" by simp
  with table_inv_registered [OF inv, of fd] table_inv_slot [OF inv, of fd]
  have "fd < get_size st" "has_flag (flags st ! fd) IS_ACTIVE" using slot_ok_reg by blast+
  from conn_event(1) [OF assms(1) this] Conn_Ready show ?thesis by simp
qed

lemma handle_event_inv:
  assumes "server_inv sq rows used st" "possible used st ev" "handle_event sq ev st = Some (Running st')"
  shows "server_inv sq rows (used @ event_fds ev) st'"
proof (cases ev)
  case (Listen_Ready err conns ending)
  with assms show ?thesis
    by (auto simp: list_all_iff split: if_splits intro!: accept_inv [of sq rows used st])
next
  case (Stdin_Ready err src answers ending)
  with assms show ?thesis by (auto simp: bind_eq_Some_conv split: if_splits)
next
  case (Conn_Ready fd err chunks re rooms we)
  from assms have inv: "table_inv st" by (simp add: server_inv_def core_def)
  from assms(2) Conn_Ready have "epoll st fd \<noteq> None" by simp
  with table_inv_registered [OF inv, of fd] table_inv_slot [OF inv, of fd]
  have "fd < get_size st" "has_flag (flags st ! fd) IS_ACTIVE" using slot_ok_reg by blast+
  note e = conn_event [OF assms(1) this, of err chunks re rooms we]
  have "st' = conn_effect sq rows fd err (concat chunks) re rooms we st"
    using conn_running [OF assms(1) \<open>fd < get_size st\<close> \<open>has_flag (flags st ! fd) IS_ACTIVE\<close>] assms(3) Conn_Ready
    by (simp del: handle_event.simps)
  with e(2) Conn_Ready show ?thesis by simp
qed

section \<open>The running server\<close>

inductive server_step :: "'db sqlite \<Rightarrow> nat list \<times> 'db server \<Rightarrow> nat list \<times> 'db server \<Rightarrow> bool"
  for sq :: "'db sqlite" where
  event: "possible used st ev \<Longrightarrow> handle_event sq ev st = Some (Running st') \<Longrightarrow>
    server_step sq (used, st) (used @ event_fds ev, st')"

inductive reachable :: "'db sqlite \<Rightarrow> 'db \<Rightarrow> nat list \<times> 'db server \<Rightarrow> bool"
  for sq :: "'db sqlite" and d :: 'db where
  start: "reachable sq d ([], initial_server d)"
| step: "reachable sq d c \<Longrightarrow> server_step sq c c' \<Longrightarrow> reachable sq d c'"

inductive_cases server_stepE: "server_step sq (used, st) c'"

lemma initial_server_quiet:
  assumes "db_ok sq rows d"
  shows "server_inv sq rows [] (initial_server d)"
proof -
  have "core sq rows [] (initial_server d)"
    using assms initial_server_inv [of d]
    by (intro coreI) (auto simp: framed_def identified_def untouched_def initial_server_fields
        get_size_def intro: exI [of _ "[]"])
  then show ?thesis
    by (simp add: server_inv_def quiet_def get_size_def initial_server_fields)
qed

lemma reachable_inv:
  assumes "reachable sq d c" "db_ok sq rows d"
  shows "server_inv sq rows (fst c) (snd c)"
  using assms(1)
proof (induction rule: reachable.induct)
  case start
  show ?case using initial_server_quiet [OF assms(2)] by simp
next
  case (step c c')
  obtain used st where c: "c = (used, st)" by (cases c)
  from step.hyps(2) [unfolded c] show ?case
    using step.IH c by (auto elim!: server_stepE intro: handle_event_inv)
qed

section \<open>One request over the wire\<close>

text \<open>
  An idle reading connection that receives frames while its socket accepts nothing back: the
  requests have their effects and the answers are queued.
\<close>

lemma frames_event:
  assumes "server_inv sq rows used st" "fd < get_size st"
    and "has_flag (flags st ! fd) IS_ACTIVE" "has_flag (flags st ! fd) WANT_READ"
    and "incoming_buffers st ! fd = []" "list_all frame_ok fs" "fs \<noteq> []" "f_payload (last fs) \<noteq> []"
    and "concat chunks = encode_frames fs"
    and "run_requests sq rows fd (map request_of fs) st = (gs, st1)"
    and "\<not> has_flag (flags st1 ! fd) WANT_CLOSE"
  shows "handle_event sq (Conn_Ready fd False chunks Read_Would_Block [] Write_Would_Block) st =
    Some (Running (mark fd WRITING (queue fd [] (encode_frames gs) st1)))"
proof -
  from assms(1) have core: "core sq rows used st" by (simp add: server_inv_def)
  note c = coreD [OF core]
  note run = run_requests_kept [OF assms(10) c(3)]
  have k: "same_sizes st1" "fd < get_size st1" using keptD [OF run(1)] c(2) assms(2) by simp_all
  let ?q = "queue fd [] (encode_frames gs) st1"
  have "gs \<noteq> []" using run(3) assms(7) by auto
  then have "encode_frames gs \<noteq> []" by (cases gs) (simp_all add: encode_frame_def)
  then have "read_effect sq rows fd (encode_frames fs) Read_Would_Block st = mark fd WRITING ?q"
    using serve_frames [OF c(2) assms(2) c(3) assms(5,6) _ assms(10)] assms(8) k
    by (simp add: read_effect_def Let_def table_simps)
  moreover have "write_effect fd [] Write_Would_Block (mark fd WRITING ?q) = mark fd WRITING ?q"
    by (simp add: write_effect_def) (simp add: transmit_def)
  ultimately show ?thesis
    using conn_event(1) [OF assms(1-3), of False chunks Read_Would_Block "[]" Write_Would_Block]
      assms(4,9,11) k
    by (simp add: conn_effect_def table_simps flag_simps del: handle_event.simps)
qed

lemma one_frame_event:
  assumes "server_inv sq rows used st" "fd < get_size st"
    and "has_flag (flags st ! fd) IS_ACTIVE" "has_flag (flags st ! fd) WANT_READ"
    and "incoming_buffers st ! fd = []" "frame_ok f" "f_payload f \<noteq> []" "concat chunks = encode_frame f"
    and "request_effect sq rows fd (f_type f) (f_payload f) st = (g, st1)"
    and "\<not> has_flag (flags st1 ! fd) WANT_CLOSE"
  shows "handle_event sq (Conn_Ready fd False chunks Read_Would_Block [] Write_Would_Block) st =
    Some (Running (mark fd WRITING (queue fd [] (encode_frame g) st1)))"
  using frames_event [OF assms(1-5), of "[f]" chunks "[g]" st1] assms(6-10)
  by (simp add: request_of_def del: handle_event.simps)

lemma login_event:
  assumes "server_inv sq rows used st" "fd < get_size st"
    and "has_flag (flags st ! fd) IS_ACTIVE" "has_flag (flags st ! fd) WANT_READ"
    and "\<not> has_flag (flags st ! fd) WANT_CLOSE" "incoming_buffers st ! fd = []"
    and "concat chunks = encode_frame \<lparr>f_version = v, f_type = mtype LOGIN, f_rc = r, f_payload = pl\<rparr>"
    and "pl \<noteq> []" "length pl \<le> MSG_MAX_PAYLOAD_SIZE"
    and "login_verdict (account rows (db st)) pl = Inr a"
  shows "\<exists>st'. handle_event sq (Conn_Ready fd False chunks Read_Would_Block [] Write_Would_Block) st =
      Some (Running st') \<and>
    has_flag (flags st' ! fd) IS_AUTH \<and> usernames st' ! fd = username a \<and> user_ids st' ! fd = user_id a \<and>
    outgoing_buffers st' ! fd = outgoing_buffers st ! fd @ encode_frame (request_frame LOGIN (user_tlvs a)) \<and>
    fd < get_size st' \<and> has_flag (flags st' ! fd) WANT_WRITE"
proof -
  let ?f = "\<lparr>f_version = v, f_type = mtype LOGIN, f_rc = r, f_payload = pl\<rparr>"
  let ?a = "authenticate fd a st"
  from assms(1) have core: "core sq rows used st" by (simp add: server_inv_def)
  have sz: "same_sizes st" "same_sizes ?a" "get_size ?a = get_size st"
    using coreD(2) [OF core] keptD [OF kept_authenticate [of st fd a]] by simp_all
  have eff: "request_effect sq rows fd (f_type ?f) (f_payload ?f) st =
      (request_frame LOGIN (user_tlvs a), ?a)"
    using assms(10) by (simp add: request_effect_def login_effect_def verdict_frame_def)
  have fl: "flags ?a ! fd = flag_or_assign (flags st ! fd) IS_AUTH"
    "usernames ?a ! fd = username a" "user_ids ?a ! fd = user_id a"
    "outgoing_buffers ?a ! fd = outgoing_buffers st ! fd"
    using sz(1) assms(2) by (simp_all add: authenticate_def same_sizes_def get_size_def)
  have "\<not> has_flag (flags ?a ! fd) WANT_CLOSE" using assms(5) by (simp add: fl flag_simps)
  from one_frame_event [OF assms(1-4,6) _ _ assms(7) eff this] assms(2,8,9) sz fl
  show ?thesis by (simp add: frame_ok_def table_simps flag_simps del: handle_event.simps)
qed

end
