(* ===== verification/Server_Main.thy ===== *)
theory Server_Main
  imports Start_Up Server_Invariant
begin

text \<open>
  \<open>main\<close> of \<open>src/server.cpp\<close>: the set-up on the process state of \<open>Process\<close> and the loop over the
  answers of \<open>epoll_wait\<close>. What the kernel can answer is \<open>feasible\<close>: each batch holds each ready
  descriptor once and at most \<open>MAX_EVENTS\<close> of them. Such a run only visits reachable states, and
  what ends it is \<open>explained\<close> by what happened.
\<close>

section \<open>The set-up\<close>

text \<open>The answers of the system calls, in the order of the calls.\<close>

record boot =
  listen_part :: listen_answers
  epoll_create_rc :: int
  ctl_listen_rc :: int
  stdin_nonblock :: admission
  ctl_stdin_rc :: int

text \<open>A server that is ready: its sockets, whether it watches its terminal, and whether it logs.\<close>

record ready =
  ready_listenfd :: int
  ready_epollfd :: int
  watches_stdin :: bool
  logs :: bool

text \<open>
  \<open>main\<close> up to its loop. A \<open>return\<close> and an \<open>exit\<close> both end the process; \<open>None\<close> is an argument whose
  number is no \<open>int\<close>. The database is the one the server runs with.
\<close>

definition start_server ::
  "'db sqlite \<Rightarrow> bytes list \<Rightarrow> boot \<Rightarrow> process \<Rightarrow> (('db \<times> ready) outcome \<times> process) option" where
  "start_server sq argv k p =
     (if length argv \<noteq> 4 then Some (Exited (Status (-1)), p)
      else do {
        enable_logging \<leftarrow> atoi (argv ! 3);
        let (rc, should_log) = init_logger enable_logging False;
        if rc \<noteq> 0 then Some (Exited (Status (-1)), p)
        else do {
          is_test \<leftarrow> atoi (argv ! 2);
          let (r, d, p) = init_server sq is_test (listen_part k) p;
          (case r of
             Exited code \<Rightarrow> Some (Exited code, p)
           | Running listenfd \<Rightarrow>
               if listenfd < 0 then Some (Exited (Status (-1)), p)
               else let epollfd = epoll_create_rc k in
               if epollfd = -1 then Some (Exited (Status (-1)), p)
               else let p = acquire epollfd p in
               if ctl_listen_rc k = -1 then Some (Exited (Status (-1)), p)
               else let w = \<lparr>ready_listenfd = listenfd, ready_epollfd = epollfd, watches_stdin = False, logs = should_log\<rparr> in
               if is_test \<noteq> 0 then Some (Running (d, w), p)
               else (case set_nonblocking_fd (stdin_nonblock k) of
                  Exited code \<Rightarrow> Some (Exited code, p)
                | Running _ \<Rightarrow>
                    let p = p\<lparr>nonblocking := 0 # nonblocking p\<rparr> in
                    if ctl_stdin_rc k = -1 then Some (Exited (Status (-1)), p)
                    else Some (Running (d, w\<lparr>watches_stdin := True\<rparr>), p))) } })"

section \<open>The loop\<close>

definition MAX_EVENTS :: nat where "MAX_EVENTS = 64"

text \<open>An answer of \<open>epoll_wait\<close>.\<close>

datatype poll = Poll_Failed | Poll "event list"

fun main_loop :: "'db sqlite \<Rightarrow> poll list \<Rightarrow> 'db server \<Rightarrow> 'db server outcome option" where
  "main_loop sq [] st = Some (Running st)"
| "main_loop sq (Poll_Failed # ps) st = Some (Exited (Status (-1)))"
| "main_loop sq (Poll evs # ps) st = do {
     r \<leftarrow> handle_events sq evs st;
     (case r of Exited code \<Rightarrow> Some (Exited code) | Running st \<Rightarrow> main_loop sq ps st) }"

text \<open>The whole program, for as long as \<open>epoll_wait\<close> has answered.\<close>

definition server_main ::
  "'db sqlite \<Rightarrow> bytes list \<Rightarrow> boot \<Rightarrow> poll list \<Rightarrow> process \<Rightarrow> ('db server outcome \<times> process) option" where
  "server_main sq argv k ps p = do {
     (r, p) \<leftarrow> start_server sq argv k p;
     (case r of
        Exited code \<Rightarrow> Some (Exited code, p)
      | Running (d, w) \<Rightarrow> do { r \<leftarrow> main_loop sq ps (initial_server d); Some (r, p) }) }"

section \<open>What epoll can answer\<close>

datatype source = Listener | Terminal | Socket nat

fun event_source :: "event \<Rightarrow> source" where
  "event_source (Listen_Ready _ _ _) = Listener"
| "event_source (Stdin_Ready _ _ _ _) = Terminal"
| "event_source (Conn_Ready fd _ _ _ _ _) = Socket fd"

text \<open>
  One batch: at most \<open>MAX_EVENTS\<close> descriptors, each once, each possible in the state the batch was
  taken in; the terminal only when it is watched.
\<close>

definition batch_possible :: "bool \<Rightarrow> nat list \<Rightarrow> 'db server \<Rightarrow> event list \<Rightarrow> bool" where
  "batch_possible watched used st evs \<longleftrightarrow>
     length evs \<le> MAX_EVENTS \<and> distinct (map event_source evs) \<and> list_all (possible used st) evs \<and>
     (Terminal \<in> set (map event_source evs) \<longrightarrow> watched)"

definition batch_fds :: "event list \<Rightarrow> nat list" where
  "batch_fds evs = concat (map event_fds evs)"

fun feasible :: "'db sqlite \<Rightarrow> bool \<Rightarrow> nat list \<Rightarrow> 'db server \<Rightarrow> poll list \<Rightarrow> bool" where
  "feasible sq watched used st [] \<longleftrightarrow> True"
| "feasible sq watched used st (Poll_Failed # ps) \<longleftrightarrow> True"
| "feasible sq watched used st (Poll evs # ps) \<longleftrightarrow> batch_possible watched used st evs \<and>
     (case handle_events sq evs st of
        Some (Running st') \<Rightarrow> feasible sq watched (used @ batch_fds evs) st' ps
      | _ \<Rightarrow> True)"

section \<open>Handling one descriptor leaves the others ready\<close>

lemma accept_keeps:
  assumes "accept_all_connections conns ending st = Some (Running st')"
  shows "(epoll st i \<noteq> None \<longrightarrow> epoll st' i \<noteq> None) \<and>
    (get_size st < n \<and> list_all (\<lambda>fd. fd + 1 < n) (map fst conns) \<longrightarrow> get_size st' < n)"
  using assms
proof (induction conns ending st rule: accept_all_connections.induct)
  case (1 ending st)
  then show ?case by (cases ending) simp_all
next
  case (2 fd k conns ending st)
  from 2(2) obtain st1 where add: "add_connection fd k st = Some (Running st1)"
    and rest: "accept_all_connections conns ending st1 = Some (Running st')"
    by (cases "add_connection fd k st" rule: option.exhaust) (auto split: outcome.splits)
  have "(epoll st i \<noteq> None \<longrightarrow> epoll st1 i \<noteq> None) \<and> (get_size st1 \<le> max (get_size st) (Suc fd))"
  proof (cases "ctl_rc k = -1")
    case True
    with add have "st1 = st" by (auto simp: add_connection_def split: outcome.splits)
    then show ?thesis by simp
  next
    case False
    with add_connection_slot [OF add] show ?thesis by simp
  qed
  with "2.IH" [OF add refl rest] show ?case by auto
qed

lemma active_registered:
  assumes "server_inv sq rows used st"
  shows "epoll st i \<noteq> None \<longleftrightarrow> i < get_size st \<and> has_flag (flags st ! i) IS_ACTIVE"
proof -
  from assms have inv: "table_inv st" by (simp add: server_inv_def core_def)
  show ?thesis
    using table_inv_registered [OF inv, of i] slot_ok_reg [OF table_inv_slot [OF inv, of i]] by blast
qed

lemma conn_keeps:
  assumes "server_inv sq rows used st" "epoll st fd \<noteq> None"
    and "handle_event sq (Conn_Ready fd err chunks re rooms we) st = Some (Running st')"
  shows "get_size st' = get_size st" "i \<noteq> fd \<Longrightarrow> epoll st i \<noteq> None \<Longrightarrow> epoll st' i \<noteq> None"
proof -
  from active_registered [OF assms(1), of fd] assms(2)
  have fd: "fd < get_size st" "has_flag (flags st ! fd) IS_ACTIVE" by simp_all
  note e = conn_event [OF assms(1) fd, of err chunks re rooms we]
  have st': "st' = conn_effect sq rows fd err (concat chunks) re rooms we st"
    by (rule conn_running [OF assms(1) fd assms(3)])
  show "get_size st' = get_size st" using e(4) st' by simp
  show "epoll st' i \<noteq> None" if "i \<noteq> fd" "epoll st i \<noteq> None"
    using that e(2-4) active_registered [OF assms(1), of i] active_registered [OF e(2), of i] st' by simp
qed

lemma possible_other:
  assumes "server_inv sq rows used st" "possible used st ev" "possible used st e"
    and "event_source e \<noteq> event_source ev" "handle_event sq ev st = Some (Running st')"
  shows "possible (used @ event_fds ev) st' e"
proof (cases ev)
  case (Listen_Ready err conns ending)
  with assms(5) have acc: "accept_all_connections conns ending st = Some (Running st')"
    by (simp split: if_splits)
  have "list_all (\<lambda>fd. fd + 1 < 2 ^ 31) (map fst conns)"
    using assms(2) Listen_Ready by (auto simp: list_all_iff)
  with accept_keeps [OF acc] assms(3,4) Listen_Ready show ?thesis by (cases e) simp_all
next
  case (Stdin_Ready err src answers ending)
  with assms(5) have "st' = st" by (auto simp: bind_eq_Some_conv split: if_splits)
  with Stdin_Ready assms(3) show ?thesis by simp
next
  case (Conn_Ready fd err chunks re rooms we)
  with assms(2) have "epoll st fd \<noteq> None" by simp
  note k = conn_keeps [OF assms(1) this assms(5) [unfolded Conn_Ready]]
  show ?thesis
    using k assms(3,4) Conn_Ready by (cases e) simp_all
qed

section \<open>What stops the server\<close>

text \<open>
  A failure of the sockets or the terminal: \<open>EPOLLERR\<close> on the listening socket or on standard input,
  \<open>accept\<close> ending with anything but would-block (the descriptors running out included), \<open>fcntl\<close>
  failing on a new connection. The code answers each of them by ending the process.
\<close>

fun failure :: "event \<Rightarrow> bool" where
  "failure (Listen_Ready err conns ending) \<longleftrightarrow> err \<or> ending = Accept_Error \<or>
     list_ex (\<lambda>(fd, k). getfl_rc k = -1 \<or> setfl_rc k = -1) conns"
| "failure (Stdin_Ready err _ _ _) \<longleftrightarrow> err"
| "failure (Conn_Ready _ _ _ _ _ _) \<longleftrightarrow> False"

fun breaks_pipe :: "event \<Rightarrow> bool" where
  "breaks_pipe (Conn_Ready _ _ _ _ _ ending) \<longleftrightarrow> ending = Write_Broken_Pipe"
| "breaks_pipe (Listen_Ready _ _ _) \<longleftrightarrow> False"
| "breaks_pipe (Stdin_Ready _ _ _ _) \<longleftrightarrow> False"

definition events_of :: "poll list \<Rightarrow> event list" where
  "events_of ps = concat (map (\<lambda>p. case p of Poll evs \<Rightarrow> evs | Poll_Failed \<Rightarrow> []) ps)"

text \<open>
  What ended a run is found among what happened: \<open>evs\<close> the events, \<open>failed\<close> whether \<open>epoll_wait\<close> failed.
\<close>

fun explained :: "event list \<Rightarrow> bool \<Rightarrow> 'a outcome option \<Rightarrow> bool" where
  "explained evs failed None \<longleftrightarrow> list_ex nul_read evs"
| "explained evs failed (Some (Running _)) \<longleftrightarrow> True"
| "explained evs failed (Some (Exited (Status c))) \<longleftrightarrow> c = -1 \<and> (failed \<or> list_ex failure evs)"
| "explained evs failed (Some (Exited (Signalled s))) \<longleftrightarrow> s = SIGPIPE \<and> list_ex breaks_pipe evs"

lemma explained_mono:
  assumes "explained evs failed r" "set evs \<subseteq> set evs'" "failed \<longrightarrow> failed'"
  shows "explained evs' failed' r"
  using assms by (induction evs failed r rule: explained.induct) (auto simp: list_ex_iff)

lemma accept_exit:
  assumes "accept_all_connections conns ending st = Some (Exited code)"
  shows "code = Status (-1) \<and>
    (ending = Accept_Error \<or> list_ex (\<lambda>(fd, k). getfl_rc k = -1 \<or> setfl_rc k = -1) conns)"
  using assms
proof (induction conns arbitrary: st)
  case Nil
  then show ?case by (cases ending) simp_all
next
  case (Cons c conns)
  obtain fd k where c: "c = (fd, k)" by (cases c)
  obtain r where r: "add_connection fd k st = Some r" using add_connection_total [of fd k st] by blast
  have "code' = Status (-1) \<and> (getfl_rc k = -1 \<or> setfl_rc k = -1)" if "r = Exited code'" for code'
    using r that
    by (auto simp: add_connection_def set_nonblocking_fd_def bind_eq_Some_conv Let_def split: if_splits)
  with Cons r c show ?case by (cases r) auto
qed

lemma write_loop_exit:
  "write_loop fd rooms we st = Some (Exited code) \<Longrightarrow> code = Signalled SIGPIPE \<and> we = Write_Broken_Pipe"
  by (induction rooms arbitrary: st) (auto simp: bind_eq_Some_conv Let_def split: write_end.splits if_splits)

lemma handle_event_explained:
  assumes "server_inv sq rows used st" "possible used st ev"
  shows "explained [ev] False (handle_event sq ev st)"
proof (cases "handle_event sq ev st")
  case None
  with handle_event_total [OF assms] show ?thesis by simp
next
  case (Some r)
  show ?thesis
  proof (cases r)
    case (Exited code)
    show ?thesis
    proof (cases ev)
      case (Listen_Ready err conns ending)
      with Some Exited accept_exit [of conns ending st code] show ?thesis by (auto split: if_splits)
    next
      case (Stdin_Ready err src answers ending)
      with Some Exited show ?thesis by (auto simp: bind_eq_Some_conv split: if_splits)
    next
      case (Conn_Ready fd err chunks re rooms we)
      with Some Exited have "code = Signalled SIGPIPE \<and> we = Write_Broken_Pipe"
        by (auto simp: handle_write_connection_def dest!: write_loop_exit
            split: Option.bind_splits if_splits outcome.splits)
      with Some Exited Conn_Ready show ?thesis by simp
    qed
  qed (use Some in simp)
qed

section \<open>Runs\<close>

lemma batch_run:
  assumes "reachable sq d (used, st)" "db_ok sq rows d"
    and "distinct (map event_source evs)" "list_all (possible used st) evs"
  shows "explained evs False (handle_events sq evs st) \<and>
    (\<forall>st'. handle_events sq evs st = Some (Running st') \<longrightarrow> reachable sq d (used @ batch_fds evs, st'))"
  using assms(1,3,4)
proof (induction evs arbitrary: used st)
  case Nil
  then show ?case by (simp add: batch_fds_def)
next
  case (Cons ev evs)
  have inv: "server_inv sq rows used st" using reachable_inv [OF Cons.prems(1) assms(2)] by simp
  have ev: "possible used st ev" using Cons.prems(3) by simp
  have ex: "explained [ev] False (handle_event sq ev st)" by (rule handle_event_explained [OF inv ev])
  show ?case
  proof (cases "\<exists>st1. handle_event sq ev st = Some (Running st1)")
    case False
    then have "handle_events sq (ev # evs) st = handle_event sq ev st"
      by (auto simp del: handle_event.simps split: Option.bind_splits outcome.splits)
    with False explained_mono [OF ex, of "ev # evs"] show ?thesis by auto
  next
    case True
    then obtain st1 where h: "handle_event sq ev st = Some (Running st1)" by blast
    have "reachable sq d (used @ event_fds ev, st1)"
      by (rule reachable.step [OF Cons.prems(1) server_step.event [OF ev h]])
    moreover have "list_all (possible (used @ event_fds ev) st1) evs"
      unfolding list_all_iff
    proof
      fix e assume e: "e \<in> set evs"
      then have "event_source e \<in> event_source ` set evs" by (rule imageI)
      then have "event_source e \<noteq> event_source ev" using Cons.prems(2) by auto
      with e Cons.prems(3) show "possible (used @ event_fds ev) st1 e"
        by (intro possible_other [OF inv ev _ _ h]) (simp_all add: list_all_iff)
    qed
    ultimately have "explained evs False (handle_events sq evs st1)"
      "handle_events sq evs st1 = Some (Running st') \<Longrightarrow> reachable sq d (used @ event_fds ev @ batch_fds evs, st')" for st'
      using Cons.IH [of "used @ event_fds ev" st1] Cons.prems(2) by simp_all
    with explained_mono [of evs False _ "ev # evs" False] h show ?thesis
      by (auto simp: batch_fds_def simp del: handle_event.simps)
  qed
qed

lemma main_loop_run:
  assumes "reachable sq d (used, st)" "db_ok sq rows d" "feasible sq watched used st ps"
  shows "explained (events_of ps) (Poll_Failed \<in> set ps) (main_loop sq ps st) \<and>
    (\<forall>st'. main_loop sq ps st = Some (Running st') \<longrightarrow> (\<exists>used'. reachable sq d (used', st')))"
  using assms(1,3)
proof (induction ps arbitrary: used st)
  case (Cons q ps)
  show ?case
  proof (cases q)
    case (Poll evs)
    with Cons.prems(2) have "distinct (map event_source evs)" "list_all (possible used st) evs"
      by (simp_all add: batch_possible_def)
    note b = batch_run [OF Cons.prems(1) assms(2) this]
    have evs: "set evs \<subseteq> set (events_of (q # ps))" "set (events_of ps) \<subseteq> set (events_of (q # ps))"
      using Poll by (auto simp: events_of_def)
    show ?thesis
    proof (cases "\<exists>st'. handle_events sq evs st = Some (Running st')")
      case True
      then obtain st' where st': "handle_events sq evs st = Some (Running st')" by blast
      with b have "reachable sq d (used @ batch_fds evs, st')" by blast
      from Cons.IH [OF this] st' Cons.prems(2) Poll
      have ih: "explained (events_of ps) (Poll_Failed \<in> set ps) (main_loop sq ps st')"
        "main_loop sq (q # ps) st = main_loop sq ps st'"
        "\<forall>st2. main_loop sq ps st' = Some (Running st2) \<longrightarrow> (\<exists>used'. reachable sq d (used', st2))"
        by simp_all
      have "Poll_Failed \<in> set ps \<longrightarrow> Poll_Failed \<in> set (q # ps)" by simp
      from explained_mono [OF ih(1) evs(2) this] ih(2,3) show ?thesis by (simp del: main_loop.simps)
    next
      case False
      then have "main_loop sq (q # ps) st = handle_events sq evs st"
        using Poll by (auto split: Option.bind_splits outcome.splits)
      with False b explained_mono [OF _ evs(1), of False] show ?thesis by auto
    qed
  qed (simp add: events_of_def)
qed auto

section \<open>What the set-up achieves\<close>

lemma init_server_spec:
  assumes "init_server sq is_test k p = (Running fd, d, p')" "0 \<le> fd"
    and "\<forall>a \<in> set (addresses k). 0 \<le> close_rc a"
  shows "init_db sq (if is_test \<noteq> 0 then DB_TEST_PATH else DB_PATH) = (0, d)"
    and "held p' = add_mset fd (held p)" "address_lists p' = address_lists p"
    and "fd \<in> set (listening p')" "fd \<in> set (nonblocking p')"
proof -
  let ?path = "if is_test \<noteq> 0 then DB_TEST_PATH else DB_PATH"
  obtain rc d1 where db: "init_db sq ?path = (rc, d1)" by (rule prod.exhaust)
  then have rc: "rc = 0 \<or> rc = -1" by (auto simp: init_db_def split: prod.splits if_splits)
  obtain r q where l: "open_listenfd k (p\<lparr>db_open := True\<rparr>) = (r, q)" by (rule prod.exhaust)
  from assms(1,2) db l rc have "rc = 0" "d = d1" "r = Running fd" "q = p'"
    by (auto simp: init_server_def split: if_splits)
  with db open_listenfd_spec [OF l assms(3)] assms(2)
  show "init_db sq ?path = (0, d)" "held p' = add_mset fd (held p)" "address_lists p' = address_lists p"
    "fd \<in> set (listening p')" "fd \<in> set (nonblocking p')" by auto
qed

lemma start_server_spec:
  assumes "start_server sq argv k p = Some (Running (d, w), p')"
    and "\<forall>a \<in> set (addresses (listen_part k)). 0 \<le> close_rc a"
  obtains is_test where "length argv = 4" "atoi (argv ! 2) = Some is_test"
    and "atoi (argv ! 3) = Some (if logs w then 1 else 0)" "watches_stdin w \<longleftrightarrow> is_test = 0"
    and "init_db sq (if is_test \<noteq> 0 then DB_TEST_PATH else DB_PATH) = (0, d)"
    and "held p' = {#ready_epollfd w, ready_listenfd w#} + held p" "address_lists p' = address_lists p"
    and "ready_listenfd w \<in> set (listening p')" "ready_listenfd w \<in> set (nonblocking p')"
proof -
  from assms(1) obtain is_test enable where args: "length argv = 4" "atoi (argv ! 2) = Some is_test"
    "atoi (argv ! 3) = Some enable" "enable = 0 \<or> enable = 1"
    by (auto simp: start_server_def init_logger_def bind_eq_Some_conv split: if_splits)
  obtain r d1 q where i: "init_server sq is_test (listen_part k) p = (r, d1, q)" by (rule prod_cases3)
  obtain fd where fd: "r = Running fd" "0 \<le> fd" "d1 = d" "ready_listenfd w = fd" "logs w \<longleftrightarrow> enable = 1"
      "watches_stdin w \<longleftrightarrow> is_test = 0"
    and p': "p' = acquire (ready_epollfd w) q \<or> p' = (acquire (ready_epollfd w) q)\<lparr>nonblocking := 0 # nonblocking q\<rparr>"
    using assms(1) args i
    by (cases r) (auto simp: start_server_def init_logger_def Let_def acquire_def split: if_splits outcome.splits)
  note s = init_server_spec [OF i [unfolded fd(1,3)] fd(2) assms(2)]
  have "held p' = add_mset (ready_epollfd w) (held q)" "address_lists p' = address_lists q"
    "listening p' = listening q" "set (nonblocking q) \<subseteq> set (nonblocking p')"
    using p' fds.contents_acq by (auto simp: acquire_def held_def)
  with args fd s show thesis by (intro that [of is_test]) (auto split: if_splits)
qed

end
