(* ===== verification/Chat_Room.thy ===== *)
theory Chat_Room
  imports Requests
begin

text \<open>
  What the server is for, without buffers, flags or epoll: a chat room. It knows the accounts, who is
  logged in on which connection, and every frame each connection has been told, in order. Clients ask,
  and leave. The rules below are the whole specification of the service; that the server of
  \<open>src/server.cpp\<close> implements it is shown in \<open>Room_Refinement\<close>. Here: what follows from the rules
  about who can hear what, and from whom.
\<close>

record room =
  accounts :: "bytes \<Rightarrow> user_t option"
  online :: "nat \<Rightarrow> (bytes \<times> u32) option"
  told :: "nat \<Rightarrow> frame list"

datatype room_action = Ask nat u8 bytes | Leave nat

definition open_room :: "(bytes \<Rightarrow> user_t option) \<Rightarrow> room" where
  "open_room acc = \<lparr>accounts = acc, online = (\<lambda>_. None), told = (\<lambda>_. [])\<rparr>"

definition tell :: "(nat \<Rightarrow> bool) \<Rightarrow> frame \<Rightarrow> room \<Rightarrow> room" where
  "tell to f r = r\<lparr>told := (\<lambda>j. told r j @ (if to j then [f] else []))\<rparr>"

text \<open>
  What a member of the given name says with a payload: the name it is meant for, or none when it is
  meant for everyone, and the content. The sender name in the payload plays no part.
\<close>

definition message_of :: "bytes \<Rightarrow> bytes \<Rightarrow> (bytes option \<times> bytes) option" where
  "message_of name pl =
     (case pl of
        [] \<Rightarrow> None
      | t # _ \<Rightarrow>
          if t = tag TAG_WORLD_BROADCAST then
            (case world_of pl of
               None \<Rightarrow> None
             | Some (_, content) \<Rightarrow> if content = [] then None else Some (None, content))
          else if t = tag TAG_P2P_BROADCAST then
            (case p2p_of pl of
               None \<Rightarrow> None
             | Some (_, recipient, content) \<Rightarrow>
                 if content = [] \<or> name = recipient then None else Some (Some recipient, content))
          else None)"

fun chat_frame :: "bytes \<Rightarrow> bytes option \<Rightarrow> bytes \<Rightarrow> frame" where
  "chat_frame name None content = request_frame CHAT (world_tlvs
     \<lparr>world_sender_username = name, world_message_content = content\<rparr>)"
| "chat_frame name (Some recipient) content = request_frame CHAT (p2p_tlvs
     \<lparr>p2p_sender_username = name, p2p_recipient_username = recipient, p2p_message_content = content\<rparr>)"

lemma field_limit:
  "within_limits limit xs \<Longrightarrow> last_value t xs = Some v \<Longrightarrow> limit t = Some m \<Longrightarrow> length v \<le> m"
  by (auto simp: within_limits_def list_all_iff dest!: last_value_member)

lemma world_of_bounds: "world_of pl = Some (s, c) \<Longrightarrow> length c \<le> MAX_MSG_CONTENT_SIZE"
  by (auto simp: world_of_def split: prod.splits option.splits if_splits
      intro: field_limit [of world_limit _ "tag TAG_MESSAGE_CONTENT"] simp: world_limit_def)

lemma p2p_of_bounds:
  assumes "p2p_of pl = Some (s, n, c)"
  shows "length c \<le> MAX_MSG_CONTENT_SIZE" "length n \<le> MAX_USERNAME_SIZE"
proof -
  obtain xs complete where "split_tlvs pl = (xs, complete)" by (rule prod.exhaust)
  with assms have f: "within_limits p2p_limit xs" "last_value (tag TAG_MESSAGE_CONTENT) xs = Some c"
    "last_value (tag TAG_RECIPIENT_USERNAME) xs = Some n"
    by (auto simp: p2p_of_def split: option.splits if_splits)
  show "length c \<le> MAX_MSG_CONTENT_SIZE" by (rule field_limit [OF f(1,2)]) (simp add: p2p_limit_def)
  show "length n \<le> MAX_USERNAME_SIZE" by (rule field_limit [OF f(1,3)]) (simp add: p2p_limit_def)
qed

lemma message_bounds:
  assumes "message_of name pl = Some (recipient, content)"
  shows "length content \<le> MAX_MSG_CONTENT_SIZE" "recipient = Some n \<Longrightarrow> length n \<le> MAX_USERNAME_SIZE"
  using assms
  by (auto simp: message_of_def split: list.splits option.splits if_splits dest: world_of_bounds p2p_of_bounds)

text \<open>
  Who hears what connection \<open>i\<close> says: all others that are logged in, or of those that are logged in
  under the recipient's name the one with the lowest number.
\<close>

definition named :: "room \<Rightarrow> nat \<Rightarrow> bytes \<Rightarrow> nat \<Rightarrow> bool" where
  "named r i name j \<longleftrightarrow> j \<noteq> i \<and> map_option fst (online r j) = Some name"

fun hears :: "room \<Rightarrow> nat \<Rightarrow> bytes option \<Rightarrow> nat \<Rightarrow> bool" where
  "hears r i None j \<longleftrightarrow> j \<noteq> i \<and> online r j \<noteq> None"
| "hears r i (Some name) j \<longleftrightarrow> named r i name j \<and> (\<forall>k < j. \<not> named r i name k)"

text \<open>The requests that are refused, and with which code. A free name is refused when the database fails.\<close>

inductive refused :: "room \<Rightarrow> nat \<Rightarrow> u8 \<Rightarrow> bytes \<Rightarrow> response_code_t \<Rightarrow> bool" for r :: room and i :: nat where
  register_malformed: "credentials_of pl = None \<Longrightarrow> refused r i (mtype REGISTER) pl RESP_ERROR_MALFORMED"
| register_taken: "credentials_of pl = Some (u, p) \<Longrightarrow> accounts r (account_key u) \<noteq> None \<Longrightarrow>
    refused r i (mtype REGISTER) pl RESP_ERROR_USER_EXISTS"
| register_failed: "credentials_of pl = Some (u, p) \<Longrightarrow> accounts r (account_key u) = None \<Longrightarrow>
    refused r i (mtype REGISTER) pl RESP_ERROR_INTERNAL"
| login_malformed: "credentials_of pl = None \<Longrightarrow> refused r i (mtype LOGIN) pl RESP_ERROR_MALFORMED"
| login_unknown: "credentials_of pl = Some (u, p) \<Longrightarrow> accounts r (account_key u) = None \<Longrightarrow>
    refused r i (mtype LOGIN) pl RESP_ERROR_USER_NOT_FOUND"
| login_wrong: "credentials_of pl = Some (u, p) \<Longrightarrow> accounts r (account_key u) = Some a \<Longrightarrow> password a \<noteq> p \<Longrightarrow>
    refused r i (mtype LOGIN) pl RESP_ERROR_INVALID_CREDENTIALS"
| chat_stranger: "online r i = None \<Longrightarrow> refused r i (mtype CHAT) pl RESP_ERROR_INVALID_CREDENTIALS"
| chat_malformed: "online r i = Some (name, uid) \<Longrightarrow> message_of name pl = None \<Longrightarrow>
    refused r i (mtype CHAT) pl RESP_ERROR_MALFORMED"
| chat_nobody: "online r i = Some (name, uid) \<Longrightarrow> message_of name pl = Some (Some recipient, content) \<Longrightarrow>
    (\<forall>j. \<not> named r i recipient j) \<Longrightarrow> refused r i (mtype CHAT) pl RESP_ERROR_USER_NOT_FOUND"
| unknown: "ty \<notin> {mtype REGISTER, mtype LOGIN, mtype CHAT} \<Longrightarrow> refused r i ty pl RESP_ERROR_UNKNOWN_COMMAND"

inductive room_step :: "room \<Rightarrow> room_action \<Rightarrow> room \<Rightarrow> bool" for r :: room where
  refuse: "refused r i ty pl e \<Longrightarrow> room_step r (Ask i ty pl) (tell (\<lambda>j. j = i) (error_frame ty e) r)"
| register: "credentials_of pl = Some (u, p) \<Longrightarrow> accounts r (account_key u) = None \<Longrightarrow>
    room_step r (Ask i (mtype REGISTER) pl)
      (tell (\<lambda>j. j = i) (request_frame REGISTER (user_tlvs \<lparr>user_id = n, username = u, password = p\<rparr>))
        (r\<lparr>accounts := (accounts r)(account_key u \<mapsto> \<lparr>user_id = n, username = c_str u, password = c_str p\<rparr>)\<rparr>))"
| login: "credentials_of pl = Some (u, p) \<Longrightarrow> accounts r (account_key u) = Some a \<Longrightarrow> password a = p \<Longrightarrow>
    room_step r (Ask i (mtype LOGIN) pl)
      (tell (\<lambda>j. j = i) (request_frame LOGIN (user_tlvs a))
        (r\<lparr>online := (online r)(i \<mapsto> (username a, user_id a))\<rparr>))"
| say: "online r i = Some (name, uid) \<Longrightarrow> message_of name pl = Some (recipient, content) \<Longrightarrow>
    (recipient \<noteq> None \<longrightarrow> (\<exists>j. hears r i recipient j)) \<Longrightarrow>
    room_step r (Ask i (mtype CHAT) pl)
      (tell (\<lambda>j. j = i \<or> hears r i recipient j) (chat_frame name recipient content) r)"
| leave: "room_step r (Leave i) (r\<lparr>online := (online r)(i := None)\<rparr>)"

inductive_cases refusedE: "refused r i ty pl e"

inductive room_run :: "room \<Rightarrow> room_action list \<Rightarrow> room \<Rightarrow> bool" for r0 :: room where
  start: "room_run r0 [] r0"
| step: "room_run r0 as r \<Longrightarrow> room_step r a r' \<Longrightarrow> room_run r0 (as @ [a]) r'"

text \<open>What a connection has asked in the course of a run.\<close>

fun asked :: "nat \<Rightarrow> room_action list \<Rightarrow> (u8 \<times> bytes) list" where
  "asked i [] = []"
| "asked i (Ask j ty pl # as) = (if j = i then [(ty, pl)] else []) @ asked i as"
| "asked i (Leave j # as) = asked i as"

lemma asked_append [simp]: "asked i (as @ bs) = asked i as @ asked i bs"
  by (induction i as rule: asked.induct) simp_all

lemma asked_map: "asked i (map (\<lambda>(ty, pl). Ask j ty pl) rqs) = (if j = i then rqs else [])"
  by (induction rqs) auto

lemma room_run_append: "room_run r1 bs r2 \<Longrightarrow> room_run r0 as r1 \<Longrightarrow> room_run r0 (as @ bs) r2"
proof (induction rule: room_run.induct)
  case (step bs r a r')
  then show ?case using room_run.step [of r0 "as @ bs" r a r'] by simp
qed simp

lemma tell_simps [simp]:
  "accounts (tell to f r) = accounts r" "online (tell to f r) = online r"
  "told (tell to f r) j = told r j @ (if to j then [f] else [])"
  by (simp_all add: tell_def)

section \<open>Who has proved to be whom\<close>

text \<open>Among these requests is a login with the password of the account of this name and id.\<close>

definition proved :: "(bytes \<Rightarrow> user_t option) \<Rightarrow> (u8 \<times> bytes) list \<Rightarrow> bytes \<Rightarrow> u32 \<Rightarrow> bool" where
  "proved acc rqs name uid \<longleftrightarrow> (\<exists>pl u p a. (mtype LOGIN, pl) \<in> set rqs \<and> credentials_of pl = Some (u, p) \<and>
     acc (account_key u) = Some a \<and> password a = p \<and> username a = name \<and> user_id a = uid)"

lemma proved_mono:
  assumes "proved acc rqs name uid" "acc \<subseteq>\<^sub>m acc'" "set rqs \<subseteq> set rqs'"
  shows "proved acc' rqs' name uid"
proof -
  from assms(1) obtain pl u p a where "(mtype LOGIN, pl) \<in> set rqs" "credentials_of pl = Some (u, p)"
    "acc (account_key u) = Some a" "password a = p" "username a = name" "user_id a = uid"
    unfolding proved_def by blast
  moreover from this(3) assms(2) have "acc' (account_key u) = Some a" by (metis domI map_le_def)
  ultimately show ?thesis unfolding proved_def using assms(3) by blast
qed

lemma room_step_accounts: "room_step r a r' \<Longrightarrow> accounts r \<subseteq>\<^sub>m accounts r'"
  by (cases rule: room_step.cases) (auto simp: map_le_def)

lemma online_proved:
  "room_run (open_room acc) as r \<Longrightarrow> online r i = Some (name, uid) \<Longrightarrow> proved (accounts r) (asked i as) name uid"
proof (induction arbitrary: name uid rule: room_run.induct)
  case start
  then show ?case by (simp add: open_room_def)
next
  case (step as r a r')
  show ?case
  proof (cases "online r i = Some (name, uid)")
    case True
    from proved_mono [OF step.IH [OF True] room_step_accounts [OF step.hyps(2)]] show ?thesis by simp
  next
    case False
    from step.hyps(2) show ?thesis
    proof cases
      case (login pl u p b j)
      with False step.prems show ?thesis by (auto simp: proved_def split: if_splits)
    qed (use False step.prems in \<open>auto split: if_splits\<close>)
  qed
qed

text \<open>
  Every chat message that was told goes back to a request of a connection that has proved to be the
  sender it names; and whoever else was told it has proved to be somebody, and to be the recipient
  when it was meant for one.
\<close>

definition heard_from :: "(bytes \<Rightarrow> user_t option) \<Rightarrow> (nat \<Rightarrow> (u8 \<times> bytes) list) \<Rightarrow> nat \<Rightarrow> frame \<Rightarrow> bool" where
  "heard_from acc rqs j f \<longleftrightarrow> (\<exists>i name uid pl recipient content.
     f = chat_frame name recipient content \<and> proved acc (rqs i) name uid \<and>
     (mtype CHAT, pl) \<in> set (rqs i) \<and> message_of name pl = Some (recipient, content) \<and>
     (j = i \<or> (\<exists>name' uid'. proved acc (rqs j) name' uid' \<and> (recipient = None \<or> recipient = Some name'))))"

lemma heard_from_mono:
  assumes "heard_from acc rqs j f" "acc \<subseteq>\<^sub>m acc'" "\<And>i. set (rqs i) \<subseteq> set (rqs' i)"
  shows "heard_from acc' rqs' j f"
proof -
  from assms(1) obtain i name uid pl recipient content where
    "f = chat_frame name recipient content" "proved acc (rqs i) name uid" "(mtype CHAT, pl) \<in> set (rqs i)"
    "message_of name pl = Some (recipient, content)"
    "j = i \<or> (\<exists>name' uid'. proved acc (rqs j) name' uid' \<and> (recipient = None \<or> recipient = Some name'))"
    unfolding heard_from_def by blast
  with assms(2,3) proved_mono [OF _ assms(2,3)] show ?thesis unfolding heard_from_def by blast
qed

definition is_chat :: "frame \<Rightarrow> bool" where
  "is_chat f \<longleftrightarrow> f_type f = mtype CHAT \<and> f_rc f = 0"

lemma error_not_chat: "e \<noteq> RESP_OK \<Longrightarrow> \<not> is_chat (error_frame ty e)"
  by (cases e) (simp_all add: is_chat_def error_frame_def)

lemma user_not_chat: "\<not> is_chat (request_frame REGISTER xs)" "\<not> is_chat (request_frame LOGIN xs)"
  by (simp_all add: is_chat_def request_frame_def)

lemma refused_code: "refused r i ty pl e \<Longrightarrow> e \<noteq> RESP_OK"
  by (auto elim: refused.cases)

lemma told_heard:
  assumes "room_run (open_room acc) as r" "f \<in> set (told r j)" "is_chat f"
  shows "heard_from (accounts r) (\<lambda>i. asked i as) j f"
  using assms
proof (induction rule: room_run.induct)
  case start
  then show ?case by (simp add: open_room_def)
next
  case (step as r a r')
  note mono = room_step_accounts [OF step.hyps(2)]
  show ?case
  proof (cases "f \<in> set (told r j)")
    case True
    from heard_from_mono [OF step.IH [OF True step.prems(2)] mono] show ?thesis by simp
  next
    case False
    from step.hyps(2) show ?thesis
    proof cases
      case (refuse i ty pl e)
      with False step.prems error_not_chat [OF refused_code [OF refuse(3)]] show ?thesis by (auto split: if_splits)
    next
      case (say i name uid pl recipient content)
      with False step.prems have f: "f = chat_frame name recipient content" "j = i \<or> hears r i recipient j"
        by (auto split: if_splits)
      have p: "proved (accounts r') (asked k (as @ [a])) n x" if "online r k = Some (n, x)" for k n x
        using proved_mono [OF online_proved [OF step.hyps(1) that] mono] by simp
      have "j = i \<or> (\<exists>name' uid'. online r j = Some (name', uid') \<and> (recipient = None \<or> recipient = Some name'))"
        using f(2) by (cases recipient) (auto simp: named_def)
      moreover have "(mtype CHAT, pl) \<in> set (asked i (as @ [a]))" by (simp add: say(1))
      ultimately show ?thesis unfolding heard_from_def using f(1) p say(3,4) by blast
    qed (use False step.prems user_not_chat in \<open>auto split: if_splits\<close>)
  qed
qed

text \<open>Every account was there at the start or goes back to a registration with its name and password.\<close>

lemma accounts_asked:
  assumes "room_run (open_room acc) as r" "accounts r k = Some a"
  shows "acc k = Some a \<or> (\<exists>i pl u p. (mtype REGISTER, pl) \<in> set (asked i as) \<and>
    credentials_of pl = Some (u, p) \<and> k = account_key u \<and> username a = c_str u \<and> password a = c_str p)"
  using assms
proof (induction rule: room_run.induct)
  case start
  then show ?case by (simp add: open_room_def)
next
  case (step as r act r')
  from step.hyps(2) show ?case
  proof cases
    case (register pl u p i n)
    show ?thesis
    proof (cases "accounts r k = Some a")
      case True
      with step.IH show ?thesis by auto
    next
      case False
      with register step.prems have "k = account_key u" "a = \<lparr>user_id = n, username = c_str u, password = c_str p\<rparr>"
        by (auto split: if_splits)
      with register show ?thesis
        by (intro disjI2 exI [of _ i] exI [of _ pl] exI [of _ u] exI [of _ p]) auto
    qed
  qed (use step.IH step.prems in auto)
qed

end
