(* ===== verification/Room_Refinement.thy ===== *)
theory Room_Refinement
  imports Chat_Room Server_Invariant "HOL-Library.Sublist"
begin

text \<open>
  The server implements the chat room. \<open>implements\<close> relates a table to a room: same accounts, the
  authenticated slots are the members, and the bytes sent and queued on each connection are the
  frames the room has told it; while a connection is served, its \<open>own\<close> answers are not queued yet. Each request is one step of the
  room, each event a run of them; a forward simulation carries this to every state the server
  reaches, with the bytes received on each connection as the link to what was asked.
\<close>

definition member_of :: "'db server \<Rightarrow> nat \<Rightarrow> (bytes \<times> u32) option" where
  "member_of st i = (if i < get_size st \<and> has_flag (flags st ! i) IS_AUTH
     then Some (usernames st ! i, user_ids st ! i) else None)"

definition output_of :: "'db server \<Rightarrow> nat \<Rightarrow> bytes" where
  "output_of st i = (if i < get_size st then wire st i @ outgoing_buffers st ! i else [])"

definition implements ::
  "('db \<Rightarrow> user_row list) \<Rightarrow> nat \<Rightarrow> bytes \<Rightarrow> 'db server \<Rightarrow> room \<Rightarrow> bool" where
  "implements rows fd own st r \<longleftrightarrow> accounts r = account rows (db st) \<and> online r = member_of st \<and>
     (\<forall>i. output_of st i @ (if i = fd then own else []) = encode_frames (told r i))"

lemma implementsD:
  assumes "implements rows fd own st r"
  shows "accounts r = account rows (db st)" "online r = member_of st"
    "output_of st i @ (if i = fd then own else []) = encode_frames (told r i)"
  using assms by (simp_all add: implements_def)

text \<open>Only what it looks at matters.\<close>

lemma implements_cong:
  "implements rows fd own st r \<Longrightarrow> account rows (db st') = account rows (db st) \<Longrightarrow>
   member_of st' = member_of st \<Longrightarrow> (\<And>i. output_of st' i @ (if i = fd' then own' else []) = output_of st i @ (if i = fd then own else [])) \<Longrightarrow>
   implements rows fd' own' st' r"
  by (simp add: implements_def)

section \<open>One request is one step of the room\<close>

text \<open>An answer to the connection itself, with the change of accounts or members it comes with.\<close>

lemma implements_answer:
  assumes "implements rows fd own st r" "accounts r' = account rows (db st')" "online r' = member_of st'"
    "told r' = told r" "\<And>i. output_of st' i = output_of st i"
  shows "implements rows fd (own @ encode_frame f) st' (tell (\<lambda>j. j = fd) f r')"
proof -
  have "output_of st' i @ (if i = fd then own @ encode_frame f else []) = encode_frames (told (tell (\<lambda>j. j = fd) f r') i)" for i
    using implementsD(3) [OF assms(1), of i] assms(4,5) by auto
  with assms(2,3) show ?thesis by (simp add: implements_def)
qed

lemma output_db [simp]: "output_of (st\<lparr>db := d\<rparr>) = output_of st" "member_of (st\<lparr>db := d\<rparr>) = member_of st"
  by (simp_all add: output_of_def member_of_def get_size_def fun_eq_iff)

lemma register_outcome:
  assumes "accounts r = account rows (db st)" "db_ok sq rows (db st)" "register_effect sq rows pl st = (f, st')"
  obtains (refused) e where "refused r fd (mtype REGISTER) pl e" "f = error_frame (mtype REGISTER) e"
      "account rows (db st') = account rows (db st)"
    | (stored) u p n where "credentials_of pl = Some (u, p)" "accounts r (account_key u) = None"
      "f = request_frame REGISTER (user_tlvs \<lparr>user_id = n, username = u, password = p\<rparr>)"
      "account rows (db st') = (account rows (db st))
        (account_key u \<mapsto> \<lparr>user_id = n, username = c_str u, password = c_str p\<rparr>)"
proof (cases "register_verdict (account rows (db st)) pl")
  case (Inl e)
  then have "refused r fd (mtype REGISTER) pl e"
    using assms(1) refused.intros(1-3) [of pl]
    by (auto simp: register_verdict_def split: option.splits if_splits)
  moreover from Inl assms(3) have "f = error_frame (mtype REGISTER) e" "st' = st"
    by (auto simp: register_effect_def)
  ultimately show thesis using refused by blast
next
  case (Inr up)
  obtain u p where up: "up = (u, p)" by (cases up)
  with Inr assms(1) have cr: "credentials_of pl = Some (u, p)" "accounts r (account_key u) = None"
    by (auto simp: register_verdict_def split: option.splits if_splits)
  have f: "f = error_frame (mtype REGISTER) RESP_ERROR_INTERNAL \<or> f_rc f = 0"
    using assms(3) Inr up by (auto simp: register_effect_def request_frame_def split: prod.splits if_splits)
  from register_effect_accounts [OF assms(2,3)] consider
      "account rows (db st') = account rows (db st)" "f_rc f \<noteq> 0"
    | v q n where "credentials_of pl = Some (v, q)"
      "f = request_frame REGISTER (user_tlvs \<lparr>user_id = n, username = v, password = q\<rparr>)"
      "account rows (db st') = (account rows (db st))
        (account_key v \<mapsto> \<lparr>user_id = n, username = c_str v, password = c_str q\<rparr>)"
    by (auto simp: error_frame_def)
  then show thesis
  proof cases
    case 1
    with f have "f = error_frame (mtype REGISTER) RESP_ERROR_INTERNAL" by blast
    then show thesis by (rule refused [OF refused.intros(3) [OF cr] _ 1(1)])
  next
    case 2
    with cr show thesis by (intro stored) auto
  qed
qed

lemma register_room:
  assumes "implements rows fd own st r" "db_ok sq rows (db st)" "register_effect sq rows pl st = (f, st')"
  shows "\<exists>r'. room_step r (Ask fd (mtype REGISTER) pl) r' \<and>
    implements rows fd (own @ encode_frame f) st' r'"
proof -
  note i = implementsD [OF assms(1)]
  have st': "output_of st' = output_of st" "member_of st' = member_of st"
    using register_effect_accounts [OF assms(2,3)] output_db by metis+
  from i(1) assms(2,3) show ?thesis
  proof (cases rule: register_outcome [where fd = fd])
    case (refused e)
    with i(1,2) st' room_step.refuse [OF refused(1)] show ?thesis
      by (intro exI [of _ "tell (\<lambda>j. j = fd) f r"] conjI implements_answer [OF assms(1)]) auto
  next
    case (stored u p n)
    let ?r = "r\<lparr>accounts := (accounts r)(account_key u \<mapsto> \<lparr>user_id = n, username = c_str u, password = c_str p\<rparr>)\<rparr>"
    from stored(3,4) i(1,2) st' room_step.register [OF stored(1,2), of fd n] show ?thesis
      by (intro exI [of _ "tell (\<lambda>j. j = fd) f ?r"] conjI implements_answer [OF assms(1)]) auto
  qed
qed

lemma login_room:
  assumes "implements rows fd own st r" "same_sizes st" "fd < get_size st" "login_effect rows fd pl st = (f, st')"
  shows "\<exists>r'. room_step r (Ask fd (mtype LOGIN) pl) r' \<and>
    implements rows fd (own @ encode_frame f) st' r'"
proof -
  note i = implementsD [OF assms(1)]
  show ?thesis
  proof (cases "login_verdict (account rows (db st)) pl")
    case (Inl e)
    then have "refused r fd (mtype LOGIN) pl e"
      using i(1) refused.intros(4-6) [of pl]
      by (auto simp: login_verdict_def split: option.splits if_splits)
    with Inl assms(4) i(1,2) show ?thesis
      by (intro exI [of _ "tell (\<lambda>j. j = fd) f r"] conjI implements_answer [OF assms(1)])
        (auto simp: login_effect_def verdict_frame_def intro: room_step.refuse)
  next
    case (Inr a)
    then obtain u p where a: "credentials_of pl = Some (u, p)" "accounts r (account_key u) = Some a" "password a = p"
      using i(1) by (auto simp: login_verdict_def split: option.splits if_splits)
    let ?r = "r\<lparr>online := (online r)(fd \<mapsto> (username a, user_id a))\<rparr>"
    have st': "st' = authenticate fd a st" and f: "f = request_frame LOGIN (user_tlvs a)"
      using Inr assms(4) by (auto simp: login_effect_def verdict_frame_def)
    have "member_of st' = (member_of st)(fd \<mapsto> (username a, user_id a))"
      unfolding st' using assms(2,3) by (auto simp: member_of_def authenticate_def same_sizes_def get_size_def
          nth_list_update flag_simps fun_eq_iff)
    moreover have "output_of st' i = output_of st i" for i
      by (simp add: st' output_of_def authenticate_def get_size_def)
    ultimately show ?thesis
      using i(1,2) room_step.login [OF a, of fd]
      by (intro exI [of _ "tell (\<lambda>j. j = fd) f ?r"] conjI implements_answer [OF assms(1)])
        (auto simp: f st' authenticate_def)
  qed
qed

text \<open>The verdict on a chat message, in the terms of the room.\<close>

lemma hears_member:
  assumes "online r = member_of st"
  shows "named r fd name j \<longleftrightarrow> other_authenticated fd st j \<and> usernames st ! j = name"
    and "hears r fd None j \<longleftrightarrow> other_authenticated fd st j"
  using assms by (auto simp: named_def member_of_def other_authenticated_def)

lemma hears_recipient:
  assumes "online r = member_of st"
  shows "recipient_of fd name st = Some j \<Longrightarrow> hears r fd (Some name) i \<longleftrightarrow> i = j"
    and "recipient_of fd name st = None \<Longrightarrow> \<not> named r fd name i"
proof -
  let ?P = "\<lambda>j. other_authenticated fd st j \<and> usernames st ! j = name"
  have named: "named r fd name k \<longleftrightarrow> ?P k" for k by (rule hears_member(1) [OF assms])
  show "hears r fd (Some name) i \<longleftrightarrow> i = j" if "recipient_of fd name st = Some j"
  proof -
    from that have "?P j" "\<forall>k < j. \<not> ?P k"
      by (auto simp: recipient_of_def find_Some_iff)
    then show ?thesis unfolding hears.simps named by (metis linorder_neqE_nat)
  qed
  show "\<not> named r fd name i" if "recipient_of fd name st = None"
    using that unfolding named by (auto simp: recipient_of_def find_None_iff other_authenticated_def)
qed

lemma verdict_room:
  assumes "online r = member_of st" "fd < get_size st"
  shows "broadcast_verdict fd pl st = Inl e \<Longrightarrow> refused r fd (mtype CHAT) pl e"
    and "broadcast_verdict fd pl st = Inr (f, to) \<Longrightarrow> \<exists>name uid recipient content.
      online r fd = Some (name, uid) \<and> message_of name pl = Some (recipient, content) \<and>
      f = chat_frame name recipient content \<and> to = hears r fd recipient \<and>
      (recipient \<noteq> None \<longrightarrow> (\<exists>j. hears r fd recipient j))"
proof -
  let ?n = "usernames st ! fd"
  show "refused r fd (mtype CHAT) pl e" if v: "broadcast_verdict fd pl st = Inl e"
  proof (cases "has_flag (flags st ! fd) IS_AUTH")
    case False
    with v assms have "e = RESP_ERROR_INVALID_CREDENTIALS" "online r fd = None"
      by (simp_all add: broadcast_verdict_def member_of_def)
    then show ?thesis by (simp only: refused.chat_stranger)
  next
    case True
    then have on: "online r fd = Some (?n, user_ids st ! fd)" using assms by (simp add: member_of_def)
    from v True have "e = RESP_ERROR_MALFORMED \<and> message_of ?n pl = None \<or>
        (\<exists>rcp c. e = RESP_ERROR_USER_NOT_FOUND \<and> message_of ?n pl = Some (Some rcp, c) \<and> recipient_of fd rcp st = None)"
      by (auto simp: broadcast_verdict_def message_of_def split: list.splits option.splits if_splits)
    with on hears_recipient(2) [OF assms(1)] show ?thesis
      using refused.chat_malformed [OF on, of pl] refused.chat_nobody [OF on, of pl] by blast
  qed
  show "\<exists>name uid recipient content.
      online r fd = Some (name, uid) \<and> message_of name pl = Some (recipient, content) \<and>
      f = chat_frame name recipient content \<and> to = hears r fd recipient \<and>
      (recipient \<noteq> None \<longrightarrow> (\<exists>j. hears r fd recipient j))"
    if v: "broadcast_verdict fd pl st = Inr (f, to)"
  proof -
    have True: "has_flag (flags st ! fd) IS_AUTH" using v by (auto simp: broadcast_verdict_def split: if_splits)
    then have on: "online r fd = Some (?n, user_ids st ! fd)" using assms by (simp add: member_of_def)
    from v True consider c where "message_of ?n pl = Some (None, c)" "f = chat_frame ?n None c" "to = other_authenticated fd st"
      | rcp c j where "message_of ?n pl = Some (Some rcp, c)" "f = chat_frame ?n (Some rcp) c"
        "recipient_of fd rcp st = Some j" "to = (\<lambda>i. i = j)"
      by (auto simp: broadcast_verdict_def message_of_def split: list.splits option.splits if_splits)
    then show ?thesis
    proof cases
      case 1
      have "hears r fd None = other_authenticated fd st"
        using hears_member(2) [OF assms(1)] by (simp add: fun_eq_iff)
      with 1 on show ?thesis by auto
    next
      case 2
      have "hears r fd (Some rcp) = (\<lambda>i. i = j)"
        using hears_recipient(1) [OF assms(1) 2(3)] by (simp add: fun_eq_iff del: hears.simps)
      with 2 on show ?thesis by (auto simp del: hears.simps)
    qed
  qed
qed

lemma chat_room:
  assumes "implements rows fd own st r" "fd < get_size st" "broadcast_verdict fd pl st = v"
  shows "\<exists>r'. room_step r (Ask fd (mtype CHAT) pl) r' \<and>
    implements rows fd (own @ encode_frame (broadcast_frame v)) (broadcast_effect v st) r'"
proof (cases v)
  note i = implementsD [OF assms(1)]
  case (Inl e)
  with verdict_room(1) [OF i(2) assms(2)] assms(3) i(1,2) show ?thesis
    by (intro exI [of _ "tell (\<lambda>j. j = fd) (broadcast_frame v) r"] conjI)
      (auto simp: broadcast_frame_def broadcast_effect_def intro!: room_step.refuse implements_answer [OF assms(1)])
next
  note i = implementsD [OF assms(1)]
  case (Inr x)
  obtain f to where x: "x = (f, to)" by (cases x)
  note v = assms(3) [unfolded Inr x]
  from verdict_room(2) [OF i(2) assms(2) v] obtain name uid recipient content where
    s: "online r fd = Some (name, uid)" "message_of name pl = Some (recipient, content)"
      "recipient \<noteq> None \<longrightarrow> (\<exists>j. hears r fd recipient j)"
    and f: "f = chat_frame name recipient content" "to = hears r fd recipient" by blast
  have to: "\<not> to fd" "to j \<Longrightarrow> j < get_size st" for j
    using broadcast_not_own [OF v] broadcast_recipients [OF v] by (auto simp: other_authenticated_def)
  let ?st = "deliver to (encode_frame f) st" and ?r = "tell (\<lambda>j. j = fd \<or> to j) f r"
  have out: "output_of ?st j = output_of st j @ (if to j then encode_frame f else [])" for j
    using to by (simp add: output_of_def table_simps)
  have "member_of ?st = member_of st"
    by (auto simp: member_of_def deliver_fields deliver_auth fun_eq_iff)
  moreover have "output_of ?st j @ (if j = fd then own @ encode_frame f else []) = encode_frames (told ?r j)" for j
    using i(3) [of j] to out [of j] by auto
  ultimately have "implements rows fd (own @ encode_frame f) ?st ?r"
    using i(1,2) by (simp add: implements_def table_simps)
  with room_step.say [OF s] Inr x f show ?thesis by (auto simp: broadcast_frame_def broadcast_effect_def)
qed

lemma request_room:
  assumes "implements rows fd own st r" "same_sizes st" "fd < get_size st" "db_ok sq rows (db st)"
    and "request_effect sq rows fd ty pl st = (f, st')"
  shows "\<exists>r'. room_step r (Ask fd ty pl) r' \<and> implements rows fd (own @ encode_frame f) st' r'"
proof -
  consider "ty = mtype REGISTER" | "ty = mtype LOGIN" | "ty = mtype CHAT"
    | "ty \<notin> {mtype REGISTER, mtype LOGIN, mtype CHAT}" by blast
  then show ?thesis
  proof cases
    case 1
    with assms(5) register_room [OF assms(1,4)] show ?thesis by (simp add: request_effect_def)
  next
    case 2
    with assms(5) login_room [OF assms(1-3)] show ?thesis by (simp add: request_effect_def)
  next
    case 3
    with assms(5) chat_room [OF assms(1,3) refl] show ?thesis by (auto simp: request_effect_def Let_def)
  next
    case 4
    with assms(5) have "f = error_frame ty RESP_ERROR_UNKNOWN_COMMAND" "st' = st"
      by (auto simp: request_effect_def)
    with implementsD [OF assms(1)] room_step.refuse [OF refused.unknown [OF 4]] show ?thesis
      by (intro exI [of _ "tell (\<lambda>j. j = fd) f r"] conjI implements_answer [OF assms(1)]) auto
  qed
qed

section \<open>One event is a run of the room\<close>

definition represents :: "('db \<Rightarrow> user_row list) \<Rightarrow> 'db server \<Rightarrow> room \<Rightarrow> bool" where
  "represents rows st r \<longleftrightarrow> accounts r = account rows (db st) \<and> online r = member_of st \<and>
     (\<forall>i. output_of st i = encode_frames (told r i))"

lemma implements_done: "implements rows fd [] st r \<longleftrightarrow> represents rows st r"
  by (simp add: implements_def represents_def)

lemma represents_cong:
  "represents rows st r \<Longrightarrow> db st' = db st \<Longrightarrow> member_of st' = member_of st \<Longrightarrow>
   (\<And>i. output_of st' i = output_of st i) \<Longrightarrow> represents rows st' r"
  by (simp add: represents_def)

definition asks :: "nat \<Rightarrow> (u8 \<times> bytes) list \<Rightarrow> room_action list" where
  "asks fd = map (\<lambda>(ty, pl). Ask fd ty pl)"

lemma asked_asks [simp]: "asked i (asks fd rqs) = (if fd = i then rqs else [])"
  unfolding asks_def by (rule asked_map)

lemma requests_room:
  assumes "implements rows fd own st r" "same_sizes st" "fd < get_size st" "db_ok sq rows (db st)"
    and "run_requests sq rows fd rqs st = (fs, st')"
  shows "\<exists>r'. room_run r (asks fd rqs) r' \<and> implements rows fd (own @ encode_frames fs) st' r'"
  using assms
proof (induction rqs arbitrary: own st r fs)
  case Nil
  then show ?case by (auto simp: asks_def intro: room_run.start)
next
  case (Cons rq rqs)
  obtain ty pl where rq: "rq = (ty, pl)" by (cases rq)
  obtain f st1 where e: "request_effect sq rows fd ty pl st = (f, st1)" by (rule prod.exhaust)
  obtain gs st2 where g: "run_requests sq rows fd rqs st1 = (gs, st2)" by (rule prod.exhaust)
  from Cons.prems(5) rq e g have out: "fs = f # gs" "st' = st2" by simp_all
  from request_room [OF Cons.prems(1-4) e] obtain r1 where
    r1: "room_step r (Ask fd ty pl) r1" "implements rows fd (own @ encode_frame f) st1 r1" by blast
  note ready = request_handler.ready [OF requests.handler e Cons.prems(2-4)]
  from Cons.IH [OF r1(2) ready] g out obtain r2 where
    r2: "room_run r1 (asks fd rqs) r2" "implements rows fd ((own @ encode_frame f) @ encode_frames gs) st' r2" by blast
  have "room_run r ([] @ [Ask fd ty pl]) r1" by (rule room_run.step [OF room_run.start r1(1)])
  from room_run_append [OF r2(1) this] r2(2) rq out show ?case by (auto simp: asks_def)
qed

lemma represents_queue:
  assumes "implements rows fd bs st r" "same_sizes st" "fd < get_size st"
  shows "represents rows (queue fd rest bs st) r"
proof -
  have "member_of (queue fd rest bs st) = member_of st" by (simp add: member_of_def table_simps fun_eq_iff)
  moreover have "output_of (queue fd rest bs st) i = encode_frames (told r i)" for i
    using implementsD(3) [OF assms(1), of i] assms(2,3) by (auto simp: output_of_def table_simps split: if_splits)
  ultimately show ?thesis using implementsD [OF assms(1)] by (simp add: represents_def table_simps)
qed

lemma represents_mark:
  assumes "represents rows st r" "fd < get_size st"
  shows "represents rows (mark fd s st) r"
proof (rule represents_cong [OF assms(1)])
  show "member_of (mark fd s st) = member_of st"
    using assms(2) by (auto simp: member_of_def mark_fields mark_nth state_flags_keep fun_eq_iff
        simp del: state_flags.simps)
qed (simp_all add: output_of_def table_simps)

lemma serve_room:
  assumes "represents rows st r" "same_sizes st" "fd < get_size st" "db_ok sq rows (db st)"
  shows "\<exists>r'. room_run r (asks fd (fst (split_requests (incoming_buffers st ! fd)))) r' \<and>
    represents rows (serve_spec sq rows fd st) r'"
proof -
  obtain rqs rest where sp: "split_requests (incoming_buffers st ! fd) = (rqs, rest)" by (rule prod.exhaust)
  obtain fs st1 where g: "run_requests sq rows fd rqs st = (fs, st1)" by (rule prod.exhaust)
  from requests_room [OF assms(1) [folded implements_done [of _ fd]] assms(2-4) g] obtain r' where
    r': "room_run r (asks fd rqs) r'" "implements rows fd (encode_frames fs) st1 r'" by auto
  have ok: "same_sizes st1" "fd < get_size st1" using keptD [OF run_requests_kept(1) [OF g assms(4)]] assms(2,3) by simp_all
  note q = represents_queue [OF r'(2) ok, of rest]
  from q represents_mark [OF q, of fd CLOSING] ok r'(1) sp g show ?thesis
    by (intro exI [of _ r']) (simp add: serve_spec_def Let_def queue_fields)
qed

text \<open>The requests an event runs: none unless the connection is read to the point where it would block.\<close>

definition event_requests :: "'db server \<Rightarrow> nat \<Rightarrow> bytes \<Rightarrow> read_end \<Rightarrow> (u8 \<times> bytes) list" where
  "event_requests st fd bs ending =
     (if has_flag (flags st ! fd) WANT_READ \<and> ending = Read_Would_Block
      then fst (split_requests (incoming_buffers st ! fd @ bs)) else [])"

lemma read_room:
  assumes "represents rows st r" "core sq rows used st" "fd < get_size st" "has_flag (flags st ! fd) IS_ACTIVE"
    and "has_flag (flags st ! fd) WANT_READ"
  shows "\<exists>r'. room_run r (asks fd (event_requests st fd bs ending)) r' \<and>
    represents rows (read_effect sq rows fd bs ending st) r'"
proof -
  note c = coreD [OF assms(2)]
  let ?r = "receive fd bs st"
  have rep: "represents rows ?r r"
    by (rule represents_cong [OF assms(1)]) (simp_all add: member_of_def output_of_def table_simps fun_eq_iff)
  have ok: "same_sizes ?r" "fd < get_size ?r" "db_ok sq rows (db ?r)" using c assms(3) by (simp_all add: table_simps)
  show ?thesis
  proof (cases ending)
    case Read_Would_Block
    from serve_room [OF rep ok] c(2) assms(3,5) obtain r' where
      "room_run r (asks fd (event_requests st fd bs ending)) r'" "represents rows (serve_spec sq rows fd ?r) r'"
      by (auto simp: event_requests_def Read_Would_Block receive_nth)
    with represents_mark [of rows "serve_spec sq rows fd ?r" r' fd WRITING] serve_spec_kept(1) [OF ok(1,3)] ok(2)
    show ?thesis by (intro exI [of _ r']) (simp add: read_effect_def Read_Would_Block Let_def)
  qed (use represents_mark [OF rep ok(2), of CLOSING] in
      \<open>auto simp: read_effect_def event_requests_def asks_def Let_def intro!: exI [of _ r] room_run.start\<close>)
qed

lemma write_room:
  assumes "represents rows st r" "same_sizes st" "fd < get_size st"
  shows "represents rows (write_effect fd rooms ending st) r"
proof -
  obtain s l e where d: "drain rooms (outgoing_buffers st ! fd) = (s, l, e)" by (rule prod_cases3)
  have sl: "outgoing_buffers st ! fd = s @ l" using drain_parts [OF d] by simp
  have t: "represents rows (transmit fd s l st) r"
  proof (rule represents_cong [OF assms(1)])
    show "output_of (transmit fd s l st) i = output_of st i" for i
      using assms(2,3) sl by (simp add: output_of_def table_simps)
  qed (simp_all add: member_of_def table_simps fun_eq_iff)
  have fd: "fd < get_size (transmit fd s l st)" using assms(3) by (simp add: table_simps)
  from t represents_mark [OF t fd] d show ?thesis
    by (simp add: write_effect_def Let_def split: write_end.split)
qed

lemma conn_room:
  fixes bs :: bytes and rooms :: "nat list" and err :: bool and re :: read_end and we :: write_end
  assumes "represents rows st r" "core sq rows used st" "fd < get_size st" "has_flag (flags st ! fd) IS_ACTIVE"
  defines "st' \<equiv> conn_effect sq rows fd err bs re rooms we st"
  shows "\<exists>r'. room_run r (asks fd (event_requests st fd bs re) @
      (if has_flag (flags st' ! fd) IS_ACTIVE then [] else [Leave fd])) r' \<and> represents rows st' r'"
proof -
  define st1 where "st1 = (if has_flag (flags st ! fd) WANT_READ then read_effect sq rows fd bs re st else st)"
  define st2 where "st2 = (if has_flag (flags st1 ! fd) WANT_WRITE then write_effect fd rooms we st1 else st1)"
  have s1: "step_ok sq rows used fd st st1"
    using read_step(1) [OF assms(2-4)] assms(2) by (simp add: st1_def step_ok_def undisturbed_refl)
  note fd1 = step_ok_active [OF s1 assms(3,4)]
  have s2: "step_ok sq rows used fd st st2"
    using write_step(1) [OF step_okD(1) [OF s1]] fd1 s1 by (auto simp: st2_def intro: step_ok_trans)
  note fd2 = step_ok_active [OF s2 assms(3,4)]
  have "\<exists>r1. room_run r (asks fd (event_requests st fd bs re)) r1 \<and> represents rows st1 r1"
    using read_room [OF assms(1-4), of bs re] assms(1)
    by (auto simp: st1_def event_requests_def asks_def intro!: exI [of _ r] room_run.start)
  then obtain r1 where r1: "room_run r (asks fd (event_requests st fd bs re)) r1" "represents rows st1 r1" by blast
  have r2: "represents rows st2 r1"
    using write_room [OF r1(2)] coreD(2) [OF step_okD(1) [OF s1]] fd1 r1(2) by (simp add: st2_def)
  show ?thesis
  proof (cases "err \<or> has_flag (flags st2 ! fd) WANT_CLOSE")
    case False
    then have "st' = st2" by (simp add: st'_def conn_effect_def flip: st1_def st2_def)
    with r1(1) r2 fd2 show ?thesis by auto
  next
    case True
    then have st': "st' = st2\<lparr>flags := (flags st2)[fd := NONE], epoll := (epoll st2)(fd := None)\<rparr>"
      by (simp add: st'_def conn_effect_def flip: st1_def st2_def)
    have gone: "\<not> has_flag (flags st' ! fd) IS_ACTIVE" using fd2 by (simp add: st' get_size_def)
    have "member_of st' = (member_of st2)(fd := None)"
      using fd2 unfolding st' by (auto simp: member_of_def get_size_def nth_list_update fun_eq_iff)
    moreover have "output_of st' i = output_of st2 i" for i by (simp add: st' output_of_def get_size_def)
    ultimately have "represents rows st' (r1\<lparr>online := (online r1)(fd := None)\<rparr>)"
      using r2 by (simp add: represents_def st')
    with room_run.step [OF r1(1) room_step.leave, of fd] gone show ?thesis by auto
  qed
qed

section \<open>What a connection has sent and what was asked of it\<close>

lemma serve_incoming:
  assumes "db_ok sq rows (db st)"
  shows "incoming_buffers (serve_spec sq rows fd st) =
    (incoming_buffers st)[fd := snd (split_requests (incoming_buffers st ! fd))]"
proof -
  obtain rqs rest where sp: "split_requests (incoming_buffers st ! fd) = (rqs, rest)" by (rule prod.exhaust)
  obtain fs st1 where g: "run_requests sq rows fd rqs st = (fs, st1)" by (rule prod.exhaust)
  from sp g keptD(2) [OF run_requests_kept(1) [OF g assms]] show ?thesis
    by (simp add: serve_spec_def Let_def mark_fields) (simp add: queue_def)
qed

lemma write_incoming: "incoming_buffers (write_effect fd rooms we st) = incoming_buffers st"
proof -
  obtain s l e where "drain rooms (outgoing_buffers st ! fd) = (s, l, e)" by (rule prod_cases3)
  then show ?thesis by (simp add: write_effect_def table_simps Let_def split: write_end.split)
qed

text \<open>
  An event leaves the input of the other connections alone; of its own connection it runs the
  requests the input can be cut into and keeps the rest, or closes it.
\<close>

lemma conn_input:
  fixes bs :: bytes and rooms :: "nat list" and err :: bool and re :: read_end and we :: write_end
  assumes "same_sizes st" "fd < get_size st" "db_ok sq rows (db st)"
  defines "st' \<equiv> conn_effect sq rows fd err bs re rooms we st"
  shows "i \<noteq> fd \<Longrightarrow> incoming_buffers st' ! i = incoming_buffers st ! i"
    and "\<not> has_flag (flags st ! fd) WANT_READ \<Longrightarrow> incoming_buffers st' ! fd = incoming_buffers st ! fd"
    and "has_flag (flags st ! fd) WANT_READ \<Longrightarrow> re = Read_Would_Block \<Longrightarrow>
      incoming_buffers st' ! fd = snd (split_requests (incoming_buffers st ! fd @ bs))"
proof -
  define st1 where "st1 = (if has_flag (flags st ! fd) WANT_READ then read_effect sq rows fd bs re st else st)"
  have inc: "incoming_buffers st' = incoming_buffers st1"
    by (simp add: st'_def conn_effect_def write_incoming Let_def flip: st1_def)
  have "fd < length (incoming_buffers st)" using assms(1,2) by (simp add: same_sizes_def)
  moreover have "incoming_buffers (read_effect sq rows fd bs re st) = (incoming_buffers st)[fd :=
      (if re = Read_Would_Block then snd (split_requests (incoming_buffers st ! fd @ bs)) else incoming_buffers st ! fd @ bs)]"
    using assms(3) calculation serve_incoming [of sq rows "receive fd bs st" fd]
    by (simp add: read_effect_def Let_def mark_fields receive_fields split: read_end.split) (simp add: receive_def)
  ultimately show "i \<noteq> fd \<Longrightarrow> incoming_buffers st' ! i = incoming_buffers st ! i"
    "\<not> has_flag (flags st ! fd) WANT_READ \<Longrightarrow> incoming_buffers st' ! fd = incoming_buffers st ! fd"
    "has_flag (flags st ! fd) WANT_READ \<Longrightarrow> re = Read_Would_Block \<Longrightarrow>
      incoming_buffers st' ! fd = snd (split_requests (incoming_buffers st ! fd @ bs))"
    by (simp_all add: inc st1_def)
qed

text \<open>A read that ends the connection takes it out of the table.\<close>

lemma conn_ended:
  assumes "core sq rows used st" "fd < get_size st" "has_flag (flags st ! fd) IS_ACTIVE"
    and "has_flag (flags st ! fd) WANT_READ" "re \<noteq> Read_Would_Block"
  shows "\<not> has_flag (flags (conn_effect sq rows fd err bs re rooms we st) ! fd) IS_ACTIVE"
proof -
  let ?st1 = "read_effect sq rows fd bs re st"
  have r: "?st1 = mark fd CLOSING (receive fd bs st)" using assms(5) by (cases re) (simp_all add: read_effect_def Let_def)
  have close: "has_flag (flags (write_effect fd rooms we ?st1) ! fd) WANT_CLOSE"
    "fd < get_size (write_effect fd rooms we ?st1)" "has_flag (flags ?st1 ! fd) WANT_CLOSE" "fd < get_size ?st1"
  proof -
    obtain s l e where "drain rooms (outgoing_buffers ?st1 ! fd) = (s, l, e)" by (rule prod_cases3)
    then show "has_flag (flags (write_effect fd rooms we ?st1) ! fd) WANT_CLOSE"
      "fd < get_size (write_effect fd rooms we ?st1)" "has_flag (flags ?st1 ! fd) WANT_CLOSE" "fd < get_size ?st1"
      using assms(2) by (auto simp: r write_effect_def table_simps flag_simps Let_def split: write_end.split)
  qed
  then show ?thesis using assms(4) by (simp add: conn_effect_def get_size_def Let_def)
qed

section \<open>Simulation\<close>

text \<open>A system simulates another when each of its steps is answered by steps that restore the relation.\<close>

locale forward_simulation =
  fixes cstep :: "'c \<Rightarrow> 'c \<Rightarrow> bool" and astep :: "'a \<Rightarrow> 'a \<Rightarrow> bool" and rel :: "'c \<Rightarrow> 'a \<Rightarrow> bool"
  assumes simulate: "rel c a \<Longrightarrow> cstep c c' \<Longrightarrow> \<exists>a'. astep\<^sup>*\<^sup>* a a' \<and> rel c' a'"
begin

lemma runs: "cstep\<^sup>*\<^sup>* c c' \<Longrightarrow> rel c a \<Longrightarrow> \<exists>a'. astep\<^sup>*\<^sup>* a a' \<and> rel c' a'"
proof (induction rule: rtranclp_induct)
  case (step c1 c2)
  then obtain a1 where "astep\<^sup>*\<^sup>* a a1" "rel c1 a1" by blast
  with simulate [OF this(2) step.hyps(2)] show ?case by (meson rtranclp_trans)
qed blast

text \<open>What the abstract steps keep holds of some abstract state for every concrete one.\<close>

lemma transfer:
  assumes "cstep\<^sup>*\<^sup>* c c'" "rel c a" "I a" "\<And>x y. astep x y \<Longrightarrow> I x \<Longrightarrow> I y"
  shows "\<exists>a'. rel c' a' \<and> I a'"
proof -
  from runs [OF assms(1,2)] obtain a' where a': "astep\<^sup>*\<^sup>* a a'" "rel c' a'" by blast
  from a'(1) have "I a'" by (induction rule: rtranclp_induct) (use assms(3,4) in blast)+
  with a'(2) show ?thesis by blast
qed

end

text \<open>The server with what each connection has sent it so far: the bytes \<open>read\<close> has returned.\<close>

fun hear :: "event \<Rightarrow> 'db server \<Rightarrow> (nat \<Rightarrow> bytes) \<Rightarrow> nat \<Rightarrow> bytes" where
  "hear (Conn_Ready fd _ chunks _ _ _) st received =
     (if has_flag (flags st ! fd) WANT_READ then received(fd := received fd @ concat chunks) else received)"
| "hear _ st received = received"

inductive heard_step :: "'db sqlite \<Rightarrow> (nat \<Rightarrow> bytes) \<times> nat list \<times> 'db server
    \<Rightarrow> (nat \<Rightarrow> bytes) \<times> nat list \<times> 'db server \<Rightarrow> bool" for sq :: "'db sqlite" where
  event: "possible used st ev \<Longrightarrow> handle_event sq ev st = Some (Running st') \<Longrightarrow>
    heard_step sq (received, used, st) (hear ev st received, used @ event_fds ev, st')"

definition heard :: "'db sqlite \<Rightarrow> 'db \<Rightarrow> (nat \<Rightarrow> bytes) \<Rightarrow> nat list \<Rightarrow> 'db server \<Rightarrow> bool" where
  "heard sq d received used st \<longleftrightarrow> (heard_step sq)\<^sup>*\<^sup>* (\<lambda>_. [], [], initial_server d) (received, used, st)"

inductive_cases heard_stepE: "heard_step sq (received, used, st) c"

lemma reachable_heard: "reachable sq d (used, st) \<longleftrightarrow> (\<exists>received. heard sq d received used st)"
proof
  assume "reachable sq d (used, st)"
  then show "\<exists>received. heard sq d received used st"
  proof (induction "(used, st)" arbitrary: used st rule: reachable.induct)
    case start
    show ?case by (auto simp: heard_def)
  next
    case (step c used' st')
    obtain used st where c: "c = (used, st)" by (cases c)
    from step.hyps(2)[OF c] obtain received where "heard sq d received used st" by blast
    moreover from step.hyps(3) c obtain ev where "possible used st ev" "handle_event sq ev st = Some (Running st')"
      "used' = used @ event_fds ev" by (auto elim: server_stepE)
    ultimately have "heard_step sq (received, used, st) (hear ev st received, used', st')"
      using heard_step.event [of used st ev sq st' received] by simp
    with \<open>heard sq d received used st\<close> show ?case
      unfolding heard_def by (blast intro: rtranclp.rtrancl_into_rtrancl)
  qed
next
  assume "\<exists>received. heard sq d received used st"
  then obtain received where "(heard_step sq)\<^sup>*\<^sup>* (\<lambda>_. [], [], initial_server d) (received, used, st)"
    by (auto simp: heard_def)
  then show "reachable sq d (used, st)"
  proof (induction "(received, used, st)" arbitrary: received used st rule: rtranclp_induct)
    case base
    then show ?case by (auto intro: reachable.start)
  next
    case (step c)
    obtain received1 used1 st1 where c: "c = (received1, used1, st1)" by (cases c)
    from step.hyps(2) c have "server_step sq (used1, st1) (used, st)"
      by (auto elim!: heard_stepE intro: server_step.event)
    with step.hyps(3) [OF c] show ?case by (rule reachable.step)
  qed
qed

text \<open>
  The link between bytes and requests: what was asked for a connection is a beginning of the requests
  its bytes can be cut into; for an open connection it is all of them, and the rest is in its buffer.
\<close>

definition in_step :: "(nat \<Rightarrow> bytes) \<Rightarrow> nat list \<Rightarrow> 'db server \<Rightarrow> room_action list \<Rightarrow> bool" where
  "in_step received used st as \<longleftrightarrow>
     (\<forall>i. prefix (asked i as) (fst (split_requests (received i)))) \<and>
     (\<forall>i < get_size st. has_flag (flags st ! i) IS_ACTIVE \<longrightarrow>
        split_requests (received i) = (asked i as, incoming_buffers st ! i)) \<and>
     (\<forall>i. i \<notin> set used \<longrightarrow> received i = [] \<and> asked i as = [])"

fun tracks :: "'db sqlite \<Rightarrow> ('db \<Rightarrow> user_row list) \<Rightarrow> (nat \<Rightarrow> bytes) \<times> nat list \<times> 'db server
    \<Rightarrow> room_action list \<times> room \<Rightarrow> bool" where
  "tracks sq rows (received, used, st) (as, r) \<longleftrightarrow>
     server_inv sq rows used st \<and> represents rows st r \<and> in_step received used st as"

fun acts_step :: "room_action list \<times> room \<Rightarrow> room_action list \<times> room \<Rightarrow> bool" where
  "acts_step (as, r) (as', r') \<longleftrightarrow> (\<exists>a. as' = as @ [a] \<and> room_step r a r')"

lemma room_run_steps: "room_run r bs r' \<Longrightarrow> acts_step\<^sup>*\<^sup>* (as, r) (as @ bs, r')"
proof (induction rule: room_run.induct)
  case (step bs r1 a r2)
  have "acts_step (as @ bs, r1) (as @ bs @ [a], r2)" using step.hyps(2) by simp
  with step.IH show ?case by (rule rtranclp.rtrancl_into_rtrancl)
qed simp

text \<open>Accepting keeps everything.\<close>

lemma represents_add:
  assumes "represents rows st r" "same_sizes st" "untouched st fd" "\<And>i. get_size st \<le> i \<Longrightarrow> wire st i = []"
    and "add_connection fd k st = Some (Running st')" "ctl_rc k \<noteq> -1"
  shows "represents rows st' r"
proof -
  note slot = add_connection_slot [OF assms(5,6)]
  note flag = add_connection_flags [OF assms(5,6)]
  note users = add_connection_users [OF assms(5,2)]
  have grow: "i < get_size st'" if "i < get_size st" for i using that slot(1) by simp
  have "member_of st' i = member_of st i" for i
  proof (cases "i < get_size st")
    case True
    with flag [OF grow [OF True]] users [OF True] assms(3) show ?thesis
      by (auto simp: member_of_def grow untouched_def flag_simps)
  next
    case False
    with flag [of i] show ?thesis by (auto simp: member_of_def flag_simps split: if_splits)
  qed
  moreover have "output_of st' i = output_of st i" for i
    using add_connection_buffers(1) [OF assms(5,2), of i] grow [of i] assms(4) [of i] slot(5) by (simp add: output_of_def)
  ultimately show ?thesis
    using slot(6) by (intro represents_cong [OF assms(1)]) (auto simp: fun_eq_iff)
qed

lemma in_step_add:
  assumes "in_step received used st as" "same_sizes st" "untouched st fd" "fd \<notin> set used"
    and "add_connection fd k st = Some (Running st')" "ctl_rc k \<noteq> -1"
  shows "in_step received (used @ [fd]) st' as"
proof -
  note bufs = add_connection_buffers(2) [OF assms(5,2)]
  have "split_requests (received i) = (asked i as, incoming_buffers st' ! i)"
    if i: "i < get_size st'" "has_flag (flags st' ! i) IS_ACTIVE" for i
  proof (cases "i = fd")
    case True
    with assms(1,3,4) bufs [OF i(1)] show ?thesis
      by (auto simp: in_step_def untouched_def split_requests.simps [of "[]"] next_request_def)
  next
    case False
    with i add_connection_flags [OF assms(5,6) i(1)] have "i < get_size st" "has_flag (flags st ! i) IS_ACTIVE"
      by (auto simp: flag_simps split: if_splits)
    with assms(1) bufs [OF i(1)] show ?thesis by (simp add: in_step_def)
  qed
  with assms(1) show ?thesis by (simp add: in_step_def)
qed

lemma tracks_add:
  assumes "tracks sq rows (received, used, st) (as, r)" "add_connection fd k st = Some (Running st')" "fd \<notin> set used"
  shows "tracks sq rows (received, used @ [fd], st') (as, r)"
proof -
  from assms(1) have inv: "server_inv sq rows used st" and rep: "represents rows st r"
    and link: "in_step received used st as" by simp_all
  have inv': "server_inv sq rows (used @ [fd]) st'" by (rule server_inv_add [OF inv assms(2,3)])
  show ?thesis
  proof (cases "ctl_rc k = -1")
    case True
    with assms(2) have "st' = st" by (auto simp: add_connection_def split: outcome.splits)
    with inv' rep link show ?thesis by (simp add: in_step_def)
  next
    case False
    from inv have "core sq rows used st" by (simp add: server_inv_def)
    note c = coreD [OF this]
    have own: "untouched st fd" using c(7) assms(3) by blast
    show ?thesis
      using inv' represents_add [OF rep c(2) own _ assms(2) False] in_step_add [OF link c(2) own assms(3,2) False] c(6)
      by simp
  qed
qed

lemma tracks_accept:
  assumes "tracks sq rows (received, used, st) (as, r)" "distinct (map fst conns)"
    "set (map fst conns) \<inter> set used = {}" "accept_all_connections conns ending st = Some (Running st')"
  shows "tracks sq rows (received, used @ map fst conns, st') (as, r)"
  using assms
proof (induction conns ending st arbitrary: used rule: accept_all_connections.induct)
  case (1 ending st)
  then show ?case by (cases ending) simp_all
next
  case (2 conn_fd k conns ending st)
  from "2.prems"(4) obtain st1 where add: "add_connection conn_fd k st = Some (Running st1)"
    and rest: "accept_all_connections conns ending st1 = Some (Running st')"
    by (cases "add_connection conn_fd k st" rule: option.exhaust) (auto split: outcome.splits)
  have "tracks sq rows (received, used @ [conn_fd], st1) (as, r)"
    using tracks_add [OF "2.prems"(1) add] "2.prems"(3) by auto
  from "2.IH" [OF add refl this _ _ rest] "2.prems"(2,3) show ?case by auto
qed

text \<open>A connection's event: what arrives is asked, as far as it is read and whole.\<close>

lemma conn_own_slot:
  fixes chunks :: "bytes list" and rooms :: "nat list" and err :: bool and re :: read_end and we :: write_end
  assumes "split_requests got = (old, incoming_buffers st ! fd)" "core sq rows used st" "fd < get_size st"
    and "has_flag (flags st ! fd) IS_ACTIVE"
  defines "st' \<equiv> conn_effect sq rows fd err (concat chunks) re rooms we st"
    and "got' \<equiv> if has_flag (flags st ! fd) WANT_READ then got @ concat chunks else got"
    and "rqs \<equiv> event_requests st fd (concat chunks) re"
  shows "prefix (old @ rqs) (fst (split_requests got')) \<and>
    (has_flag (flags st' ! fd) IS_ACTIVE \<longrightarrow> split_requests got' = (old @ rqs, incoming_buffers st' ! fd))"
proof -
  let ?bs = "concat chunks"
  note c = coreD [OF assms(2)]
  note input = conn_input [OF c(2) assms(3) c(3), where bs = ?bs and err = err and re = re and rooms = rooms and we = we]
  obtain new rest where more: "split_requests (incoming_buffers st ! fd @ ?bs) = (new, rest)" by (rule prod.exhaust)
  have longer: "split_requests (got @ ?bs) = (old @ new, rest)"
    using split_requests_append [OF assms(1), of ?bs] more by simp
  show ?thesis
  proof (cases "has_flag (flags st ! fd) WANT_READ")
    case False
    with assms(1) input(2) show ?thesis unfolding st'_def got'_def rqs_def by (simp add: event_requests_def)
  next
    case True
    show ?thesis
    proof (cases "re = Read_Would_Block")
      case block: True
      with True longer more input(3) [OF True block] show ?thesis
        unfolding st'_def got'_def rqs_def by (simp add: event_requests_def)
    next
      case False
      with True longer conn_ended [OF assms(2-4) True False] show ?thesis
        unfolding st'_def got'_def rqs_def by (simp add: event_requests_def)
    qed
  qed
qed

lemma conn_in_step:
  fixes chunks :: "bytes list" and rooms :: "nat list" and err :: bool and re :: read_end and we :: write_end
  assumes "in_step received used st as" "server_inv sq rows used st" "fd < get_size st"
    and "has_flag (flags st ! fd) IS_ACTIVE"
  defines "st' \<equiv> conn_effect sq rows fd err (concat chunks) re rooms we st"
  shows "in_step (hear (Conn_Ready fd err chunks re rooms we) st received) used st'
    (as @ asks fd (event_requests st fd (concat chunks) re) @ (if has_flag (flags st' ! fd) IS_ACTIVE then [] else [Leave fd]))"
proof -
  let ?bs = "concat chunks" and ?rqs = "event_requests st fd (concat chunks) re"
  let ?rcv = "hear (Conn_Ready fd err chunks re rooms we) st received"
  let ?as = "as @ asks fd ?rqs @ (if has_flag (flags st' ! fd) IS_ACTIVE then [] else [Leave fd])"
  from assms(2) have core: "core sq rows used st" by (simp add: server_inv_def)
  note c = coreD [OF core]
  note input = conn_input [OF c(2) assms(3) c(3), where bs = ?bs and err = err and re = re and rooms = rooms and we = we]
  note event = conn_event [OF assms(2-4), of err chunks re rooms we]
  have used: "fd \<in> set used" by (rule core_used [OF core assms(3,4)])
  have asked: "asked i ?as = asked i as @ (if fd = i then ?rqs else [])" for i by simp
  have own: "split_requests (received fd) = (asked fd as, incoming_buffers st ! fd)"
    using assms(1,3,4) by (simp add: in_step_def)
  have "?rcv fd = (if has_flag (flags st ! fd) WANT_READ then received fd @ ?bs else received fd)" by simp
  with conn_own_slot [OF own core assms(3,4), where chunks = chunks and err = err and re = re and rooms = rooms and we = we, folded st'_def] have
    fd: "prefix (asked fd ?as) (fst (split_requests (?rcv fd))) \<and>
      (has_flag (flags st' ! fd) IS_ACTIVE \<longrightarrow> split_requests (?rcv fd) = (asked fd ?as, incoming_buffers st' ! fd))"
    by (simp only: asked if_True simp_thms) blast
  have other: "?rcv i = received i" if "i \<noteq> fd" for i using that by simp
  have "prefix (asked i ?as) (fst (split_requests (?rcv i)))" for i
  proof (cases "i = fd")
    case False
    with assms(1) other [OF False] show ?thesis unfolding asked by (simp add: in_step_def)
  qed (use fd in blast)
  moreover have "split_requests (?rcv i) = (asked i ?as, incoming_buffers st' ! i)"
    if "i < get_size st'" "has_flag (flags st' ! i) IS_ACTIVE" for i
  proof (cases "i = fd")
    case False
    have "i < get_size st" "has_flag (flags st ! i) IS_ACTIVE"
      using that False event(3,4) by (simp_all add: st'_def)
    with assms(1) other [OF False] input(1) [OF False] False show ?thesis
      unfolding asked by (simp add: in_step_def st'_def)
  qed (use fd that in blast)
  moreover have "?rcv i = [] \<and> asked i ?as = []" if "i \<notin> set used" for i
    using that used assms(1) unfolding asked by (auto simp: in_step_def)
  ultimately show ?thesis unfolding in_step_def by blast
qed

interpretation room_sim: forward_simulation "heard_step sq" acts_step "tracks sq rows"
proof
  fix c :: "(nat \<Rightarrow> bytes) \<times> nat list \<times> 'a server" and a c'
  assume rel: "tracks sq rows c a" and step: "heard_step sq c c'"
  obtain received used st where c: "c = (received, used, st)" by (rule prod_cases3)
  obtain as r where a: "a = (as, r)" by (cases a)
  from rel c a have inv: "server_inv sq rows used st" and rep: "represents rows st r"
    and link: "in_step received used st as" by simp_all
  from step c obtain ev st' where ev: "possible used st ev" "handle_event sq ev st = Some (Running st')"
    and c': "c' = (hear ev st received, used @ event_fds ev, st')" by (auto elim: heard_stepE)
  have inv': "server_inv sq rows (used @ event_fds ev) st'" by (rule handle_event_inv [OF inv ev])
  show "\<exists>a'. acts_step\<^sup>*\<^sup>* a a' \<and> tracks sq rows c' a'"
  proof (cases ev)
    case (Listen_Ready err conns ending)
    with ev rel c a have "tracks sq rows (received, used @ map fst conns, st') (as, r)"
      by (intro tracks_accept [of sq rows received used st]) (auto simp: list_all_iff split: if_splits)
    with Listen_Ready c' a show ?thesis by auto
  next
    case (Stdin_Ready err src answers ending)
    with ev have "st' = st" by (auto simp: bind_eq_Some_conv split: if_splits)
    with rel Stdin_Ready c c' have "tracks sq rows c' a" by simp
    then show ?thesis by blast
  next
    case (Conn_Ready fd err chunks re rooms we)
    from inv have tab: "table_inv st" by (simp add: server_inv_def core_def)
    from ev(1) Conn_Ready have "epoll st fd \<noteq> None" by simp
    with table_inv_registered [OF tab, of fd] table_inv_slot [OF tab, of fd]
    have fd: "fd < get_size st" "has_flag (flags st ! fd) IS_ACTIVE" using slot_ok_reg by blast+
    have st': "st' = conn_effect sq rows fd err (concat chunks) re rooms we st"
      using conn_running [OF inv fd] ev(2) Conn_Ready by (simp del: handle_event.simps)
    let ?bs = "asks fd (event_requests st fd (concat chunks) re) @ (if has_flag (flags st' ! fd) IS_ACTIVE then [] else [Leave fd])"
    have core: "core sq rows used st" using inv by (simp add: server_inv_def)
    from conn_room [OF rep core fd, of "concat chunks" re err rooms we] obtain r' where
      r': "room_run r ?bs r'" "represents rows st' r'" unfolding st' by blast
    have "tracks sq rows c' (as @ ?bs, r')"
      using inv' r'(2) conn_in_step [OF link inv fd, of err chunks re rooms we] c' Conn_Ready
      by (simp add: st' del: hear.simps)
    with room_run_steps [OF r'(1), of as] a show ?thesis by blast
  qed
qed

lemma tracks_start:
  assumes "db_ok sq rows d"
  shows "tracks sq rows (\<lambda>_. [], [], initial_server d) ([], open_room (account rows d))"
proof -
  have "represents rows (initial_server d) (open_room (account rows d))"
    by (auto simp: represents_def open_room_def member_of_def output_of_def initial_server_fields get_size_def fun_eq_iff)
  moreover have "in_step (\<lambda>_. []) [] (initial_server d) []"
    by (auto simp: in_step_def initial_server_fields get_size_def split_requests.simps [of "[]"] next_request_def)
  ultimately show ?thesis using initial_server_quiet [OF assms] by simp
qed

lemma room_reached:
  assumes "heard sq d received used st" "db_ok sq rows d"
  obtains as r where "room_run (open_room (account rows d)) as r" "tracks sq rows (received, used, st) (as, r)"
proof -
  let ?I = "\<lambda>(as, r). room_run (open_room (account rows d)) as r"
  have "\<exists>a. tracks sq rows (received, used, st) a \<and> ?I a"
  proof (rule room_sim.transfer [where I = ?I])
    show "(heard_step sq)\<^sup>*\<^sup>* (\<lambda>_. [], [], initial_server d) (received, used, st)"
      using assms(1) by (simp add: heard_def)
    show "tracks sq rows (\<lambda>_. [], [], initial_server d) ([], open_room (account rows d))"
      by (rule tracks_start [OF assms(2)])
    show "?I ([], open_room (account rows d))" by (simp add: room_run.start)
    show "?I y" if "acts_step x y" "?I x" for x y
      using that by (cases x; cases y) (auto intro: room_run.step)
  qed
  with that show thesis by blast
qed

text \<open>What was asked is among the requests in the bytes received.\<close>

definition sent_by :: "(nat \<Rightarrow> bytes) \<Rightarrow> nat \<Rightarrow> (u8 \<times> bytes) list" where
  "sent_by received i = fst (split_requests (received i))"

lemma asked_sent:
  "in_step received used st as \<Longrightarrow> set (asked i as) \<subseteq> set (sent_by received i)"
  unfolding in_step_def sent_by_def by (blast dest: set_mono_prefix)

section \<open>The frames of a room are those of the server\<close>

lemma chat_answer_ok: "answer_ok (chat_frame name recipient content)"
  by (cases recipient) (auto simp: answer_ok_def answer_typed_def frame_ok_def request_frame_def chat_tlvs_short)

lemma told_ok: "room_run (open_room acc) as r \<Longrightarrow> list_all answer_ok (told r j)"
proof (induction rule: room_run.induct)
  case start
  show ?case by (simp add: open_room_def)
next
  case (step as r a r')
  from step.hyps(2) show ?case
    by cases (use step.IH refused_code error_answer_ok user_answer_ok chat_answer_ok in auto)
qed

end
