(* ===== verification/Progress.thy ===== *)
theory Progress
  imports Server_Invariant
begin

text \<open>
  Output drains: a connection that the server is writing to is given its whole queue by as many
  write-ready events as there are bytes, when each finds room for at least one, and goes back to
  reading. The queue's length is the measure; events without data leave a reading connection as
  it is.
\<close>

text \<open>An event that finds the connection writable and no new input.\<close>

fun write_ready :: "nat \<Rightarrow> event \<Rightarrow> bool" where
  "write_ready fd (Conn_Ready i err chunks re rooms we) \<longleftrightarrow> i = fd \<and> \<not> err \<and> concat chunks = [] \<and>
     re = Read_Would_Block \<and> we = Write_Would_Block \<and> rooms \<noteq> [] \<and> 0 < hd rooms"
| "write_ready fd _ \<longleftrightarrow> False"

lemma drain_progress:
  assumes "rooms \<noteq> []" "0 < hd rooms" "drain rooms out = (s, l, emptied)"
  shows "emptied \<or> length l < length out"
proof -
  obtain room rest where r: "rooms = room # rest" using assms(1) by (cases rooms) auto
  show ?thesis
  proof (cases "length out \<le> room")
    case False
    obtain s' l' e' where d: "drain rest (drop room out) = (s', l', e')" by (rule prod_cases3)
    then have "length s' + length l' = length (drop room out)"
      using drain_parts [OF d] by (metis length_append)
    with d r False assms(2,3) show ?thesis by auto
  qed (use assms(3) r in simp)
qed

text \<open>One such event of a connection in the writing state.\<close>

lemma writing_event:
  assumes "server_inv sq rows used st" "epoll st fd = Some EPOLLOUT_ET"
    and "write_ready fd (Conn_Ready fd err chunks re rooms we)"
    and "drain rooms (outgoing_buffers st ! fd) = (s, l, emptied)"
  shows "handle_event sq (Conn_Ready fd err chunks re rooms we) st =
    Some (Running (if emptied then mark fd READING (transmit fd s l st) else transmit fd s l st))"
proof -
  from assms(1) have core: "core sq rows used st" by (simp add: server_inv_def)
  note c = coreD [OF core]
  from table_inv_registered [OF c(1), of fd] assms(2) have fd: "fd < get_size st" by simp
  have act: "has_flag (flags st ! fd) IS_ACTIVE" "has_flag (flags st ! fd) WANT_WRITE"
    "\<not> has_flag (flags st ! fd) WANT_READ"
    using table_inv_slot [OF c(1) fd] assms(2) by (auto simp: slot_ok_def)
  have cl: "\<not> has_flag (flags st ! fd) WANT_CLOSE"
    using assms(1) fd act(1) by (simp add: server_inv_def quiet_def)
  have "conn_effect sq rows fd err (concat chunks) re rooms we st =
      (if emptied then mark fd READING (transmit fd s l st) else transmit fd s l st)"
    using act cl assms(3,4) fd c(2)
    by (auto simp: conn_effect_def write_effect_def Let_def table_simps flag_simps)
  then show ?thesis
    using conn_event(1) [OF assms(1) fd act(1), of err chunks re rooms we] assms(3)
    by (simp del: handle_event.simps)
qed

text \<open>And of one in the reading state that has nothing to read.\<close>

lemma idle_effect:
  assumes "server_inv sq rows used st" "epoll st fd = Some EPOLLIN_ET"
  shows "fd < get_size st" "has_flag (flags st ! fd) IS_ACTIVE"
    and "conn_effect sq rows fd False [] Read_Would_Block rooms we st = st"
proof -
  from assms(1) have core: "core sq rows used st" by (simp add: server_inv_def)
  note c = coreD [OF core]
  from table_inv_registered [OF c(1), of fd] assms(2) show fd: "fd < get_size st" by simp
  from table_inv_slot [OF c(1) fd] assms(2) show act: "has_flag (flags st ! fd) IS_ACTIVE"
    by (auto simp: slot_ok_def)
  have reads: "has_flag (flags st ! fd) WANT_READ" "\<not> has_flag (flags st ! fd) WANT_WRITE"
    using table_inv_slot [OF c(1) fd] assms(2) by (auto simp: slot_ok_def)
  then have q: "\<not> has_flag (flags st ! fd) WANT_CLOSE" "next_request (incoming_buffers st ! fd) = Incomplete"
    "outgoing_buffers st ! fd = []"
    using assms(1) fd act by (auto simp: server_inv_def quiet_def settled_def)
  have "split_requests (incoming_buffers st ! fd) = ([], incoming_buffers st ! fd)"
    using q(2) by (simp add: split_requests.simps [of "incoming_buffers st ! fd"])
  then have "serve_spec sq rows fd st = st"
    using q(2) by (simp add: serve_spec_def) (simp add: queue_def)
  then show "conn_effect sq rows fd False [] Read_Would_Block rooms we st = st"
    using reads q by (simp add: conn_effect_def read_effect_def)
qed

lemma idle_event:
  assumes "server_inv sq rows used st" "epoll st fd = Some EPOLLIN_ET"
    and "write_ready fd (Conn_Ready fd err chunks re rooms we)"
  shows "handle_event sq (Conn_Ready fd err chunks re rooms we) st = Some (Running st)"
proof -
  note i = idle_effect [OF assms(1,2)]
  from assms(3) have ev: "\<not> err" "concat chunks = []" "re = Read_Would_Block" "we \<noteq> Write_Broken_Pipe" by simp_all
  with i(3) have "conn_effect sq rows fd err (concat chunks) re rooms we st = st" by metis
  then show ?thesis
    using conn_event(1) [OF assms(1) i(1,2), of err chunks re rooms we] ev(4)
    by (simp del: handle_event.simps)
qed

lemma write_ready_possible:
  "write_ready fd ev \<Longrightarrow> epoll st fd \<noteq> None \<Longrightarrow> possible used st ev \<and> event_fds ev = []"
  by (cases ev) simp_all

lemma idle_events:
  assumes "server_inv sq rows used st" "epoll st fd = Some EPOLLIN_ET" "list_all (write_ready fd) evs"
  shows "handle_events sq evs st = Some (Running st)"
  using assms(3)
proof (induction evs)
  case (Cons ev evs)
  then have wr: "write_ready fd ev" "list_all (write_ready fd) evs" by simp_all
  then obtain err chunks re rooms we where ev: "ev = Conn_Ready fd err chunks re rooms we"
    by (cases ev) auto
  have "handle_event sq ev st = Some (Running st)"
    unfolding ev by (rule idle_event [OF assms(1,2) wr(1) [unfolded ev]])
  with Cons.IH [OF wr(2)] show ?case by (simp del: handle_event.simps)
qed simp

lemma output_drained:
  assumes "server_inv sq rows used st" "epoll st fd = Some EPOLLOUT_ET"
    and "list_all (write_ready fd) evs" "length (outgoing_buffers st ! fd) < length evs"
  shows "\<exists>st'. handle_events sq evs st = Some (Running st') \<and> outgoing_buffers st' ! fd = [] \<and>
    wire st' fd = wire st fd @ outgoing_buffers st ! fd \<and> epoll st' fd = Some EPOLLIN_ET"
  using assms
proof (induction evs arbitrary: st)
  case (Cons ev evs)
  then obtain err chunks re rooms we where ev: "ev = Conn_Ready fd err chunks re rooms we"
    and wr: "write_ready fd ev" "list_all (write_ready fd) evs"
    by (cases ev) auto
  obtain s l emptied where d: "drain rooms (outgoing_buffers st ! fd) = (s, l, emptied)" by (rule prod_cases3)
  note parts = drain_parts [OF d]
  let ?t = "transmit fd s l st"
  let ?st = "if emptied then mark fd READING ?t else ?t"
  have run: "handle_event sq ev st = Some (Running ?st)"
    unfolding ev by (rule writing_event [OF Cons.prems(1,2) wr(1) [unfolded ev] d])
  have inv: "server_inv sq rows used ?st"
    using handle_event_inv [OF Cons.prems(1) _ run] write_ready_possible [OF wr(1), of st used] Cons.prems(2)
    by (simp del: possible.simps)
  from Cons.prems(1) have c: "same_sizes st" "fd < get_size st"
    using coreD(1,2) table_inv_registered [of st fd] Cons.prems(2) by (auto simp: server_inv_def)
  show ?case
  proof (cases emptied)
    case True
    with parts have "s = outgoing_buffers st ! fd" by (metis append_Nil2)
    have "epoll ?st fd = Some EPOLLIN_ET" "outgoing_buffers ?st ! fd = []" "wire ?st fd = wire st fd @ outgoing_buffers st ! fd"
      using True c Cons.prems(2) \<open>s = outgoing_buffers st ! fd\<close> parts by (simp_all add: table_simps epoll_mod_def)
    with idle_events [OF inv _ wr(2)] run show ?thesis by (simp del: handle_event.simps)
  next
    case False
    have "epoll ?st fd = Some EPOLLOUT_ET" "outgoing_buffers ?st ! fd = l" "wire ?st fd = wire st fd @ s"
      using False c Cons.prems(2) by (simp_all add: table_simps)
    moreover have "length l < length evs"
      using drain_progress [OF _ _ d] wr(1) ev False Cons.prems(4) by simp
    ultimately show ?thesis
      using Cons.IH [OF inv _ wr(2)] run parts by (auto simp del: handle_event.simps)
  qed
qed simp

end
