(* ===== verification/Wakeups.thy ===== *)
theory Wakeups
  imports Room_Refinement Progress
begin

text \<open>
  The server together with the sockets and the edge-triggered epoll instance it runs on: no wake-up
  is lost, and when no descriptor waits to be served, everything that can be done has been done.

  The sockets are the environment of the model, with the behaviour that \<open>epoll(7)\<close>, \<open>read(2)\<close> and
  \<open>write(2)\<close> document: bytes arrive, a connection is hung up, space appears in a send buffer; a
  descriptor is reported when one of these happens and its registration asks for it, or when a
  registration is added or modified while its condition holds. A report is given once. Between two
  reports of a connection its handler drains what the socket holds, or is told the end of file.
\<close>

section \<open>Sockets\<close>

text \<open>
  What the kernel holds for each descriptor: the bytes that have arrived and were not read, whether
  the peer has ended or broken the connection, and the space left in the send buffer; and the
  descriptors that were reported, or will be, and have not been served since.
\<close>

record sockets =
  pending :: "nat \<Rightarrow> bytes"
  hung :: "nat \<Rightarrow> bool"
  space :: "nat \<Rightarrow> nat"
  waiting :: "nat set"

definition fresh_sockets :: sockets where
  "fresh_sockets = \<lparr>pending = (\<lambda>_. []), hung = (\<lambda>_. False), space = (\<lambda>_. 0), waiting = {}\<rparr>"

text \<open>The condition a registration asks for.\<close>

definition ready :: "sockets \<Rightarrow> 'db server \<Rightarrow> nat \<Rightarrow> bool" where
  "ready k st i \<longleftrightarrow>
     (case epoll st i of
        None \<Rightarrow> False
      | Some EPOLLIN_ET \<Rightarrow> pending k i \<noteq> [] \<or> hung k i
      | Some EPOLLOUT_ET \<Rightarrow> 0 < space k i)"

text \<open>What happens at the sockets.\<close>

inductive socket_event :: "'db server \<Rightarrow> sockets \<Rightarrow> sockets \<Rightarrow> bool" for st :: "'db server" and k :: sockets where
  arrives: "bs \<noteq> [] \<Longrightarrow> \<not> hung k i \<Longrightarrow>
    socket_event st k (k\<lparr>pending := (pending k)(i := pending k i @ bs),
      waiting := waiting k \<union> {j. j = i \<and> epoll st i = Some EPOLLIN_ET}\<rparr>)"
| hangs_up: "socket_event st k (k\<lparr>hung := (hung k)(i := True),
      waiting := waiting k \<union> {j. j = i \<and> epoll st i \<noteq> None}\<rparr>)"
| sends: "0 < n \<Longrightarrow>
    socket_event st k (k\<lparr>space := (space k)(i := space k i + n),
      waiting := waiting k \<union> {j. j = i \<and> epoll st i = Some EPOLLOUT_ET}\<rparr>)"

text \<open>
  How the kernel answers the handler of a reported connection: \<open>read\<close> returns all that has arrived, and
  then that it would block, unless the connection is hung up; \<open>write\<close> finds the space there is, and
  can only fail when the connection is hung up.
\<close>

fun answered :: "sockets \<Rightarrow> event \<Rightarrow> bool" where
  "answered k (Conn_Ready fd err chunks re rooms we) \<longleftrightarrow> fd \<in> waiting k \<and> concat chunks = pending k fd \<and>
     (we = Write_Would_Block \<longrightarrow> sum_list rooms = space k fd) \<and>
     (if hung k fd then re \<noteq> Read_Would_Block
      else \<not> err \<and> re = Read_Would_Block \<and> we = Write_Would_Block)"
| "answered k _ \<longleftrightarrow> False"

text \<open>
  The sockets after the handler has run: what was read and sent is gone, its report is used up, and
  the registrations that have changed are reported when their condition holds.
\<close>

definition consumed :: "nat \<Rightarrow> 'db server \<Rightarrow> 'db server \<Rightarrow> sockets \<Rightarrow> sockets" where
  "consumed fd st st' k = k\<lparr>
     pending := (if has_flag (flags st ! fd) WANT_READ then (pending k)(fd := []) else pending k),
     space := (space k)(fd := space k fd - (length (wire st' fd) - length (wire st fd))),
     waiting := waiting k - {fd}\<rparr>"

definition notified :: "'db server \<Rightarrow> 'db server \<Rightarrow> sockets \<Rightarrow> sockets" where
  "notified st st' k = k\<lparr>waiting := waiting k \<union> {i. epoll st' i \<noteq> epoll st i \<and> ready k st' i}\<rparr>"

lemma socket_fields [simp]:
  "pending (notified st st' k) = pending k" "hung (notified st st' k) = hung k" "space (notified st st' k) = space k"
  "hung (consumed fd st st' k) = hung k" "waiting (consumed fd st st' k) = waiting k - {fd}"
  "pending (consumed fd st st' k) i = (if i = fd \<and> has_flag (flags st ! fd) WANT_READ then [] else pending k i)"
  "i \<noteq> fd \<Longrightarrow> space (consumed fd st st' k) i = space k i"
  by (simp_all add: notified_def consumed_def)

lemma ready_notified [simp]: "ready (notified st st' k) = ready k"
  by (intro ext) (simp add: ready_def split: option.split interest.split)

lemma ready_waiting [simp]: "ready (k\<lparr>waiting := w\<rparr>) = ready k"
  by (intro ext) (simp add: ready_def split: option.split interest.split)

text \<open>One turn of the server, and every other step of the server and its sockets.\<close>

type_synonym 'db world = "sockets \<times> (nat \<Rightarrow> bytes) \<times> nat list \<times> 'db server"

inductive turn :: "'db sqlite \<Rightarrow> 'db world \<Rightarrow> 'db world \<Rightarrow> bool" for sq :: "'db sqlite" where
  serve: "answered k (Conn_Ready fd err chunks re rooms we) \<Longrightarrow>
    possible used st (Conn_Ready fd err chunks re rooms we) \<Longrightarrow>
    handle_event sq (Conn_Ready fd err chunks re rooms we) st = Some (Running st') \<Longrightarrow>
    turn sq (k, received, used, st)
      (notified st st' (consumed fd st st' k), hear (Conn_Ready fd err chunks re rooms we) st received, used, st')"

inductive world_step :: "'db sqlite \<Rightarrow> 'db world \<Rightarrow> 'db world \<Rightarrow> bool" for sq :: "'db sqlite" where
  serves: "turn sq c c' \<Longrightarrow> world_step sq c c'"
| other: "(\<And>fd err chunks re rooms we. ev \<noteq> Conn_Ready fd err chunks re rooms we) \<Longrightarrow>
    possible used st ev \<Longrightarrow> handle_event sq ev st = Some (Running st') \<Longrightarrow>
    world_step sq (k, received, used, st) (notified st st' k, received, used @ event_fds ev, st')"
| outside: "socket_event st k k' \<Longrightarrow> world_step sq (k, received, used, st) (k', received, used, st)"

definition world :: "'db sqlite \<Rightarrow> 'db \<Rightarrow> 'db world \<Rightarrow> bool" where
  "world sq d c \<longleftrightarrow> (world_step sq)\<^sup>*\<^sup>* (fresh_sockets, \<lambda>_. [], [], initial_server d) c"

inductive_cases turnE: "turn sq (k, received, used, st) c"
inductive_cases world_stepE: "world_step sq (k, received, used, st) c"
inductive_cases socket_eventE: "socket_event st k k'"

text \<open>Seen from the server alone these are the runs of \<open>heard\<close>.\<close>

lemma turn_heard:
  assumes "turn sq (k, received, used, st) (k', received', used', st')"
  shows "heard_step sq (received, used, st) (received', used', st')"
  using assms
proof (cases rule: turn.cases)
  case (serve fd err chunks re rooms we)
  with heard_step.event [OF serve(5,6), of received] show ?thesis
    by (simp del: hear.simps handle_event.simps possible.simps)
qed

lemma world_heard: "world sq d (k, received, used, st) \<Longrightarrow> heard sq d received used st"
  unfolding world_def heard_def
proof (induction "(k, received, used, st)" arbitrary: k received used st rule: rtranclp_induct)
  case base
  show ?case by simp
next
  case (step c)
  obtain k1 received1 used1 st1 where c: "c = (k1, received1, used1, st1)" by (cases c)
  note run = step.hyps(3) [OF c]
  from step.hyps(2) [unfolded c] show ?case
  proof (cases rule: world_step.cases)
    case serves
    with run turn_heard show ?thesis by (metis rtranclp.rtrancl_into_rtrancl)
  next
    case (other ev)
    from other(4) have "hear ev st1 received1 = received1" by (metis event.exhaust hear.simps(2,3))
    with heard_step.event [OF other(5,6), of received1] other(2-4) have
      "heard_step sq (received1, used1, st1) (received, used, st)" by simp
    with run show ?thesis by (rule rtranclp.rtrancl_into_rtrancl)
  next
    case outside
    with run show ?thesis by simp
  qed
qed

lemma world_inv:
  assumes "world sq d (k, received, used, st)" "db_ok sq rows d"
  shows "server_inv sq rows used st"
  using reachable_inv [OF _ assms(2), of "(used, st)"] world_heard [OF assms(1)] reachable_heard by fastforce

section \<open>The effect of a turn on its own connection\<close>

lemma drain_stuck: "drain rooms out = (s, l, False) \<Longrightarrow> length s = sum_list rooms"
proof (induction rooms out arbitrary: s l rule: drain.induct)
  case (2 room rooms out)
  then have long: "\<not> length out \<le> room" by (auto split: if_splits)
  obtain s' l' e' where d: "drain rooms (drop room out) = (s', l', e')" by (rule prod_cases3)
  with 2(2) long have "s = take room out @ s'" "\<not> e'" by simp_all
  with 2(1) [OF long] d long show ?case by simp
qed simp

lemma registered_slot:
  assumes "server_inv sq rows used st" "epoll st fd \<noteq> None"
  shows "fd < get_size st" "has_flag (flags st ! fd) IS_ACTIVE" "\<not> has_flag (flags st ! fd) WANT_CLOSE"
    and "epoll st fd = Some EPOLLIN_ET \<longleftrightarrow> has_flag (flags st ! fd) WANT_READ"
    and "epoll st fd = Some EPOLLOUT_ET \<longleftrightarrow> has_flag (flags st ! fd) WANT_WRITE"
proof -
  from assms(1) have inv: "table_inv st" by (simp add: server_inv_def core_def)
  show fd: "fd < get_size st" by (rule table_inv_registered [OF inv assms(2)])
  from table_inv_slot [OF inv fd] assms(2) show act: "has_flag (flags st ! fd) IS_ACTIVE"
    and "epoll st fd = Some EPOLLIN_ET \<longleftrightarrow> has_flag (flags st ! fd) WANT_READ"
    and "epoll st fd = Some EPOLLOUT_ET \<longleftrightarrow> has_flag (flags st ! fd) WANT_WRITE"
    by (auto simp: slot_ok_def)
  from assms(1) fd act show "\<not> has_flag (flags st ! fd) WANT_CLOSE" by (simp add: server_inv_def quiet_def)
qed

text \<open>A connection that is written to is left writing only when the space was used up.\<close>

lemma turn_writing:
  assumes "server_inv sq rows used st" "epoll st fd = Some EPOLLOUT_ET"
    and "handle_event sq (Conn_Ready fd err chunks re rooms we) st = Some (Running st')"
  shows "\<exists>x. epoll st' = (epoll st)(fd := x) \<and> (x = Some EPOLLOUT_ET \<longrightarrow>
    we = Write_Would_Block \<and> length (wire st' fd) = length (wire st fd) + sum_list rooms)"
proof -
  have reg: "epoll st fd \<noteq> None" by (simp add: assms(2))
  note slot = registered_slot [OF assms(1) reg]
  have w: "has_flag (flags st ! fd) WANT_WRITE" "\<not> has_flag (flags st ! fd) WANT_READ"
    using slot(4,5) assms(2) by simp_all
  obtain s l e where d: "drain rooms (outgoing_buffers st ! fd) = (s, l, e)" by (rule prod_cases3)
  have alive: "\<not> (we = Write_Broken_Pipe \<and> \<not> e)"
    using conn_event(1) [OF assms(1) slot(1,2), of err chunks re rooms we] assms(3) w d
    by (auto simp: conn_outcome_def conn_killed_def pipe_breaks_def simp del: handle_event.simps split: if_splits)
  define st2 where "st2 = write_effect fd rooms we st"
  have st2: "st2 = (if e then mark fd READING (transmit fd s l st)
      else case we of Write_Error \<Rightarrow> mark fd CLOSING (transmit fd s l st) | _ \<Rightarrow> transmit fd s l st)"
    by (simp add: st2_def write_effect_def d Let_def)
  have "st' = (if err \<or> has_flag (flags st2 ! fd) WANT_CLOSE
      then st2\<lparr>flags := (flags st2)[fd := NONE], epoll := (epoll st2)(fd := None)\<rparr> else st2)"
    using conn_running [OF assms(1) slot(1,2) assms(3)] w by (simp add: conn_effect_def flip: st2_def)
  then have st': "epoll st' = (if err \<or> has_flag (flags st2 ! fd) WANT_CLOSE then (epoll st2)(fd := None) else epoll st2)"
    "wire st' = wire st2" by simp_all
  have wire: "wire st2 fd = wire st fd @ s" by (cases we) (simp_all add: st2 table_simps)
  show ?thesis
  proof (cases e)
    case True
    then have "epoll st2 = (epoll st)(fd := Some EPOLLIN_ET)"
      using assms(2) by (simp add: st2 table_simps epoll_mod_def)
    with st'(1) show ?thesis by (cases "err \<or> has_flag (flags st2 ! fd) WANT_CLOSE") auto
  next
    case False
    then have ep: "epoll st2 = epoll st" by (cases we) (simp_all add: st2 table_simps)
    have "has_flag (flags st2 ! fd) WANT_CLOSE" if "we = Write_Error"
      using that False slot(1) by (simp add: st2 table_simps flag_simps)
    with alive False st' ep drain_stuck [of rooms "outgoing_buffers st ! fd" s l] d wire show ?thesis
      by (cases "err \<or> has_flag (flags st2 ! fd) WANT_CLOSE"; cases we)
        (auto intro: exI [of _ "epoll st fd"] exI [of _ None])
  qed
qed

text \<open>One that is read is closed at the end of its input, and left alone by a report with nothing to read.\<close>

lemma turn_ending:
  assumes "server_inv sq rows used st" "epoll st fd = Some EPOLLIN_ET" "re \<noteq> Read_Would_Block"
    and "handle_event sq (Conn_Ready fd err chunks re rooms we) st = Some (Running st')"
  shows "epoll st' = (epoll st)(fd := None)"
proof -
  have reg: "epoll st fd \<noteq> None" by (simp add: assms(2))
  note slot = registered_slot [OF assms(1) reg]
  have "has_flag (flags st ! fd) WANT_READ" "\<not> has_flag (flags st ! fd) WANT_WRITE"
    using slot(4,5) assms(2) by simp_all
  moreover have "read_effect sq rows fd (concat chunks) re st = mark fd CLOSING (receive fd (concat chunks) st)"
    using assms(3) by (cases re) (simp_all add: read_effect_def Let_def)
  ultimately show ?thesis
    using conn_running [OF assms(1) slot(1,2) assms(4)] slot(1)
    by (simp add: conn_effect_def Let_def table_simps flag_simps)
qed

lemma turn_idle:
  assumes "server_inv sq rows used st" "epoll st fd = Some EPOLLIN_ET" "concat chunks = []"
    and "handle_event sq (Conn_Ready fd False chunks Read_Would_Block rooms we) st = Some (Running st')"
  shows "st' = st"
  using conn_running [OF assms(1) idle_effect(1,2) [OF assms(1,2)] assms(4)] idle_effect(3) [OF assms(1,2)] assms(3)
  by simp

text \<open>In every case the connection is not ready again unless its registration has changed.\<close>

lemma turn_settles:
  assumes "server_inv sq rows used st" "answered k (Conn_Ready fd err chunks re rooms we)" "epoll st fd \<noteq> None"
    and "handle_event sq (Conn_Ready fd err chunks re rooms we) st = Some (Running st')"
    and "epoll st' fd = epoll st fd"
  shows "\<not> ready (consumed fd st st' k) st' fd"
proof (cases "epoll st fd = Some EPOLLOUT_ET")
  case True
  from turn_writing [OF assms(1) True assms(4)] True assms(5) have
    "we = Write_Would_Block" "length (wire st' fd) = length (wire st fd) + sum_list rooms" by auto
  with assms(2) True assms(5) show ?thesis by (simp add: ready_def consumed_def)
next
  case False
  with assms(3) have e: "epoll st fd = Some EPOLLIN_ET" by (metis interest.exhaust option.exhaust)
  with turn_ending [OF assms(1) e _ assms(4)] assms(5) have "re = Read_Would_Block" by fastforce
  with assms(2) have "\<not> hung k fd" by (simp split: if_splits)
  moreover have "has_flag (flags st ! fd) WANT_READ" using registered_slot(4) [OF assms(1,3)] e by simp
  ultimately show ?thesis using e assms(5) by (simp add: ready_def)
qed

section \<open>No wake-up is lost\<close>

text \<open>Whatever can be done for a connection, it waits to be served; only connections wait.\<close>

definition alert :: "sockets \<Rightarrow> 'db server \<Rightarrow> bool" where
  "alert k st \<longleftrightarrow> (\<forall>i. ready k st i \<longrightarrow> i \<in> waiting k) \<and> (\<forall>i \<in> waiting k. epoll st i \<noteq> None)"

lemma ready_registered: "ready k st i \<Longrightarrow> epoll st i \<noteq> None"
  by (cases "epoll st i") (simp_all add: ready_def)

lemma alert_notified:
  assumes "\<And>i. epoll st' i = epoll st i \<Longrightarrow> ready k st' i \<Longrightarrow> i \<in> waiting k"
    and "\<And>i. i \<in> waiting k \<Longrightarrow> epoll st' i \<noteq> None"
  shows "alert (notified st st' k) st'"
proof -
  have "i \<in> waiting (notified st st' k)" if "ready k st' i" for i
    using that assms(1) by (cases "epoll st' i = epoll st i") (simp_all add: notified_def)
  moreover have "epoll st' i \<noteq> None" if "i \<in> waiting (notified st st' k)" for i
    using that assms(2) ready_registered by (auto simp: notified_def)
  ultimately show ?thesis by (simp add: alert_def)
qed

lemma ready_cong:
  "epoll st' i = epoll st i \<Longrightarrow> pending k' i = pending k i \<Longrightarrow> hung k' i = hung k i \<Longrightarrow> space k' i = space k i \<Longrightarrow>
   ready k' st' i \<longleftrightarrow> ready k st i"
  by (simp add: ready_def split: option.split interest.split)

lemma turn_alert:
  assumes "server_inv sq rows used st" "alert k st" "turn sq (k, received, used, st) (k', received', used', st')"
  shows "server_inv sq rows used' st' \<and> alert k' st'"
  using assms(3)
proof (cases rule: turn.cases)
  case (serve fd err chunks re rooms we)
  then have reg: "epoll st fd \<noteq> None" by simp
  note slot = registered_slot [OF assms(1) reg]
  note e = conn_event [OF assms(1) slot(1,2), of err chunks re rooms we]
  have st': "st' = conn_effect sq rows fd err (concat chunks) re rooms we st"
    by (rule conn_running [OF assms(1) slot(1,2) serve(6)])
  with e(2) have inv: "server_inv sq rows used st'" by simp
  let ?k = "consumed fd st st' k"
  have "alert (notified st st' ?k) st'"
  proof (rule alert_notified)
    fix i assume i: "epoll st' i = epoll st i" "ready ?k st' i"
    with turn_settles [OF assms(1) serve(4) reg serve(6)] have "i \<noteq> fd" by blast
    with i ready_cong [of st' i st ?k k] assms(2) show "i \<in> waiting ?k" by (simp add: alert_def)
  next
    fix i assume i: "i \<in> waiting ?k"
    with assms(2) have "epoll st i \<noteq> None" by (simp add: alert_def)
    note si = registered_slot(1,2) [OF assms(1) this]
    with i e(3,4) st' have "i < get_size st'" "has_flag (flags st' ! i) IS_ACTIVE" by auto
    with inv slot_ok_reg table_inv_slot [of st' i] show "epoll st' i \<noteq> None"
      by (auto simp: server_inv_def core_def)
  qed
  with inv serve show ?thesis by simp
qed

lemma accept_epoll:
  "accept_all_connections conns ending st = Some (Running st') \<Longrightarrow> epoll st i \<noteq> None \<Longrightarrow> epoll st' i \<noteq> None"
proof (induction conns ending st rule: accept_all_connections.induct)
  case (1 ending st)
  then show ?case by (cases ending) simp_all
next
  case (2 fd k conns ending st)
  from 2(2) obtain o1 where o1: "add_connection fd k st = Some o1" by (cases "add_connection fd k st") auto
  with 2(2) obtain st1 where st1: "add_connection fd k st = Some (Running st1)"
    "accept_all_connections conns ending st1 = Some (Running st')" by (cases o1) auto
  from st1(1) 2(3) have "epoll st1 i \<noteq> None"
    by (auto simp: add_connection_def Let_def bind_eq_Some_conv split: outcome.splits if_splits)
  with 2(1) [OF _ refl st1(2)] st1(1) show ?case by blast
qed

lemma other_epoll:
  assumes "\<And>fd err chunks re rooms we. ev \<noteq> Conn_Ready fd err chunks re rooms we"
    and "handle_event sq ev st = Some (Running st')" "epoll st i \<noteq> None"
  shows "epoll st' i \<noteq> None"
proof (cases ev)
  case (Listen_Ready err conns ending)
  with assms(2,3) accept_epoll [of conns ending st st' i] show ?thesis by (simp split: if_splits)
next
  case (Stdin_Ready err src answers ending)
  with assms(2,3) show ?thesis by (auto simp: bind_eq_Some_conv split: if_splits)
qed (use assms(1) in blast)

lemma socket_alert:
  assumes "alert k st" "socket_event st k k'"
  shows "alert k' st"
proof -
  have own: "alert k' st" if "\<And>j. j \<noteq> i \<Longrightarrow> pending k' j = pending k j \<and> hung k' j = hung k j \<and> space k' j = space k j"
    "ready k' st i \<Longrightarrow> i \<in> waiting k'" "waiting k \<subseteq> waiting k'" "\<And>j. j \<in> waiting k' \<Longrightarrow> j \<in> waiting k \<or> epoll st j \<noteq> None" for i
  proof -
    have "j \<in> waiting k'" if "ready k' st j" for j
      using that \<open>ready k' st i \<Longrightarrow> i \<in> waiting k'\<close> assms(1) \<open>waiting k \<subseteq> waiting k'\<close>
        ready_cong [of st j st k' k] \<open>\<And>j. j \<noteq> i \<Longrightarrow> pending k' j = pending k j \<and> hung k' j = hung k j \<and> space k' j = space k j\<close> [of j]
      by (cases "j = i") (auto simp: alert_def)
    moreover have "epoll st j \<noteq> None" if "j \<in> waiting k'" for j
      using \<open>\<And>j. j \<in> waiting k' \<Longrightarrow> j \<in> waiting k \<or> epoll st j \<noteq> None\<close> [OF that] assms(1) by (auto simp: alert_def)
    ultimately show ?thesis by (simp add: alert_def)
  qed
  from assms(2) show ?thesis
  proof (cases rule: socket_event.cases)
    case (arrives bs i)
    have "i \<in> waiting k" if "ready k st i" using that assms(1) by (simp add: alert_def)
    with arrives show ?thesis by (intro own [of i]) (auto simp: ready_def split: option.splits interest.splits)
  next
    case (hangs_up i)
    have "i \<in> waiting k" if "ready k st i" using that assms(1) by (simp add: alert_def)
    with hangs_up show ?thesis by (intro own [of i]) (auto simp: ready_def split: option.splits interest.splits)
  next
    case (sends n i)
    have "i \<in> waiting k" if "ready k st i" using that assms(1) by (simp add: alert_def)
    with sends show ?thesis by (intro own [of i]) (auto simp: ready_def split: option.splits interest.splits)
  qed
qed

text \<open>So a server with its sockets is always alert.\<close>

lemma world_alert:
  assumes "world sq d (k, received, used, st)" "db_ok sq rows d"
  shows "alert k st"
  using assms(1) unfolding world_def
proof (induction "(k, received, used, st)" arbitrary: k received used st rule: rtranclp_induct)
  case base
  show ?case by (simp add: alert_def ready_def fresh_sockets_def initial_server_fields)
next
  case (step c)
  obtain k1 received1 used1 st1 where c: "c = (k1, received1, used1, st1)" by (cases c)
  from step.hyps(1) c have inv: "server_inv sq rows used1 st1"
    using world_inv [OF _ assms(2)] by (simp add: world_def)
  note alert = step.hyps(3) [OF c]
  from step.hyps(2) [unfolded c] show ?case
  proof (cases rule: world_step.cases)
    case serves
    with turn_alert [OF inv alert] show ?thesis by blast
  next
    case (other ev)
    have "alert (notified st1 st k1) st"
    proof (rule alert_notified)
      show "i \<in> waiting k1" if "epoll st i = epoll st1 i" "ready k1 st i" for i
        using that ready_cong [of st i st1 k1 k1] alert by (simp add: alert_def)
      show "epoll st i \<noteq> None" if "i \<in> waiting k1" for i
        using that other_epoll [OF other(4,6)] alert by (simp add: alert_def)
    qed
    with other(1) show ?thesis by simp
  next
    case outside
    with socket_alert [OF alert] show ?thesis by blast
  qed
qed

section \<open>Serving comes to an end\<close>

text \<open>Steps that descend in a well-founded order stop, whatever order they are taken in.\<close>

locale descent =
  fixes move :: "'c \<Rightarrow> 'c \<Rightarrow> bool" and inv :: "'c \<Rightarrow> bool" and rank :: "'c \<Rightarrow> 'r" and below :: "('r \<times> 'r) set"
  assumes wf_below: "wf below"
    and keeps: "inv c \<Longrightarrow> move c c' \<Longrightarrow> inv c'"
    and descends: "inv c \<Longrightarrow> move c c' \<Longrightarrow> (rank c', rank c) \<in> below"
begin

lemma no_infinite_run: "inv c \<Longrightarrow> f 0 = c \<Longrightarrow> \<exists>n. \<not> move (f n) (f (Suc n))"
proof (rule ccontr)
  assume "inv c" "f 0 = c" "\<nexists>n. \<not> move (f n) (f (Suc n))"
  then have move: "move (f n) (f (Suc n))" for n by blast
  have "inv (f n)" for n by (induction n) (use \<open>inv c\<close> \<open>f 0 = c\<close> keeps move in blast)+
  with descends move have "(rank (f (Suc n)), rank (f n)) \<in> below" for n by blast
  with wf_below show False by (simp add: wf_iff_no_infinite_down_chain) (metis comp_apply)
qed

lemma keeps_run: "move\<^sup>*\<^sup>* c c' \<Longrightarrow> inv c \<Longrightarrow> inv c'"
  by (induction rule: rtranclp_induct) (use keeps in blast)+

lemma stops: "inv c \<Longrightarrow> \<exists>c'. move\<^sup>*\<^sup>* c c' \<and> \<not> Ex (move c')"
proof (induction c rule: wf_induct_rule [OF wf_inv_image [OF wf_below, of rank]])
  case (1 c)
  show ?case
  proof (cases "Ex (move c)")
    case True
    then obtain c1 where c1: "move c c1" by blast
    with 1(1) [of c1] 1(2) keeps descends obtain c' where "move\<^sup>*\<^sup>* c1 c'" "\<not> Ex (move c')"
      by (auto simp: inv_image_def)
    with c1 show ?thesis by (meson converse_rtranclp_into_rtranclp)
  qed blast
qed

end

text \<open>
  A turn uses up input, or takes a connection out of the writing state, or uses up a report without
  giving rise to another one.
\<close>

fun work :: "'db world \<Rightarrow> nat \<times> nat \<times> nat" where
  "work (k, received, used, st) = (\<Sum>i < get_size st. length (pending k i),
     card {i. epoll st i = Some EPOLLOUT_ET}, card (waiting k))"

fun sound :: "'db sqlite \<Rightarrow> ('db \<Rightarrow> user_row list) \<Rightarrow> 'db world \<Rightarrow> bool" where
  "sound sq rows (k, received, used, st) \<longleftrightarrow> server_inv sq rows used st \<and> alert k st"

lemma finite_registered:
  assumes "server_inv sq rows used st"
  shows "finite {i. epoll st i = x \<and> epoll st i \<noteq> None}" "alert k st \<Longrightarrow> finite (waiting k)"
proof -
  have fin: "finite {i. epoll st i \<noteq> None}"
    by (rule finite_subset [of _ "{..<get_size st}"]) (use registered_slot(1) [OF assms] in auto)
  then show "finite {i. epoll st i = x \<and> epoll st i \<noteq> None}" by (rule rev_finite_subset) auto
  assume "alert k st"
  with fin show "finite (waiting k)" by (auto simp: alert_def intro: rev_finite_subset)
qed

text \<open>A turn that reads nothing changes at most its own registration.\<close>

lemma turn_own:
  assumes "server_inv sq rows used st" "answered k (Conn_Ready fd err chunks re rooms we)" "epoll st fd \<noteq> None"
    and "handle_event sq (Conn_Ready fd err chunks re rooms we) st = Some (Running st')"
    and "epoll st fd = Some EPOLLIN_ET \<Longrightarrow> pending k fd = []"
  shows "\<exists>x. epoll st' = (epoll st)(fd := x) \<and> (x = epoll st fd \<or> x = None \<or> epoll st fd = Some EPOLLOUT_ET)"
proof (cases "epoll st fd = Some EPOLLOUT_ET")
  case True
  with turn_writing [OF assms(1) True assms(4)] show ?thesis by blast
next
  case False
  with assms(3) have e: "epoll st fd = Some EPOLLIN_ET" by (metis interest.exhaust option.exhaust)
  show ?thesis
  proof (cases "re = Read_Would_Block")
    case True
    with assms(2) have "\<not> err" "concat chunks = pending k fd" by (simp_all split: if_splits)
    with turn_idle [OF assms(1) e, of chunks rooms we st'] True assms(4,5) e have "st' = st" by simp
    then show ?thesis by (intro exI [of _ "epoll st fd"]) simp
  next
    case False
    from turn_ending [OF assms(1) e False assms(4)] show ?thesis by blast
  qed
qed

lemma turn_descends:
  assumes "sound sq rows c" "turn sq c c'"
  shows "(work c', work c) \<in> less_than <*lex*> less_than <*lex*> less_than"
proof -
  obtain k received used st where c: "c = (k, received, used, st)" by (cases c)
  from assms(1) c have inv: "server_inv sq rows used st" and alert: "alert k st" by simp_all
  from assms(2) [unfolded c] show ?thesis
  proof (cases rule: turn.cases)
    case (serve fd err chunks re rooms we st')
    then have reg: "epoll st fd \<noteq> None" by simp
    note slot = registered_slot [OF inv reg]
    let ?k = "consumed fd st st' k"
    have size: "get_size st' = get_size st"
      using conn_event(4) [OF inv slot(1,2)] conn_running [OF inv slot(1,2) serve(4)] by simp
    show ?thesis
    proof (cases "epoll st fd = Some EPOLLIN_ET \<and> pending k fd \<noteq> []")
      case True
      then have "(\<Sum>i < get_size st. length (pending ?k i)) < (\<Sum>i < get_size st. length (pending k i))"
        using slot(1,4) by (intro sum_strict_mono_ex1) (auto intro!: bexI [of _ fd])
      then show ?thesis using c serve(1) size by simp
    next
      case False
      then have own: "epoll st fd = Some EPOLLIN_ET \<Longrightarrow> pending k fd = []" by blast
      with slot(4) have in': "pending ?k = pending k" by (intro ext) simp
      obtain x where x: "epoll st' = (epoll st)(fd := x)"
        "x = epoll st fd \<or> x = None \<or> epoll st fd = Some EPOLLOUT_ET"
        using turn_own [OF inv serve(2) reg serve(4) own] by blast
      let ?W = "\<lambda>s. {i. epoll s i = Some EPOLLOUT_ET}"
      have fin: "finite (?W st)" "finite (waiting k)"
        using finite_registered(1) [OF inv, where x = "Some EPOLLOUT_ET"] finite_registered(2) [OF inv alert]
        by (auto elim: rev_finite_subset)
      show ?thesis
      proof (cases "epoll st fd = Some EPOLLOUT_ET \<and> x \<noteq> Some EPOLLOUT_ET")
        case True
        with x(1) have "?W st' = ?W st - {fd}" by auto
        with True fin(1) have "card (?W st') < card (?W st)" by (metis card_Diff1_less mem_Collect_eq)
        with c serve(1) size in' show ?thesis by simp
      next
        case False
        with x(2) have quiet: "x = epoll st fd \<or> x = None \<and> epoll st fd \<noteq> Some EPOLLOUT_ET" by metis
        then have "?W st' = ?W st" using x(1) by auto
        moreover have "waiting (notified st st' ?k) = waiting k - {fd}"
          using quiet x(1) by (auto simp: notified_def ready_def split: if_splits)
        moreover have "fd \<in> waiting k" using serve(2) by simp
        then have "card (waiting k - {fd}) < card (waiting k)" by (rule card_Diff1_less [OF fin(2)])
        ultimately show ?thesis using c serve(1) size in' by simp
      qed
    qed
  qed
qed

interpretation turns: descent "turn sq" "sound sq rows" work "less_than <*lex*> less_than <*lex*> less_than"
proof
  show "wf (less_than <*lex*> less_than <*lex*> less_than)" by blast
  show "sound sq rows c'" if "sound sq rows c" "turn sq c c'" for c c'
  proof -
    obtain k received used st k' received' used' st' where
      "c = (k, received, used, st)" "c' = (k', received', used', st')" by (metis prod_cases4)
    with that turn_alert [of sq rows used st k received k' received' used' st'] show ?thesis by simp
  qed
qed (rule turn_descends)

text \<open>As long as a connection waits, the kernel can answer its handler.\<close>

lemma turn_possible:
  assumes "server_inv sq rows used st" "alert k st" "waiting k \<noteq> {}"
  shows "Ex (turn sq (k, received, used, st))"
proof -
  from assms(3) obtain fd where fd: "fd \<in> waiting k" by blast
  with assms(2) have reg: "epoll st fd \<noteq> None" by (simp add: alert_def)
  note slot = registered_slot [OF assms(1) reg]
  let ?ev = "Conn_Ready fd False [pending k fd] (if hung k fd then Read_Eof else Read_Would_Block) [space k fd] Write_Would_Block"
  have "answered k ?ev" "possible used st ?ev" using fd reg by simp_all
  moreover obtain st' where "handle_event sq ?ev st = Some (Running st')"
    using conn_event(1) [OF assms(1) slot(1,2), of False "[pending k fd]" _ "[space k fd]" Write_Would_Block]
    by (simp del: handle_event.simps)
  ultimately show ?thesis by (metis turn.serve)
qed

text \<open>When none waits, each has been given all it was sent, or its socket can take no more.\<close>

lemma idle_connection:
  assumes "server_inv sq rows used st" "alert k st" "waiting k = {}" "epoll st i \<noteq> None"
  shows "(epoll st i = Some EPOLLIN_ET \<and> pending k i = [] \<and> \<not> hung k i \<and> outgoing_buffers st ! i = []) \<or>
    (epoll st i = Some EPOLLOUT_ET \<and> space k i = 0)"
proof -
  note slot = registered_slot [OF assms(1,4)]
  from assms(2,3) have quiet: "\<not> ready k st i" by (auto simp: alert_def)
  show ?thesis
  proof (cases "epoll st i = Some EPOLLOUT_ET")
    case True
    with quiet show ?thesis by (simp add: ready_def)
  next
    case False
    with assms(4) have e: "epoll st i = Some EPOLLIN_ET" by (metis interest.exhaust option.exhaust)
    with slot assms(1) have "outgoing_buffers st ! i = []" by (auto simp: server_inv_def quiet_def settled_def)
    with e quiet show ?thesis by (simp add: ready_def)
  qed
qed

end
