(* ===== verification/Socket_Io.thy ===== *)
theory Socket_Io
  imports Message
begin

text \<open>
  The blocking reads and writes of whole messages, \<open>read_one_message\<close> and \<open>write_one_message\<close> of
  \<open>src/protocol.cpp\<close>. The kernel is a script: what arrives on the socket, in the pieces in which
  it arrives, with the interruptions and errors in between; the end of the script is end of file.
  Reading is shown to give exactly the next frame however it was cut into pieces.
\<close>

datatype arrival_event = Avail bytes | Interrupted | Broken

text \<open>One \<open>read(fd, ptr, n)\<close>: at most \<open>n\<close> bytes of the next piece; the rest of it stays.\<close>

definition sock_read :: "nat \<Rightarrow> arrival_event list \<Rightarrow> arrival_event \<times> arrival_event list" where
  "sock_read n s =
     (case s of
        [] \<Rightarrow> (Avail [], [])
      | Avail bs # s' \<Rightarrow> (Avail (take n bs), if length bs \<le> n then s' else Avail (drop n bs) # s')
      | x # s' \<Rightarrow> (x, s'))"

text \<open>The loop that reads the header; it reads \<open>bytes_to_read\<close> more bytes behind \<open>header\<close>.\<close>

function read_header :: "nat \<Rightarrow> bytes \<Rightarrow> arrival_event list \<Rightarrow> bytes option \<times> arrival_event list" where
  "read_header bytes_to_read header s =
     (if bytes_to_read = 0 then (Some header, s)
      else case sock_read bytes_to_read s of
        (Avail bs, s') \<Rightarrow>
          if bs = [] then (None, s')
          else read_header (bytes_to_read - length bs) (header @ bs) s'
      | (Interrupted, s') \<Rightarrow> read_header bytes_to_read header s'
      | (Broken, s') \<Rightarrow> (None, s'))"
  by pat_completeness auto
termination
proof (relation "measure (\<lambda>(n, h, s). n + length s)", simp, goal_cases)
  case (1 n h s x s' bs)
  then show ?case
    by (cases bs) (auto simp: sock_read_def split: list.splits arrival_event.splits if_splits)
next
  case (2 n h s x s')
  then show ?case by (auto simp: sock_read_def split: list.splits arrival_event.splits if_splits)
qed

text \<open>The loop that reads the payload to offset \<open>p\<close> of the message's buffer; an interruption ends it.\<close>

function read_payload ::
  "nat \<Rightarrow> nat \<Rightarrow> bytes \<Rightarrow> arrival_event list \<Rightarrow> (bool \<times> bytes \<times> arrival_event list) option" where
  "read_payload bytes_to_read p mem s =
     (if bytes_to_read = 0 then Some (True, mem, s)
      else case sock_read bytes_to_read s of
        (Avail bs, s') \<Rightarrow>
          if bs = [] then Some (False, mem, s')
          else do {
            mem \<leftarrow> mem_write mem p bs;
            read_payload (bytes_to_read - length bs) (p + length bs) mem s' }
      | (_, s') \<Rightarrow> Some (False, mem, s'))"
  by pat_completeness auto
termination
proof (relation "measure (\<lambda>(n, p, mem, s). n)", simp, goal_cases)
  case (1 n p mem s x s' bs m)
  then show ?case by (cases bs) (auto simp: sock_read_def)
qed

declare read_header.simps [simp del] read_payload.simps [simp del]

definition read_one_message ::
  "message_t \<Rightarrow> arrival_event list \<Rightarrow> (int \<times> message_t \<times> arrival_event list) option" where
  "read_one_message message s =
     (case read_header MSG_HEADER_SIZE [] s of
        (None, s) \<Rightarrow> Some (-1, message, s)
      | (Some header_buffer, s) \<Rightarrow> do {
          v \<leftarrow> at header_buffer 0;
          t \<leftarrow> at header_buffer 1;
          r \<leftarrow> at header_buffer 2;
          len \<leftarrow> mem_read header_buffer 3 4;
          let message = message\<lparr>msg_version := v, msg_type := t, msg_rc := r,
            payload_length := ntohl (u32_of_bytes len)\<rparr>;
          if payload_length message > u32_cast MSG_MAX_PAYLOAD_SIZE then Some (-1, message, s)
          else do {
            (complete, mem, s) \<leftarrow>
              read_payload (unat (payload_length message)) 0 (payload_mem message) s;
            let message = (if payload message = None then message else message\<lparr>payload := Some mem\<rparr>);
            Some (if complete then 0 else -1, message, s) } })"

text \<open>
  \<open>write\<close> takes at most \<open>n\<close> bytes for \<open>Room n\<close>; when the script is used up it takes all it is given.
\<close>

datatype write_event = Room nat | Write_Interrupted | Write_Broken

function write_all ::
  "bytes \<Rightarrow> nat \<Rightarrow> nat \<Rightarrow> bytes \<Rightarrow> write_event list \<Rightarrow> (bool \<times> bytes) option" where
  "write_all message_buffer bytes_to_send bytes_sent sock s =
     (if bytes_sent < bytes_to_send then
        (case s of
           [] \<Rightarrow> do {
             bs \<leftarrow> mem_read message_buffer bytes_sent (bytes_to_send - bytes_sent);
             Some (True, sock @ bs) }
         | Write_Interrupted # s' \<Rightarrow> write_all message_buffer bytes_to_send bytes_sent sock s'
         | Write_Broken # s' \<Rightarrow> Some (False, sock)
         | Room n # s' \<Rightarrow>
             let res = min n (bytes_to_send - bytes_sent) in
             if res = 0 then Some (False, sock)
             else do {
               bs \<leftarrow> mem_read message_buffer bytes_sent res;
               write_all message_buffer bytes_to_send (bytes_sent + res) (sock @ bs) s' })
      else Some (True, sock))"
  by pat_completeness auto
termination
  by (relation "measure (\<lambda>(m, n, k, sock, s). length s)") auto

declare write_all.simps [simp del]

text \<open>The result, and what the socket has taken.\<close>

definition write_one_message :: "bytes \<Rightarrow> u32 \<Rightarrow> write_event list \<Rightarrow> (int \<times> bytes) option" where
  "write_one_message message_buffer message_len s = do {
     (done, sock) \<leftarrow> write_all message_buffer (unat message_len) 0 [] s;
     Some (if done then sint message_len else -1, sock) }"

section \<open>What arrives\<close>

fun arriving :: "arrival_event list \<Rightarrow> bytes" where
  "arriving [] = []"
| "arriving (Avail bs # s) = bs @ arriving s"
| "arriving (_ # s) = arriving s"

text \<open>Scripts without errors, with and without interruptions.\<close>

definition steady :: "arrival_event list \<Rightarrow> bool" where
  "steady s \<longleftrightarrow> list_all (\<lambda>x. case x of Avail bs \<Rightarrow> bs \<noteq> [] | Interrupted \<Rightarrow> True | Broken \<Rightarrow> False) s"

definition flowing :: "arrival_event list \<Rightarrow> bool" where
  "flowing s \<longleftrightarrow> list_all (\<lambda>x. case x of Avail bs \<Rightarrow> bs \<noteq> [] | _ \<Rightarrow> False) s"

lemma flowing_simps [simp]:
  "flowing []" "flowing (Avail bs # s) \<longleftrightarrow> bs \<noteq> [] \<and> flowing s"
  "\<not> flowing (Interrupted # s)" "\<not> flowing (Broken # s)"
  "steady []" "steady (Avail bs # s) \<longleftrightarrow> bs \<noteq> [] \<and> steady s"
  "steady (Interrupted # s) \<longleftrightarrow> steady s" "\<not> steady (Broken # s)"
  by (simp_all add: flowing_def steady_def)

lemma arriving_append [simp]: "arriving (s @ t) = arriving s @ arriving t"
  by (induction s rule: arriving.induct) simp_all

lemma flowing_empty: "flowing s \<Longrightarrow> arriving s = [] \<Longrightarrow> s = []"
  by (cases s rule: arriving.cases) simp_all

lemma read_header_prefix:
  assumes "flowing s" "n \<le> length (arriving s)"
  shows "\<exists>s'. read_header n h (s @ t) = (Some (h @ take n (arriving s)), s' @ t) \<and>
    flowing s' \<and> arriving s' = drop n (arriving s)"
  using assms
proof (induction n arbitrary: h s rule: less_induct)
  case (less n)
  show ?case
  proof (cases "n = 0")
    case True
    with less.prems show ?thesis by (auto simp: read_header.simps [of 0])
  next
    case False
    with less.prems obtain bs b' where s: "s = Avail bs # b'" "bs \<noteq> []" "flowing b'"
      by (cases s rule: arriving.cases) auto
    show ?thesis
    proof (cases "length bs < n")
      case True
      have "length bs > 0" using s(2) by simp
      then have dec: "n - length bs < n" using False by simp
      have "n - length bs \<le> length (arriving b')" using s less.prems(2) by simp
      from less.IH [OF dec s(3) this, of "h @ bs"] True s show ?thesis
        by (auto simp: read_header.simps [of n h] sock_read_def)
    next
      case False
      with \<open>n \<noteq> 0\<close> s show ?thesis
        by (intro exI [of _ "if length bs \<le> n then b' else Avail (drop n bs) # b'"])
          (auto simp: read_header.simps [of n h] read_header.simps [of 0] sock_read_def)
    qed
  qed
qed

text \<open>
  Interruptions are harmless while the header is incomplete: \<open>a\<close> is the part of the script that
  may contain them.
\<close>

lemma read_header_frame:
  assumes "steady a" "flowing b" "length (arriving a) < n" "n \<le> length (arriving (a @ b))"
  shows "\<exists>s'. read_header n h (a @ b) = (Some (h @ take n (arriving (a @ b))), s') \<and>
    flowing s' \<and> arriving s' = drop n (arriving (a @ b))"
  using assms
proof (induction a arbitrary: n h rule: arriving.induct [case_names none avail interrupt broken])
  case none
  with read_header_prefix [of b n h "[]"] show ?case by auto
next
  case (avail bs s)
  then have "length (arriving s) < n - length bs" "n - length bs \<le> length (arriving (s @ b))" by auto
  with avail avail.IH [of "n - length bs" "h @ bs"] show ?case
    by (auto simp: read_header.simps [of n h] sock_read_def)
next
  case (interrupt s)
  with interrupt.IH [of n h] show ?case by (auto simp: read_header.simps [of n h] sock_read_def)
qed simp

lemma read_payload_frame:
  assumes "flowing s" "n \<le> length (arriving s)" "p + n \<le> length mem"
  shows "\<exists>s'. read_payload n p mem s = Some (True, overwrite mem p (take n (arriving s)), s') \<and>
    flowing s' \<and> arriving s' = drop n (arriving s)"
  using assms
proof (induction n arbitrary: p mem s rule: less_induct)
  case (less n)
  show ?case
  proof (cases "n = 0")
    case True
    with less.prems show ?thesis by (simp add: read_payload.simps [of 0] overwrite_def)
  next
    case False
    with less.prems obtain bs b' where s: "s = Avail bs # b'" "bs \<noteq> []" "flowing b'"
      by (cases s rule: arriving.cases) auto
    show ?thesis
    proof (cases "length bs < n")
      case True
      have "length bs > 0" using s(2) by simp
      then have dec: "n - length bs < n" using False by simp
      have p: "n - length bs \<le> length (arriving b')"
        "p + length bs + (n - length bs) \<le> length (overwrite mem p bs)"
        using s less.prems(2,3) True by simp_all
      from less.IH [OF dec s(3) p] True s less.prems(3) show ?thesis
        by (auto simp: read_payload.simps [of n] sock_read_def mem_write_in)
    next
      case ge: False
      with False s less.prems show ?thesis
        by (auto simp: read_payload.simps [of n] read_payload.simps [of 0] sock_read_def mem_write_in)
    qed
  qed
qed

text \<open>
  A frame that arrives is read as that frame, and exactly its bytes are taken from the socket.
\<close>

lemma read_one_message_frame:
  assumes "frame_ok f" "payload m = Some mem" "MSG_MAX_PAYLOAD_SIZE \<le> length mem"
    and "steady a" "flowing b" "length (arriving a) < MSG_HEADER_SIZE"
    and "arriving (a @ b) = encode_frame f @ rest"
  shows "\<exists>m' s'. read_one_message m (a @ b) = Some (0, m', s') \<and> message_ok m' \<and> message_frame m' = f \<and>
    flowing s' \<and> arriving s' = rest"
proof -
  obtain x y z w where be: "be_bytes (u32_cast (length (f_payload f))) = [x, y, z, w]"
    by (rule length_4E [OF length_be_bytes])
  have len: "unat (ntohl (u32_of_bytes [x, y, z, w])) = length (f_payload f)"
    using assms(1) by (simp add: frame_ok_def MSG_MAX_PAYLOAD_SIZE_def flip: be)
  let ?h = "[f_version f, f_type f, f_rc f, x, y, z, w]"
  have arr: "arriving (a @ b) = ?h @ f_payload f @ rest" using assms(7) by (simp add: encode_frame_def be)
  have "MSG_HEADER_SIZE \<le> length (arriving (a @ b))" unfolding arr by (simp add: MSG_HEADER_SIZE_def)
  from read_header_frame [OF assms(4-6) this, of "[]"] obtain s1 where
    h: "read_header MSG_HEADER_SIZE [] (a @ b) = (Some (take 7 (arriving (a @ b))), s1)"
    and s1: "flowing s1" "arriving s1 = drop 7 (arriving (a @ b))"
    by (auto simp: MSG_HEADER_SIZE_def)
  have t7: "take 7 (arriving (a @ b)) = ?h" "drop 7 (arriving (a @ b)) = f_payload f @ rest"
    unfolding arr by (simp_all add: eval_nat_numeral)
  have parts: "take 4 (drop 3 ?h) = [x, y, z, w]" "3 + 4 \<le> length ?h" by (simp_all add: eval_nat_numeral)
  let ?m = "m\<lparr>msg_version := f_version f, msg_type := f_type f, msg_rc := f_rc f,
    payload_length := ntohl (u32_of_bytes [x, y, z, w])\<rparr>"
  have small: "\<not> payload_length ?m > u32_cast MSG_MAX_PAYLOAD_SIZE"
    using assms(1) len by (simp add: word_less_nat_alt frame_ok_def MSG_MAX_PAYLOAD_SIZE_def)
  have arr1: "arriving s1 = f_payload f @ rest" using s1(2) t7(2) by (rule trans)
  have "length (f_payload f) \<le> length (arriving s1)" "0 + length (f_payload f) \<le> length mem"
    using assms(1,3) by (simp_all add: arr1 frame_ok_def)
  from read_payload_frame [OF s1(1) this, unfolded arr1] obtain s2 where
    p: "read_payload (length (f_payload f)) 0 mem s1 = Some (True, overwrite mem 0 (f_payload f), s2)"
    and s2: "flowing s2" "arriving s2 = rest"
    by auto
  have "payload_mem ?m = mem" using assms(2) by (simp add: payload_mem_def)
  with p small len parts
  have "read_one_message m (a @ b) = Some (0, ?m\<lparr>payload := Some (overwrite mem 0 (f_payload f))\<rparr>, s2)"
    using assms(2) h [unfolded t7(1)] unfolding read_one_message_def
    by (simp add: at_in mem_read_def)
  moreover have "message_ok (?m\<lparr>payload := Some (overwrite mem 0 (f_payload f))\<rparr>)"
    using assms(1,3) len by (simp add: message_ok_def frame_ok_def)
  moreover have "message_frame (?m\<lparr>payload := Some (overwrite mem 0 (f_payload f))\<rparr>) = f"
    using len by (simp add: message_frame_def)
  ultimately show ?thesis using s2 by blast
qed

text \<open>
  An interruption behind the header is not retried: reading fails with the frame half consumed.
\<close>

lemma read_payload_interrupted:
  assumes "flowing s" "length (arriving s) < n" "p + n \<le> length mem"
  shows "\<exists>mem'. read_payload n p mem (s @ Interrupted # t) = Some (False, mem', t)"
  using assms
proof (induction s arbitrary: n p mem rule: arriving.induct)
  case 1
  then show ?case by (simp add: read_payload.simps [of n] sock_read_def)
next
  case (2 bs s)
  from 2(2,3) have bs: "bs \<noteq> []" "flowing s" "length bs < n" "length (arriving s) < n - length bs" by auto
  have "p + length bs + (n - length bs) \<le> length (overwrite mem p bs)" using bs(3) 2(4) by simp
  from 2(1) [OF bs(2,4) this] bs 2(4) show ?case
    by (simp add: read_payload.simps [of n] sock_read_def mem_write_in)
qed simp_all

lemma read_one_message_interrupted:
  assumes "frame_ok f" "payload m = Some mem" "MSG_MAX_PAYLOAD_SIZE \<le> length mem"
    and "flowing a" "MSG_HEADER_SIZE \<le> length (arriving a)" "length (arriving a) < length (encode_frame f)"
    and "arriving a = take (length (arriving a)) (encode_frame f)"
  shows "\<exists>m'. read_one_message m (a @ Interrupted # b) = Some (-1, m', b)"
proof -
  obtain x y z w where be: "be_bytes (u32_cast (length (f_payload f))) = [x, y, z, w]"
    by (rule length_4E [OF length_be_bytes])
  have len: "unat (ntohl (u32_of_bytes [x, y, z, w])) = length (f_payload f)"
    using assms(1) by (simp add: frame_ok_def MSG_MAX_PAYLOAD_SIZE_def flip: be)
  let ?h = "[f_version f, f_type f, f_rc f, x, y, z, w]"
  have arr: "take 7 (arriving a) = ?h"
    using assms(5) by (subst assms(7)) (simp add: encode_frame_def be MSG_HEADER_SIZE_def min_def)
  from read_header_prefix [OF assms(4,5), of "[]" "Interrupted # b"] arr obtain s1 where
    h: "read_header MSG_HEADER_SIZE [] (a @ Interrupted # b) = (Some ?h, s1 @ Interrupted # b)"
    and s1: "flowing s1" "arriving s1 = drop 7 (arriving a)"
    by (auto simp: MSG_HEADER_SIZE_def)
  have short: "length (arriving s1) < length (f_payload f)"
    using assms(5,6) s1(2) by (simp add: length_encode_frame MSG_HEADER_SIZE_def)
  have fit: "0 + length (f_payload f) \<le> length mem"
    using assms(1,3) by (simp add: frame_ok_def)
  from read_payload_interrupted [OF s1(1) short fit, of b] obtain mem' where
    p: "read_payload (length (f_payload f)) 0 mem (s1 @ Interrupted # b) = Some (False, mem', b)" by blast
  have small: "\<not> u32_cast MSG_MAX_PAYLOAD_SIZE < ntohl (u32_of_bytes [x, y, z, w])"
    using assms(1) len by (simp add: word_less_nat_alt frame_ok_def MSG_MAX_PAYLOAD_SIZE_def)
  show ?thesis
    using h p len small assms(2)
    by (simp add: read_one_message_def at_def mem_read_def Let_def payload_mem_def)
qed

section \<open>What is written\<close>

definition writable :: "write_event list \<Rightarrow> bool" where
  "writable s \<longleftrightarrow> list_all (\<lambda>x. case x of Room n \<Rightarrow> n > 0 | Write_Interrupted \<Rightarrow> True | Write_Broken \<Rightarrow> False) s"

lemma write_all_complete:
  assumes "writable s" "k \<le> n" "n \<le> length mb"
  shows "write_all mb n k sock s = Some (True, sock @ take (n - k) (drop k mb))"
  using assms
proof (induction mb n k sock s rule: write_all.induct)
  case (1 mb n k sock s)
  show ?case
  proof (cases "k < n")
    case False
    with "1.prems" have "k = n" by simp
    then show ?thesis by (simp add: write_all.simps [of mb n n])
  next
    case True
    show ?thesis
    proof (cases s)
      case Nil
      with True 1 show ?thesis by (simp add: write_all.simps [of mb n k] mem_read_in)
    next
      case (Cons x s')
      show ?thesis
      proof (cases x)
        case (Room r)
        let ?res = "min r (n - k)"
        have res: "?res \<noteq> 0" "k + ?res \<le> n" using True 1 Cons Room by (auto simp: writable_def)
        have rd: "mem_read mb k ?res = Some (take ?res (drop k mb))" using res 1 by (simp add: mem_read_in)
        have "write_all mb n (k + ?res) (sock @ take ?res (drop k mb)) s' =
            Some (True, (sock @ take ?res (drop k mb)) @ take (n - (k + ?res)) (drop (k + ?res) mb))"
          using "1.IH"(1) [OF True Cons Room refl res(1) rd] 1 Cons res by (simp add: writable_def)
        moreover have "take ?res (drop k mb) @ take (n - (k + ?res)) (drop (k + ?res) mb) = take (n - k) (drop k mb)"
          using take_add [of ?res "n - (k + ?res)" "drop k mb"] res(2) by (simp add: add.commute)
        ultimately show ?thesis
          using True Cons Room res rd by (simp add: write_all.simps [of mb n k] Let_def)
      next
        case Write_Interrupted
        with "1.IH"(2) [OF True Cons Write_Interrupted] 1 Cons True show ?thesis
          by (simp add: write_all.simps [of mb n k] writable_def)
      next
        case Write_Broken
        with 1 Cons show ?thesis by (simp add: writable_def)
      qed
    qed
  qed
qed

text \<open>The whole message is sent, in any pieces; the result is its length.\<close>

lemma write_one_message_complete:
  assumes "writable s" "unat len \<le> length mb"
  shows "write_one_message mb len s = Some (sint len, take (unat len) mb)"
  using write_all_complete [OF assms(1), of 0 "unat len" mb "[]"] assms(2)
  by (simp add: write_one_message_def)

end
