(* ===== verification/Client.thy ===== *)
theory Client
  imports Socket_Io Chat_Protocol Conn_Flags Console
begin

text \<open>
  The terminal client of \<open>src/client_utils.cpp\<close>: the requests it sends, what it does with the
  server's responses, and its command line. The state is the part of \<open>conn_t\<close> both threads use,
  with the chat lines printed so far; the threads themselves are in \<open>Client_Session\<close>.
\<close>

text \<open>A printed chat line: a direct message with its two names, or a global one. \<open>%s\<close> stops at a NUL.\<close>

datatype chat_line = DM bytes bytes bytes | GLOBAL bytes bytes

record client =
  c_user :: user_t
  c_flags :: ConnFlags
  c_screen :: "chat_line list"

definition print_chat_message :: "bytes \<Rightarrow> bytes \<Rightarrow> bytes \<Rightarrow> chat_line" where
  "print_chat_message sender recipient message =
     (if recipient \<noteq> [] then DM (c_str sender) (c_str recipient) (c_str message)
      else GLOBAL (c_str sender) (c_str message))"

text \<open>
  The uninitialised request buffer; only what the builders write is ever sent.
\<close>

definition request_array :: bytes where
  "request_array = replicate (MSG_HEADER_SIZE + MSG_MAX_PAYLOAD_SIZE) 0"

section \<open>Requests\<close>

text \<open>Each gives the result and the bytes that went to the server.\<close>

definition handle_client_registration ::
  "bytes \<Rightarrow> bytes \<Rightarrow> write_event list \<Rightarrow> (int \<times> bytes) option" where
  "handle_client_registration name pass s = do {
     let credentials = \<lparr>reg_username = name, reg_password = pass\<rparr>;
     (rc, request_buffer, message_len) \<leftarrow> build_register_request request_array credentials 0;
     if rc = -1 then Some (-1, [])
     else do {
       (rc, sock) \<leftarrow> write_one_message request_buffer message_len s;
       Some (if rc = -1 then -1 else 0, sock) } }"

definition handle_client_login :: "bytes \<Rightarrow> bytes \<Rightarrow> write_event list \<Rightarrow> (int \<times> bytes) option" where
  "handle_client_login name pass s = do {
     let credentials = \<lparr>login_username = name, login_password = pass\<rparr>;
     (rc, request_buffer, message_len) \<leftarrow> build_login_request request_array credentials 0;
     if rc = -1 then Some (-1, [])
     else do {
       (rc, sock) \<leftarrow> write_one_message request_buffer message_len s;
       Some (if rc = -1 then -1 else 0, sock) } }"

definition handle_world_message :: "client \<Rightarrow> bytes \<Rightarrow> write_event list \<Rightarrow> bytes option" where
  "handle_world_message conn message_content s = do {
     let broadcast = \<lparr>world_sender_username = username (c_user conn),
       world_message_content = message_content\<rparr>;
     (rc, request_buffer, message_len) \<leftarrow> build_world_broadcast_request request_array broadcast 0;
     if rc = -1 then Some []
     else do {
       (_, sock) \<leftarrow> write_one_message request_buffer message_len s;
       Some sock } }"

definition handle_peer_message :: "client \<Rightarrow> bytes \<Rightarrow> bytes \<Rightarrow> write_event list \<Rightarrow> bytes option" where
  "handle_peer_message conn recipient_username message_content s = do {
     let broadcast = \<lparr>p2p_sender_username = username (c_user conn),
       p2p_recipient_username = recipient_username, p2p_message_content = message_content\<rparr>;
     (rc, request_buffer, message_len) \<leftarrow> build_p2p_broadcast_request request_array broadcast 0;
     if rc = -1 then Some []
     else do {
       (_, sock) \<leftarrow> write_one_message request_buffer message_len s;
       Some sock } }"

section \<open>Responses\<close>

definition user_blank :: user_t where
  "user_blank = \<lparr>user_id = 0, username = [], password = []\<rparr>"

text \<open>Whether the registration is reported as successful, and for which user.\<close>

definition handle_registration_response :: "message_t \<Rightarrow> (user_t option) option" where
  "handle_registration_response response =
     (if msg_rc response \<noteq> 0 then Some None
      else do {
        (ret, user) \<leftarrow> parse_register_response response user_blank;
        if ret = -1 then Some None else Some (Some user) })"

definition handle_login_response :: "message_t \<Rightarrow> client \<Rightarrow> client option" where
  "handle_login_response response conn =
     (if msg_rc response \<noteq> 0 then Some conn
      else do {
        (ret, user) \<leftarrow> parse_login_response response user_blank;
        if ret = -1 then Some conn
        else Some (conn\<lparr>c_user := (c_user conn)\<lparr>user_id := user_id user, username := username user\<rparr>,
          c_flags := flag_or_assign (c_flags conn) IS_AUTH\<rparr>) })"

text \<open>The parsers' results are ignored here: what they filled in so far is printed.\<close>

definition handle_broadcast_response :: "message_t \<Rightarrow> client \<Rightarrow> client option" where
  "handle_broadcast_response response conn =
     (if msg_rc response \<noteq> 0 then Some conn
      else do {
        broadcast_type \<leftarrow> peek_broadcast_type response;
        if broadcast_type = tag TAG_P2P_BROADCAST then do {
          (_, b) \<leftarrow> parse_p2p_broadcast_notification response
            \<lparr>p2p_sender_username = [], p2p_recipient_username = [], p2p_message_content = []\<rparr>;
          Some (conn\<lparr>c_screen := c_screen conn @ [print_chat_message (p2p_sender_username b)
            (p2p_recipient_username b) (p2p_message_content b)]\<rparr>) }
        else if broadcast_type = tag TAG_WORLD_BROADCAST then do {
          (_, b) \<leftarrow> parse_world_broadcast_notification response
            \<lparr>world_sender_username = [], world_message_content = []\<rparr>;
          Some (conn\<lparr>c_screen := c_screen conn @ [print_chat_message (world_sender_username b) []
            (world_message_content b)]\<rparr>) }
        else Some conn })"

text \<open>\<open>payload_buffer\<close> is uninitialised, modelled as zeros.\<close>

definition handle_server_response ::
  "client \<Rightarrow> arrival_event list \<Rightarrow> (bool \<times> client \<times> arrival_event list) option" where
  "handle_server_response conn s = do {
     let response = message_zero\<lparr>payload := Some (replicate MSG_MAX_PAYLOAD_SIZE 0)\<rparr>;
     (rc, response, s) \<leftarrow> read_one_message response s;
     if rc = -1 then Some (False, conn, s)
     else if msg_type response = mtype REGISTER then do {
       _ \<leftarrow> handle_registration_response response;
       Some (True, conn, s) }
     else if msg_type response = mtype LOGIN then do {
       conn \<leftarrow> handle_login_response response conn;
       Some (True, conn, s) }
     else if msg_type response = mtype CHAT then do {
       conn \<leftarrow> handle_broadcast_response response conn;
       Some (True, conn, s) }
     else Some (True, conn, s) }"

section \<open>The command line\<close>

text \<open>The result, false to quit, and what was sent.\<close>

definition command_shell :: "client \<Rightarrow> bytes \<Rightarrow> write_event list \<Rightarrow> (bool \<times> bytes) option" where
  "command_shell conn input_line s =
     (let (command, ss) = next_word input_line in
      if command = [] then Some (True, [])
      else let command = string_to_lower command in
        if command = str ''/p2p'' then
          if \<not> has_flag (c_flags conn) IS_AUTH then Some (True, [])
          else
            let (recipient, ss) = next_word ss; message = rest_of_line ss in
            if recipient = [] \<or> message = [] then Some (True, [])
            else do { sock \<leftarrow> handle_peer_message conn recipient message s; Some (True, sock) }
        else if command = str ''/world'' then
          if \<not> has_flag (c_flags conn) IS_AUTH then Some (True, [])
          else
            let message = rest_of_line ss in
            if message = [] then Some (True, [])
            else do { sock \<leftarrow> handle_world_message conn message s; Some (True, sock) }
        else if command = str ''/login'' then
          if has_flag (c_flags conn) IS_AUTH then Some (True, [])
          else
            let (name, ss) = next_word ss; (pass, ss) = next_word ss in
            if name = [] \<or> pass = [] then Some (True, [])
            else do { (_, sock) \<leftarrow> handle_client_login name pass s; Some (True, sock) }
        else if command = str ''/register'' then
          if has_flag (c_flags conn) IS_AUTH then Some (True, [])
          else
            let (name, ss) = next_word ss; (pass, ss) = next_word ss in
            if name = [] \<or> pass = [] then Some (True, [])
            else do { (_, sock) \<leftarrow> handle_client_registration name pass s; Some (True, sock) }
        else if command = str ''/quit'' then Some (False, [])
        else Some (True, []))"

section \<open>What the requests are\<close>

lemma request_array_fits: "MSG_HEADER_SIZE + MSG_MAX_PAYLOAD_SIZE \<le> length request_array"
  by (simp add: request_array_def)

lemma write_frame:
  assumes "frame_ok f" "writable s"
  shows "write_one_message (overwrite request_array 0 (encode_frame f)) (u32_cast (length (encode_frame f))) s =
    Some (int (length (encode_frame f)), encode_frame f)"
proof -
  have len: "length (encode_frame f) \<le> 4103"
    using assms(1) by (simp add: length_encode_frame frame_ok_def MSG_MAX_PAYLOAD_SIZE_def)
  then have u: "unat (u32_cast (length (encode_frame f))) = length (encode_frame f)" by simp
  have "sint (u32_cast (length (encode_frame f))) = int (length (encode_frame f))"
    using len u by (subst sint_uint) (simp add: unsigned_of_nat signed_take_bit_int_eq_self take_bit_nat_eq_self)
  with write_one_message_complete [OF assms(2), of "u32_cast (length (encode_frame f))"
      "overwrite request_array 0 (encode_frame f)"] len u
  show ?thesis by (simp add: request_array_def size_defs del: of_nat_add)
qed

lemma request_frame_ok:
  "length (encode_tlvs xs) \<le> MSG_MAX_PAYLOAD_SIZE \<Longrightarrow> frame_ok (request_frame ty xs)"
  by (simp add: frame_ok_def request_frame_def)

lemma credential_tlvs_short:
  "length u \<le> MAX_USERNAME_SIZE \<Longrightarrow> length p \<le> MAX_PASSWORD_SIZE \<Longrightarrow>
   length (encode_tlvs (credential_tlvs u p)) \<le> MSG_MAX_PAYLOAD_SIZE"
  by (simp add: credential_tlvs_def size_defs)

text \<open>Each request is sent as its frame when its fields fit, and not at all otherwise.\<close>

lemma registration_sent:
  assumes "writable s"
  shows "handle_client_registration u p s =
    (if length u \<le> MAX_USERNAME_SIZE \<and> length p \<le> MAX_PASSWORD_SIZE
     then Some (0, encode_frame (request_frame REGISTER (credential_tlvs u p))) else Some (-1, []))"
proof (cases "length u \<le> MAX_USERNAME_SIZE \<and> length p \<le> MAX_PASSWORD_SIZE")
  case True
  let ?f = "request_frame REGISTER (credential_tlvs u p)"
  have "frame_ok ?f" using True by (intro request_frame_ok credential_tlvs_short) simp_all
  with write_frame [OF this assms] True build_register_request_frame
      [of "\<lparr>reg_username = u, reg_password = p\<rparr>" request_array 0] request_array_fits
  show ?thesis by (simp add: handle_client_registration_def del: of_nat_add)
qed (auto simp: handle_client_registration_def build_register_request_def Let_def)

lemma login_sent:
  assumes "writable s"
  shows "handle_client_login u p s =
    (if length u \<le> MAX_USERNAME_SIZE \<and> length p \<le> MAX_PASSWORD_SIZE
     then Some (0, encode_frame (request_frame LOGIN (credential_tlvs u p))) else Some (-1, []))"
proof (cases "length u \<le> MAX_USERNAME_SIZE \<and> length p \<le> MAX_PASSWORD_SIZE")
  case True
  let ?f = "request_frame LOGIN (credential_tlvs u p)"
  have "frame_ok ?f" using True by (intro request_frame_ok credential_tlvs_short) simp_all
  with write_frame [OF this assms] True build_login_request_frame
      [of "\<lparr>login_username = u, login_password = p\<rparr>" request_array 0] request_array_fits
  show ?thesis by (simp add: handle_client_login_def del: of_nat_add)
qed (auto simp: handle_client_login_def build_login_request_def Let_def)

lemma world_sent:
  assumes "writable s"
  defines "w \<equiv> \<lambda>conn c. \<lparr>world_sender_username = username (c_user conn), world_message_content = c\<rparr>"
  shows "handle_world_message conn c s =
    (if length (username (c_user conn)) \<le> MAX_USERNAME_SIZE \<and> length c \<le> MAX_MSG_CONTENT_SIZE
     then Some (encode_frame (request_frame CHAT (world_tlvs (w conn c)))) else Some [])"
proof (cases "length (username (c_user conn)) \<le> MAX_USERNAME_SIZE \<and> length c \<le> MAX_MSG_CONTENT_SIZE")
  case True
  have "frame_ok (request_frame CHAT (world_tlvs (w conn c)))" by (intro request_frame_ok chat_tlvs_short)
  with write_frame [OF this assms(1)] True build_world_broadcast_request_frame [of "w conn c" request_array 0]
    request_array_fits
  show ?thesis by (simp add: handle_world_message_def w_def del: of_nat_add)
qed (auto simp: handle_world_message_def build_world_broadcast_request_def Let_def)

lemma peer_sent:
  assumes "writable s"
  defines "w \<equiv> \<lambda>conn r c. \<lparr>p2p_sender_username = username (c_user conn), p2p_recipient_username = r,
    p2p_message_content = c\<rparr>"
  shows "handle_peer_message conn r c s =
    (if length (username (c_user conn)) \<le> MAX_USERNAME_SIZE \<and> length r \<le> MAX_USERNAME_SIZE \<and>
        username (c_user conn) \<noteq> r \<and> length c \<le> MAX_MSG_CONTENT_SIZE
     then Some (encode_frame (request_frame CHAT (p2p_tlvs (w conn r c)))) else Some [])"
proof (cases "length (username (c_user conn)) \<le> MAX_USERNAME_SIZE \<and> length r \<le> MAX_USERNAME_SIZE \<and>
        username (c_user conn) \<noteq> r \<and> length c \<le> MAX_MSG_CONTENT_SIZE")
  case True
  have "frame_ok (request_frame CHAT (p2p_tlvs (w conn r c)))" by (intro request_frame_ok chat_tlvs_short)
  with write_frame [OF this assms(1)] True build_p2p_broadcast_request_frame [of "w conn r c" request_array 0]
    request_array_fits
  show ?thesis by (simp add: handle_peer_message_def w_def del: of_nat_add)
qed (auto simp: handle_peer_message_def build_p2p_broadcast_request_def Let_def)

text \<open>
  A command never does more than send one request, of a kind that fits the login state, and only
  \<open>/quit\<close> ends the loop.
\<close>

definition sends :: "bool \<Rightarrow> bool \<Rightarrow> (bool \<times> bytes) option \<Rightarrow> bool" where
  "sends authed quit r \<longleftrightarrow> (\<exists>out. r = Some (\<not> quit, out) \<and>
     (out = [] \<or> (\<exists>f. out = encode_frame f \<and> frame_ok f \<and>
        f_type f \<in> (if authed then {mtype CHAT} else {mtype REGISTER, mtype LOGIN}))))"

definition quits :: "bytes \<Rightarrow> bool" where
  "quits line \<longleftrightarrow> string_to_lower (fst (next_word line)) = str ''/quit''"

lemma sends_nothing: "go = (\<not> quit) \<Longrightarrow> sends authed quit (Some (go, []))"
  by (simp add: sends_def)

lemma sends_if:
  "(c \<Longrightarrow> sends authed quit x) \<Longrightarrow> (\<not> c \<Longrightarrow> sends authed quit y) \<Longrightarrow> sends authed quit (if c then x else y)"
  by simp

lemma sends_pair:
  "(\<And>x y. p = (x, y) \<Longrightarrow> sends authed quit (f x y)) \<Longrightarrow> sends authed quit (case p of (x, y) \<Rightarrow> f x y)"
  by (cases p) simp

lemma frame_type_request: "f_type (request_frame ty xs) = mtype ty"
  by (simp add: request_frame_def)

lemma sends_world:
  "writable s \<Longrightarrow> authed \<Longrightarrow> \<not> quit \<Longrightarrow>
   sends authed quit (do { sock \<leftarrow> handle_world_message conn m s; Some (True, sock) })"
  by (auto simp: sends_def world_sent frame_type_request intro!: exI request_frame_ok chat_tlvs_short)

lemma sends_peer:
  "writable s \<Longrightarrow> authed \<Longrightarrow> \<not> quit \<Longrightarrow>
   sends authed quit (do { sock \<leftarrow> handle_peer_message conn r m s; Some (True, sock) })"
  by (auto simp: sends_def peer_sent frame_type_request intro!: exI request_frame_ok chat_tlvs_short)

lemma sends_login:
  "writable s \<Longrightarrow> \<not> authed \<Longrightarrow> \<not> quit \<Longrightarrow>
   sends authed quit (do { (_, sock) \<leftarrow> handle_client_login u p s; Some (True, sock) })"
  by (auto simp: sends_def login_sent frame_type_request intro!: exI request_frame_ok credential_tlvs_short)

lemma sends_registration:
  "writable s \<Longrightarrow> \<not> authed \<Longrightarrow> \<not> quit \<Longrightarrow>
   sends authed quit (do { (_, sock) \<leftarrow> handle_client_registration u p s; Some (True, sock) })"
  by (auto simp: sends_def registration_sent frame_type_request intro!: exI request_frame_ok credential_tlvs_short)

lemma command_shell_sends:
  assumes "writable s"
  shows "sends (has_flag (c_flags conn) IS_AUTH) (quits line) (command_shell conn line s)"
  unfolding command_shell_def Let_def quits_def
  by (intro sends_if sends_pair sends_nothing sends_world sends_peer sends_login sends_registration assms)
    (simp_all add: str_def string_to_lower_def)

text \<open>What the commands send.\<close>

lemma world_command:
  assumes "has_flag (c_flags conn) IS_AUTH" "content \<noteq> []" "\<not> is_space (hd content)" "10 \<notin> set content"
  shows "command_shell conn (str ''/world '' @ content) s =
    do { sock \<leftarrow> handle_world_message conn content s; Some (True, sock) }"
proof -
  have "next_word (str ''/world'' @ 32 # content) = (str ''/world'', 32 # content)"
    by (rule next_word_append) (simp_all add: str_def is_space_def)
  then have w: "next_word (str ''/world '' @ content) = (str ''/world'', 32 # content)"
    by (simp add: str_def)
  have "rest_of_line (32 # content) = content"
    using assms(2-4) by (cases content) (auto simp: rest_of_line_def skip_ws_def is_space_def)
  with w assms(1,2) show ?thesis
    by (simp add: command_shell_def Let_def str_def string_to_lower_def tolower_def)
qed

lemma login_command:
  assumes "\<not> has_flag (c_flags conn) IS_AUTH"
    and "name \<noteq> []" "\<forall>c \<in> set name. \<not> is_space c" "pass \<noteq> []" "\<forall>c \<in> set pass. \<not> is_space c"
  shows "command_shell conn (str ''/login '' @ name @ str '' '' @ pass) s =
    do { (_, sock) \<leftarrow> handle_client_login name pass s; Some (True, sock) }"
proof -
  have "next_word (str ''/login'' @ 32 # name @ 32 # pass) = (str ''/login'', 32 # name @ 32 # pass)"
    by (rule next_word_append) (simp_all add: str_def is_space_def)
  then have w: "next_word (str ''/login '' @ name @ str '' '' @ pass) = (str ''/login'', 32 # name @ 32 # pass)"
    by (simp add: str_def)
  have sp: "is_space 32" by (simp add: is_space_def)
  have n: "next_word (32 # name @ 32 # pass) = (name, 32 # pass)"
    using next_word_append [OF assms(2,3) sp] by (simp add: next_word_space sp)
  have p: "next_word (32 # pass) = (pass, [])"
    using next_word_last [OF assms(5)] by (simp add: next_word_space sp)
  from w n p assms(1,2,4) show ?thesis
    by (simp add: command_shell_def Let_def str_def string_to_lower_def tolower_def)
qed

section \<open>What the responses do\<close>

text \<open>The buffer of \<open>handle_server_response\<close> takes every frame, and the frame is dispatched on.\<close>

lemma response_read:
  assumes "frame_ok f" "steady a" "flowing b" "length (arriving a) < MSG_HEADER_SIZE"
    and "arriving (a @ b) = encode_frame f @ rest"
  obtains m s' where "read_one_message (message_zero\<lparr>payload := Some (replicate MSG_MAX_PAYLOAD_SIZE 0)\<rparr>) (a @ b)
      = Some (0, m, s')" "message_ok m" "message_frame m = f" "flowing s'" "arriving s' = rest"
  using read_one_message_frame [OF assms(1) _ _ assms(2-5),
      of "message_zero\<lparr>payload := Some (replicate MSG_MAX_PAYLOAD_SIZE 0)\<rparr>"] that
  by auto

lemma message_frame_fields:
  assumes "message_ok m" "message_frame m = f"
  shows "msg_type m = f_type f" "msg_rc m = f_rc f" "payload_inside m" "msg_payload m = f_payload f"
  using assms by (auto simp: message_frame_def message_ok_def payload_inside_def msg_payload_def)

lemma login_response_handled:
  assumes "length (username u) \<le> MAX_USERNAME_SIZE"
    and "steady a" "flowing b" "length (arriving a) < MSG_HEADER_SIZE"
    and "arriving (a @ b) = encode_frame (request_frame LOGIN (user_tlvs u)) @ rest"
  shows "\<exists>s'. handle_server_response conn (a @ b) = Some (True,
      conn\<lparr>c_user := (c_user conn)\<lparr>user_id := user_id u, username := username u\<rparr>,
           c_flags := flag_or_assign (c_flags conn) IS_AUTH\<rparr>, s') \<and> flowing s' \<and> arriving s' = rest"
proof -
  have ok: "frame_ok (request_frame LOGIN (user_tlvs u))"
    using length_u8_trunc_le [of "username u"] by (intro request_frame_ok) (simp add: user_tlvs_def size_defs)
  obtain m s' where r: "read_one_message (message_zero\<lparr>payload := Some (replicate MSG_MAX_PAYLOAD_SIZE 0)\<rparr>) (a @ b)
      = Some (0, m, s')" and m: "message_ok m" "message_frame m = request_frame LOGIN (user_tlvs u)"
    and s': "flowing s'" "arriving s' = rest"
    by (rule response_read [OF ok assms(2-5)])
  note f = message_frame_fields [OF m]
  have "parse_login_response m user_blank =
      Some (0, user_blank\<lparr>user_id := user_id u, username := username u\<rparr>)"
    using parse_response_user(2) [OF f(3) _ assms(1)] f(4) by (simp add: request_frame_def)
  with r f(1,2) s' show ?thesis
    by (simp add: handle_server_response_def handle_login_response_def request_frame_def user_blank_def)
qed

lemma chat_response_handled:
  assumes "steady a" "flowing b" "length (arriving a) < MSG_HEADER_SIZE"
    and "arriving (a @ b) = encode_frame (request_frame CHAT xs) @ rest"
    and "xs = world_tlvs w \<and> length (world_sender_username w) \<le> MAX_USERNAME_SIZE \<and>
           length (world_message_content w) \<le> MAX_MSG_CONTENT_SIZE \<and>
           line = print_chat_message (world_sender_username w) [] (world_message_content w) \<or>
         xs = p2p_tlvs q \<and> length (p2p_sender_username q) \<le> MAX_USERNAME_SIZE \<and>
           length (p2p_recipient_username q) \<le> MAX_USERNAME_SIZE \<and>
           length (p2p_message_content q) \<le> MAX_MSG_CONTENT_SIZE \<and>
           line = print_chat_message (p2p_sender_username q) (p2p_recipient_username q) (p2p_message_content q)"
  shows "\<exists>s'. handle_server_response conn (a @ b) = Some (True,
      conn\<lparr>c_screen := c_screen conn @ [line]\<rparr>, s') \<and> flowing s' \<and> arriving s' = rest"
proof -
  have ok: "frame_ok (request_frame CHAT xs)"
    using assms(5) by (auto intro: request_frame_ok chat_tlvs_short)
  obtain m s' where r: "read_one_message (message_zero\<lparr>payload := Some (replicate MSG_MAX_PAYLOAD_SIZE 0)\<rparr>) (a @ b)
      = Some (0, m, s')" and m: "message_ok m" "message_frame m = request_frame CHAT xs"
    and s': "flowing s'" "arriving s' = rest"
    by (rule response_read [OF ok assms(1-4)])
  note f = message_frame_fields [OF m]
  have pl: "msg_payload m = encode_tlvs xs" using f(4) by (simp add: request_frame_def)
  have "xs \<noteq> []" "hd (encode_tlvs xs) = fst (hd xs)"
    using assms(5) by (auto simp: world_tlvs_def p2p_tlvs_def encode_tlv_def)
  then have "payload_mem m \<noteq> []" "payload_mem m ! 0 = fst (hd xs)"
    using pl by (cases xs; cases "payload_mem m"; cases "unat (payload_length m)";
        simp add: msg_payload_def encode_tlv_def)+
  then have peek: "peek_broadcast_type m = Some (fst (hd xs))" by (simp add: peek_broadcast_type_def)
  from assms(5) show ?thesis
  proof (elim disjE conjE, goal_cases)
    case 1
    then have "world_of (msg_payload m) = Some (world_sender_username w, world_message_content w)"
      by (simp add: pl world_of_encode)
    with parse_world_broadcast_spec [OF f(3)] 1 r f(1,2) s' peek show ?thesis
      by (simp add: handle_server_response_def handle_broadcast_response_def request_frame_def
          parse_world_broadcast_notification_def) (simp add: world_tlvs_def)
  next
    case 2
    then have "p2p_of (msg_payload m) = Some (p2p_sender_username q, p2p_recipient_username q, p2p_message_content q)"
      by (simp add: pl p2p_of_encode)
    with parse_p2p_broadcast_spec [OF f(3)] 2 r f(1,2) s' peek show ?thesis
      by (simp add: handle_server_response_def handle_broadcast_response_def request_frame_def
          parse_p2p_broadcast_notification_def) (simp add: p2p_tlvs_def)
  qed
qed

lemma register_response_handled:
  assumes "length (username u) \<le> MAX_USERNAME_SIZE"
    and "steady a" "flowing b" "length (arriving a) < MSG_HEADER_SIZE"
    and "arriving (a @ b) = encode_frame (request_frame REGISTER (user_tlvs u)) @ rest"
  shows "\<exists>s'. handle_server_response conn (a @ b) = Some (True, conn, s') \<and> flowing s' \<and> arriving s' = rest"
proof -
  have ok: "frame_ok (request_frame REGISTER (user_tlvs u))"
    using length_u8_trunc_le [of "username u"] by (intro request_frame_ok) (simp add: user_tlvs_def size_defs)
  obtain m s' where r: "read_one_message (message_zero\<lparr>payload := Some (replicate MSG_MAX_PAYLOAD_SIZE 0)\<rparr>) (a @ b)
      = Some (0, m, s')" and m: "message_ok m" "message_frame m = request_frame REGISTER (user_tlvs u)"
    and s': "flowing s'" "arriving s' = rest"
    by (rule response_read [OF ok assms(2-5)])
  note f = message_frame_fields [OF m]
  have "parse_register_response m user_blank =
      Some (0, user_blank\<lparr>user_id := user_id u, username := username u\<rparr>)"
    using parse_response_user(1) [OF f(3) _ assms(1)] f(4) by (simp add: request_frame_def)
  with r f(1,2) s' show ?thesis
    by (simp add: handle_server_response_def handle_registration_response_def request_frame_def)
qed

text \<open>A response with an error code changes nothing for the client, whatever it answers.\<close>

lemma error_response_handled:
  assumes "frame_ok f" "f_rc f \<noteq> 0" "steady a" "flowing b" "length (arriving a) < MSG_HEADER_SIZE"
    and "arriving (a @ b) = encode_frame f @ rest"
  shows "\<exists>s'. handle_server_response conn (a @ b) = Some (True, conn, s') \<and> flowing s' \<and> arriving s' = rest"
proof -
  obtain m s' where r: "read_one_message (message_zero\<lparr>payload := Some (replicate MSG_MAX_PAYLOAD_SIZE 0)\<rparr>) (a @ b)
      = Some (0, m, s')" and m: "message_ok m" "message_frame m = f"
    and s': "flowing s'" "arriving s' = rest"
    by (rule response_read [OF assms(1,3-6)])
  have "msg_rc m \<noteq> 0" using message_frame_fields(2) [OF m] assms(2) by simp
  with r s' show ?thesis
    by (simp add: handle_server_response_def handle_registration_response_def handle_login_response_def
        handle_broadcast_response_def)
qed

text \<open>
  A login response with code 0 whose payload is malformed or incomplete is not an error for the
  client: the parser reports \<open>RESP_ERROR_MALFORMED\<close>, which is not the \<open>-1\<close> the handler looks for.
\<close>

lemma malformed_login_accepted:
  assumes "msg_rc m = 0" "payload_length m = 0"
  shows "handle_login_response m conn = Some (conn\<lparr>
      c_user := (c_user conn)\<lparr>user_id := 0, username := []\<rparr>, c_flags := flag_or_assign (c_flags conn) IS_AUTH\<rparr>)"
  using assms
  by (simp add: handle_login_response_def parse_login_response_def tlv_loop.simps user_blank_def)

text \<open>Nothing the server can send in a login response with code 0 is refused.\<close>

lemma parse_login_response_code:
  assumes "payload_inside m" "parse_login_response m u = Some (ret, user)"
  shows "ret \<noteq> -1"
proof -
  from assms(2) obtain act where act:
    "tlv_loop login_response_switch (payload_mem m) 0 (unat (payload_length m)) (u, False, False) = Some act"
    "(case act of Return r (u, _, _) \<Rightarrow> Some (r, u)
      | Next (u, has_id, has_username) \<Rightarrow>
          if \<not> has_id \<or> \<not> has_username then Some (rcode RESP_ERROR_MALFORMED, u) else Some (0, u)) = Some (ret, user)"
    unfolding parse_login_response_def bind_eq_Some_conv by blast
  show ?thesis
  proof (cases act)
    case (Next s1)
    with act(2) show ?thesis by (cases s1) (auto split: if_splits)
  next
    case (Return r s1)
    with act(2) have "r = ret" by (cases s1) simp
    with login_resp_sw.loop_malformed [OF _ _ act(1) [unfolded Return]] assms(1) show ?thesis
      by (simp add: payload_inside_def)
  qed
qed

lemma login_never_refused:
  assumes "payload_inside m" "msg_rc m = 0" "handle_login_response m conn = Some conn'"
  shows "has_flag (c_flags conn') IS_AUTH"
proof -
  from assms obtain ret user where "parse_login_response m user_blank = Some (ret, user)"
    by (auto simp: handle_login_response_def bind_eq_Some_conv)
  with parse_login_response_code [OF assms(1) this] assms(2,3) show ?thesis
    by (auto simp: handle_login_response_def flag_simps)
qed

end
