(* ===== verification/Conversation.thy ===== *)
theory Conversation
  imports Client Event_Loop
begin

text \<open>
  Client and server put together: what a line typed at one terminal does to the server, and what
  the answer does to a client, through the wire format, with the bytes cut into pieces on the way
  in both directions.
\<close>

text \<open>What one complete request does to a connection that was idle.\<close>

lemma request_served:
  assumes "same_sizes st" "fd < get_size st" "db_ok sq rows (db st)"
    and "incoming_buffers st ! fd = []" "frame_ok f" "f_payload f \<noteq> []" "concat chunks = encode_frame f"
    and "request_effect sq rows fd (f_type f) (f_payload f) st = (g, st1)"
  shows "handle_read_connection sq fd chunks Read_Would_Block st =
    Some (mark fd WRITING (queue fd [] (encode_frame g) st1))"
proof -
  have k: "same_sizes st1" "fd < get_size st1"
    using keptD [OF kept_effect [OF assms(8)]] assms(1,2) by simp_all
  show ?thesis
    using handle_read_effect [OF assms(1-3), of chunks Read_Would_Block] serve_one_frame [OF assms(1-6,8)] k assms(7)
    by (simp add: read_effect_def Let_def table_simps encode_frame_def)
qed

lemma login_request_effect:
  assumes "length u \<le> MAX_USERNAME_SIZE" "length p \<le> MAX_PASSWORD_SIZE"
    and "account rows (db st) (account_key u) = Some a" "password a = p"
  shows "request_effect sq rows fd (mtype LOGIN) (encode_tlvs (credential_tlvs u p)) st =
    (request_frame LOGIN (user_tlvs a), authenticate fd a st)"
  using assms
  by (simp add: request_effect_def login_effect_def login_verdict_def credentials_of_encode verdict_frame_def)

lemma world_request_effect:
  assumes "length (world_sender_username w) \<le> MAX_USERNAME_SIZE"
    and "length (world_message_content w) \<le> MAX_MSG_CONTENT_SIZE" "world_message_content w \<noteq> []"
    and "has_flag (flags st ! fd) IS_AUTH"
  shows "request_effect sq rows fd (mtype CHAT) (encode_tlvs (world_tlvs w)) st =
    (let f = request_frame CHAT (world_tlvs \<lparr>world_sender_username = usernames st ! fd,
       world_message_content = world_message_content w\<rparr>) in
     (f, deliver (other_authenticated fd st) (encode_frame f) st))"
proof -
  obtain pl where pl: "encode_tlvs (world_tlvs w) = 4 # pl"
    by (simp add: world_tlvs_def encode_tlv_def)
  have "world_of (4 # pl) = Some (world_sender_username w, world_message_content w)"
    using world_of_encode [OF assms(1,2)] pl by simp
  with assms(3,4) show ?thesis
    by (simp add: pl request_effect_def broadcast_verdict_def broadcast_frame_def broadcast_effect_def Let_def)
qed

lemma credential_tlvs_nonempty: "encode_tlvs (credential_tlvs u p) \<noteq> []"
  by (simp add: credential_tlvs_def encode_tlv_def)

lemma world_tlvs_nonempty: "encode_tlvs (world_tlvs w) \<noteq> []"
  by (simp add: world_tlvs_def encode_tlv_def)

text \<open>The \<open>/login\<close> line reaches the server as the login request it stands for.\<close>

lemma login_line_served:
  assumes "\<not> has_flag (c_flags conn) IS_AUTH" "writable s"
    and "name \<noteq> []" "\<forall>c \<in> set name. \<not> is_space c" "length name \<le> MAX_USERNAME_SIZE"
    and "pass \<noteq> []" "\<forall>c \<in> set pass. \<not> is_space c" "length pass \<le> MAX_PASSWORD_SIZE"
    and "same_sizes st" "fd < get_size st" "db_ok sq rows (db st)" "incoming_buffers st ! fd = []"
    and "account rows (db st) (account_key name) = Some a" "password a = pass"
  shows "\<exists>req. command_shell conn (str ''/login '' @ name @ str '' '' @ pass) s = Some (True, req) \<and>
    (\<forall>chunks. concat chunks = req \<longrightarrow>
      handle_read_connection sq fd chunks Read_Would_Block st = Some (mark fd WRITING
        (queue fd [] (encode_frame (request_frame LOGIN (user_tlvs a))) (authenticate fd a st))))"
proof -
  let ?f = "request_frame LOGIN (credential_tlvs name pass)"
  have f: "frame_ok ?f" by (intro request_frame_ok credential_tlvs_short assms)
  have "command_shell conn (str ''/login '' @ name @ str '' '' @ pass) s = Some (True, encode_frame ?f)"
    using login_command [OF assms(1,3,4,6,7)] login_sent [OF assms(2)] assms(5,8) by simp
  moreover have "handle_read_connection sq fd chunks Read_Would_Block st = Some (mark fd WRITING
        (queue fd [] (encode_frame (request_frame LOGIN (user_tlvs a))) (authenticate fd a st)))"
    if "concat chunks = encode_frame ?f" for chunks
    using request_served [OF assms(9-12) f _ that] login_request_effect [OF assms(5,8,13,14)]
      credential_tlvs_nonempty
    by (simp add: request_frame_def)
  ultimately show ?thesis by blast
qed

text \<open>The \<open>/world\<close> line reaches the server as the broadcast it stands for.\<close>

lemma world_line_served:
  assumes "has_flag (c_flags conn) IS_AUTH" "writable s" "length (username (c_user conn)) \<le> MAX_USERNAME_SIZE"
    and "content \<noteq> []" "\<not> is_space (hd content)" "10 \<notin> set content" "length content \<le> MAX_MSG_CONTENT_SIZE"
    and "same_sizes st" "fd < get_size st" "db_ok sq rows (db st)" "incoming_buffers st ! fd = []"
    and "has_flag (flags st ! fd) IS_AUTH"
  defines "f \<equiv> request_frame CHAT (world_tlvs \<lparr>world_sender_username = usernames st ! fd,
      world_message_content = content\<rparr>)"
  shows "\<exists>req. command_shell conn (str ''/world '' @ content) s = Some (True, req) \<and>
    (\<forall>chunks. concat chunks = req \<longrightarrow>
      handle_read_connection sq fd chunks Read_Would_Block st = Some (mark fd WRITING
        (queue fd [] (encode_frame f) (deliver (other_authenticated fd st) (encode_frame f) st))))"
proof -
  let ?w = "\<lparr>world_sender_username = username (c_user conn), world_message_content = content\<rparr>"
  let ?f = "request_frame CHAT (world_tlvs ?w)"
  have ok: "frame_ok ?f" by (intro request_frame_ok chat_tlvs_short)
  have "command_shell conn (str ''/world '' @ content) s = Some (True, encode_frame ?f)"
    using world_command [OF assms(1,4-6)] world_sent [OF assms(2)] assms(3,7) by simp
  moreover have "request_effect sq rows fd (mtype CHAT) (encode_tlvs (world_tlvs ?w)) st =
      (f, deliver (other_authenticated fd st) (encode_frame f) st)"
    using world_request_effect [of ?w st fd sq rows] assms(3,4,7,12) by (simp add: f_def Let_def)
  then have "handle_read_connection sq fd chunks Read_Would_Block st = Some (mark fd WRITING
        (queue fd [] (encode_frame f) (deliver (other_authenticated fd st) (encode_frame f) st)))"
    if "concat chunks = encode_frame ?f" for chunks
    using request_served [OF assms(8-11) ok _ that] world_tlvs_nonempty by (simp add: request_frame_def)
  ultimately show ?thesis by blast
qed

end
