(* ===== verification/Client_Session.thy ===== *)
theory Client_Session
  imports Client Process
begin

text \<open>
  The running client: the start-up of \<open>src/client.cpp\<close>, and the two threads of
  \<open>run_messaging_loop\<close> and \<open>socket_thread_handler\<close> of \<open>src/client_utils.cpp\<close> with the signal handler,
  interleaved. A step is one pass of a loop (one line, one wake-up of \<open>poll\<close>), one run of the signal
  handler, or the joining of the threads; a schedule is any list of steps that are enabled one after
  the other. What holds under every schedule is proved by induction over it.
\<close>

section \<open>Connecting\<close>

record connect_answers =
  socket_rc :: int
  pton_rc :: int
  connect_rc :: int

text \<open>The result, \<open>conn.fd\<close>, and the process.\<close>

definition create_client_connection :: "connect_answers \<Rightarrow> int \<Rightarrow> process \<Rightarrow> int \<times> int \<times> process" where
  "create_client_connection k conn_fd p =
     (let fd = socket_rc k in
      if fd < 0 then (-1, conn_fd, p)
      else let p = acquire fd p in
        if pton_rc k \<le> 0 then (-1, conn_fd, release fd p)
        else if connect_rc k = -1 then (-1, conn_fd, release fd p)
        else (fd, fd, p))"

text \<open>Whether there is a connection object, and what \<open>sigaction\<close> returns.\<close>

definition setup_client_signal_handlers :: "bool \<Rightarrow> int \<Rightarrow> int" where
  "setup_client_signal_handlers has_conn sigaction_rc =
     (if \<not> has_conn then -1 else if sigaction_rc = -1 then -1 else 0)"

section \<open>The state of the session\<close>

datatype thread_status = Listening | Finished

text \<open>Where the main thread is: before the test of \<open>g_keep_running\<close>, in \<open>getline\<close>, in \<open>join\<close>, or done.\<close>

datatype main_status = Testing | Reading_Line | Joining | Returned | Terminated

record session =
  s_conn :: client
  s_fd :: int
  s_inbox :: "arrival_event list"
  s_sent :: bytes
  s_keep_running :: bool
  s_pipe :: "int \<times> int"
  s_signalled :: bool
  s_thread :: thread_status
  s_main :: main_status
  s_process :: process

text \<open>\<open>run_messaging_loop\<close> up to its loop: the pipe, and the start of the thread.\<close>

definition open_session :: "int \<Rightarrow> int \<times> int \<Rightarrow> session \<Rightarrow> session" where
  "open_session pipe_rc fds s =
     (if pipe_rc = -1 then s\<lparr>s_main := Returned\<rparr>
      else s\<lparr>s_pipe := fds, s_process := acquire (snd fds) (acquire (fst fds) (s_process s)),
             s_thread := Listening, s_main := Testing\<rparr>)"

definition handle_client_sigint :: "session \<Rightarrow> session" where
  "handle_client_sigint s = s\<lparr>s_keep_running := False\<rparr>"

section \<open>The socket thread\<close>

text \<open>What \<open>poll\<close> returns: an error, or whether the pipe and whether the socket is ready.\<close>

datatype poll_answer = Poll_Error | Poll_Bits bool bool

definition socket_thread_handler :: "poll_answer \<Rightarrow> session \<Rightarrow> session option" where
  "socket_thread_handler answer s =
     (case answer of
        Poll_Error \<Rightarrow> Some (s\<lparr>s_thread := Finished\<rparr>)
      | Poll_Bits shutdown_ready socket_ready \<Rightarrow>
          if shutdown_ready then Some (s\<lparr>s_thread := Finished\<rparr>)
          else if socket_ready then do {
            (handled, conn, inbox) \<leftarrow> handle_server_response (s_conn s) (s_inbox s);
            let s = s\<lparr>s_conn := conn, s_inbox := inbox\<rparr>;
            Some (if handled then s else s\<lparr>s_thread := Finished\<rparr>) }
          else Some s)"

section \<open>The main thread\<close>

text \<open>
  Behind the loop: the byte is written to the pipe. Leaving the function while \<open>socket_thread\<close> is
  joinable destroys a joinable \<open>std::thread\<close>, which calls \<open>std::terminate\<close>.
\<close>

definition signal_shutdown :: "int \<Rightarrow> session \<Rightarrow> session" where
  "signal_shutdown write_rc s =
     (if write_rc = -1 then s\<lparr>s_main := Terminated\<rparr>
      else s\<lparr>s_signalled := True, s_main := Joining\<rparr>)"

definition test_running :: "int \<Rightarrow> session \<Rightarrow> session" where
  "test_running write_rc s =
     (if s_keep_running s then s\<lparr>s_main := Reading_Line\<rparr> else signal_shutdown write_rc s)"

text \<open>\<open>getline\<close> gives a line, whose request the socket takes as \<open>ws\<close> says, or fails.\<close>

definition take_line :: "bytes \<Rightarrow> write_event list \<Rightarrow> int \<Rightarrow> session \<Rightarrow> session option" where
  "take_line buffer ws write_rc s = do {
     (go, sock) \<leftarrow> command_shell (s_conn s) buffer ws;
     let s = s\<lparr>s_sent := s_sent s @ sock\<rparr>;
     Some (if \<not> go then signal_shutdown write_rc s else s\<lparr>s_main := Testing\<rparr>) }"

definition input_failed :: "session \<Rightarrow> session" where
  "input_failed s = s\<lparr>s_main := Terminated\<rparr>"

text \<open>After \<open>join\<close>: both ends of the pipe and the connection are closed.\<close>

definition close_session :: "session \<Rightarrow> session" where
  "close_session s =
     (let p = release (snd (s_pipe s)) (release (fst (s_pipe s)) (s_process s));
          p = (if s_fd s \<noteq> -1 then release (s_fd s) p else p)
      in s\<lparr>s_process := p, s_main := Returned\<rparr>)"

section \<open>Schedules\<close>

datatype action =
    Sigint
  | Wake poll_answer
  | Test int
  | Line bytes "write_event list" int
  | Input_Failed
  | Join

fun session_step :: "action \<Rightarrow> session \<Rightarrow> session option" where
  "session_step Sigint s = Some (handle_client_sigint s)"
| "session_step (Wake answer) s = socket_thread_handler answer s"
| "session_step (Test write_rc) s = Some (test_running write_rc s)"
| "session_step (Line buffer ws write_rc) s = take_line buffer ws write_rc s"
| "session_step Input_Failed s = Some (input_failed s)"
| "session_step Join s = Some (close_session s)"

text \<open>
  Which steps can come next. \<open>poll\<close> waits until one descriptor is ready and reports the pipe exactly
  when the byte is in it; \<open>join\<close> waits for the thread. The writes of a request find the connection
  open.
\<close>

fun enabled :: "action \<Rightarrow> session \<Rightarrow> bool" where
  "enabled Sigint s \<longleftrightarrow> s_main s \<noteq> Returned \<and> s_main s \<noteq> Terminated"
| "enabled (Wake answer) s \<longleftrightarrow> s_thread s = Listening \<and> s_main s \<noteq> Returned \<and> s_main s \<noteq> Terminated \<and>
     (case answer of Poll_Error \<Rightarrow> True | Poll_Bits d r \<Rightarrow> (d \<longleftrightarrow> s_signalled s) \<and> (d \<or> r))"
| "enabled (Test write_rc) s \<longleftrightarrow> s_main s = Testing"
| "enabled (Line buffer ws write_rc) s \<longleftrightarrow> s_main s = Reading_Line \<and> writable ws"
| "enabled Input_Failed s \<longleftrightarrow> s_main s = Reading_Line"
| "enabled Join s \<longleftrightarrow> s_main s = Joining \<and> s_thread s = Finished"

fun run_session :: "action list \<Rightarrow> session \<Rightarrow> session option" where
  "run_session [] s = Some s"
| "run_session (a # as) s = do { s \<leftarrow> session_step a s; run_session as s }"

fun schedule :: "action list \<Rightarrow> session \<Rightarrow> bool" where
  "schedule [] s \<longleftrightarrow> True"
| "schedule (a # as) s \<longleftrightarrow> enabled a s \<and>
     (case session_step a s of Some s' \<Rightarrow> schedule as s' | None \<Rightarrow> True)"

text \<open>\<open>main\<close>: an exit code, or the session that runs.\<close>

record client_boot =
  sigaction_rc :: int
  connection :: connect_answers
  pipe_rc :: int
  pipe_fds :: "int \<times> int"

definition client_zero :: client where
  "client_zero = \<lparr>c_user = user_blank, c_flags = NONE, c_screen = []\<rparr>"

definition client_main :: "client_boot \<Rightarrow> arrival_event list \<Rightarrow> process \<Rightarrow> int \<times> process + session" where
  "client_main k inbox p =
     (if setup_client_signal_handlers True (sigaction_rc k) = -1 then Inl (1, p)
      else let (rc, conn_fd, p) = create_client_connection (connection k) (-1) p in
        if rc = -1 then Inl (1, p)
        else Inr (open_session (pipe_rc k) (pipe_fds k)
          \<lparr>s_conn = client_zero, s_fd = rc, s_inbox = inbox, s_sent = [], s_keep_running = True,
           s_pipe = (-1, -1), s_signalled = False, s_thread = Finished, s_main = Testing, s_process = p\<rparr>))"

section \<open>What the server tells the client\<close>

text \<open>The messages the server sends, with what each does to the client's state.\<close>

datatype notice =
    World_Notice world_broadcast_t
  | Direct_Notice p2p_broadcast_t
  | Login_Notice user_t
  | Register_Notice user_t
  | Error_Notice frame

fun notice_frame :: "notice \<Rightarrow> frame" where
  "notice_frame (World_Notice w) = request_frame CHAT (world_tlvs w)"
| "notice_frame (Direct_Notice q) = request_frame CHAT (p2p_tlvs q)"
| "notice_frame (Login_Notice u) = request_frame LOGIN (user_tlvs u)"
| "notice_frame (Register_Notice u) = request_frame REGISTER (user_tlvs u)"
| "notice_frame (Error_Notice f) = f"

fun notice_ok :: "notice \<Rightarrow> bool" where
  "notice_ok (World_Notice w) \<longleftrightarrow> length (world_sender_username w) \<le> MAX_USERNAME_SIZE \<and>
     length (world_message_content w) \<le> MAX_MSG_CONTENT_SIZE"
| "notice_ok (Direct_Notice q) \<longleftrightarrow> length (p2p_sender_username q) \<le> MAX_USERNAME_SIZE \<and>
     length (p2p_recipient_username q) \<le> MAX_USERNAME_SIZE \<and> length (p2p_message_content q) \<le> MAX_MSG_CONTENT_SIZE"
| "notice_ok (Login_Notice u) \<longleftrightarrow> length (username u) \<le> MAX_USERNAME_SIZE"
| "notice_ok (Register_Notice u) \<longleftrightarrow> length (username u) \<le> MAX_USERNAME_SIZE"
| "notice_ok (Error_Notice f) \<longleftrightarrow> frame_ok f \<and> f_rc f \<noteq> 0"

fun notice_effect :: "notice \<Rightarrow> client \<Rightarrow> client" where
  "notice_effect (World_Notice w) c = c\<lparr>c_screen := c_screen c @
     [print_chat_message (world_sender_username w) [] (world_message_content w)]\<rparr>"
| "notice_effect (Direct_Notice q) c = c\<lparr>c_screen := c_screen c @
     [print_chat_message (p2p_sender_username q) (p2p_recipient_username q) (p2p_message_content q)]\<rparr>"
| "notice_effect (Login_Notice u) c = c\<lparr>c_user := (c_user c)\<lparr>user_id := user_id u, username := username u\<rparr>,
     c_flags := flag_or_assign (c_flags c) IS_AUTH\<rparr>"
| "notice_effect (Register_Notice u) c = c"
| "notice_effect (Error_Notice f) c = c"

definition notice_bytes :: "notice list \<Rightarrow> bytes" where
  "notice_bytes ns = encode_frames (map notice_frame ns)"

lemma notice_handled:
  assumes "notice_ok n" "flowing b" "arriving b = encode_frame (notice_frame n) @ rest"
  shows "\<exists>s'. handle_server_response conn b = Some (True, notice_effect n conn, s') \<and>
    flowing s' \<and> arriving s' = rest"
proof -
  have nil: "steady []" "length (arriving []) < MSG_HEADER_SIZE" by (simp_all add: steady_def MSG_HEADER_SIZE_def)
  have b: "arriving ([] @ b) = encode_frame (notice_frame n) @ rest" using assms(3) by simp
  show ?thesis
  proof (cases n)
    case (World_Notice w)
    have "notice_ok (World_Notice w)" using assms(1) World_Notice by simp
    with chat_response_handled [OF nil(1) assms(2) nil(2) b [unfolded World_Notice notice_frame.simps],
        of w "print_chat_message (world_sender_username w) [] (world_message_content w)"] World_Notice
    show ?thesis by simp
  next
    case (Direct_Notice q)
    have "notice_ok (Direct_Notice q)" using assms(1) Direct_Notice by simp
    with chat_response_handled [OF nil(1) assms(2) nil(2) b [unfolded Direct_Notice notice_frame.simps],
        of _ "print_chat_message (p2p_sender_username q) (p2p_recipient_username q) (p2p_message_content q)" q]
      Direct_Notice
    show ?thesis by simp
  next
    case (Login_Notice u)
    with login_response_handled [OF _ nil(1) assms(2) nil(2)] b assms(1) show ?thesis by simp
  next
    case (Register_Notice u)
    with register_response_handled [OF _ nil(1) assms(2) nil(2)] b assms(1) show ?thesis by simp
  next
    case (Error_Notice f)
    with error_response_handled [OF _ _ nil(1) assms(2) nil(2), of f] b assms(1) show ?thesis by simp
  qed
qed

text \<open>After the last message the server is gone.\<close>

lemma nothing_handled:
  assumes "flowing b" "arriving b = []"
  shows "handle_server_response conn b = Some (False, conn, [])"
  using flowing_empty [OF assms]
  by (simp add: handle_server_response_def read_one_message_def read_header.simps [of 7] sock_read_def MSG_HEADER_SIZE_def)

section \<open>The invariant of a session\<close>

text \<open>
  \<open>ns\<close> is what the server sends, \<open>c\<close> the client at the start and \<open>h\<close> the descriptors the process
  held before it connected; \<open>lines\<close> counts the lines typed so far and \<open>unhurt\<close> says that \<open>poll\<close> has
  not failed.
\<close>

definition shown :: "notice list \<Rightarrow> client \<Rightarrow> session \<Rightarrow> nat \<Rightarrow> bool" where
  "shown ns c s k \<longleftrightarrow> k \<le> length ns \<and> s_conn s = fold notice_effect (take k ns) c \<and>
     flowing (s_inbox s) \<and> arriving (s_inbox s) = notice_bytes (drop k ns)"

definition descriptors :: "int multiset \<Rightarrow> session \<Rightarrow> int multiset" where
  "descriptors h s =
     (if s_main s = Returned then h else {#s_fd s, fst (s_pipe s), snd (s_pipe s)#} + h)"

definition session_inv :: "notice list \<Rightarrow> client \<Rightarrow> int multiset \<Rightarrow> nat \<Rightarrow> bool \<Rightarrow> session \<Rightarrow> bool" where
  "session_inv ns c h lines unhurt s \<longleftrightarrow>
     (\<exists>k. shown ns c s k \<and> (unhurt \<and> \<not> s_signalled s \<and> s_thread s = Finished \<longrightarrow> k = length ns)) \<and>
     (\<exists>fs. s_sent s = encode_frames fs \<and> list_all frame_ok fs \<and> length fs \<le> lines) \<and>
     s_fd s \<noteq> -1 \<and> held (s_process s) = descriptors h s \<and>
     (s_signalled s \<longleftrightarrow> s_main s = Joining \<or> s_main s = Returned) \<and>
     (s_main s = Returned \<longrightarrow> s_thread s = Finished)"

text \<open>One response read: the next message is shown, or all have been.\<close>

lemma shown_next:
  assumes "shown ns c s k" "list_all notice_ok ns"
  obtains handled conn inbox k' where
    "handle_server_response (s_conn s) (s_inbox s) = Some (handled, conn, inbox)"
    and "shown ns c (s\<lparr>s_conn := conn, s_inbox := inbox\<rparr>) k'" "\<not> handled \<longrightarrow> k' = length ns"
proof -
  have k: "k \<le> length ns" "s_conn s = fold notice_effect (take k ns) c" "flowing (s_inbox s)"
    "arriving (s_inbox s) = notice_bytes (drop k ns)"
    using assms(1) by (simp_all add: shown_def)
  show thesis
  proof (cases "k < length ns")
    case True
    then have d: "drop k ns = ns ! k # drop (Suc k) ns" by (simp add: Cons_nth_drop_Suc)
    have "arriving (s_inbox s) = encode_frame (notice_frame (ns ! k)) @ notice_bytes (drop (Suc k) ns)"
      using k(4) by (simp add: d notice_bytes_def)
    moreover have "notice_ok (ns ! k)" using assms(2) True by (simp add: list_all_length)
    ultimately obtain b where b: "handle_server_response (s_conn s) (s_inbox s) =
        Some (True, notice_effect (ns ! k) (s_conn s), b)" "flowing b" "arriving b = notice_bytes (drop (Suc k) ns)"
      using notice_handled [OF _ k(3)] by blast
    from b(1) show thesis
      by (rule that [where k' = "Suc k"]) (use True b k(2) in \<open>simp_all add: shown_def take_Suc_conv_app_nth\<close>)
  next
    case False
    with k(4) have e: "arriving (s_inbox s) = []" by (simp add: notice_bytes_def)
    from nothing_handled [OF k(3) e, of "s_conn s"] show thesis
      by (rule that [where k' = k]) (use False k e in \<open>simp_all add: shown_def notice_bytes_def flowing_def\<close>)
  qed
qed

lemma shown_cong:
  "s_conn s' = s_conn s \<Longrightarrow> s_inbox s' = s_inbox s \<Longrightarrow> shown ns c s' k \<longleftrightarrow> shown ns c s k"
  by (simp add: shown_def)

lemma wake_inv:
  assumes "session_inv ns c h n u s" "list_all notice_ok ns" "enabled (Wake answer) s"
  shows "\<exists>s'. socket_thread_handler answer s = Some s' \<and>
    session_inv ns c h n (u \<and> Poll_Error \<noteq> answer) s' \<and> s_main s' = s_main s"
proof -
  from assms(1) obtain k where k: "shown ns c s k" by (auto simp: session_inv_def)
  show ?thesis
  proof (cases "answer = Poll_Bits False True")
    case True
    obtain handled conn inbox k' where h: "handle_server_response (s_conn s) (s_inbox s) = Some (handled, conn, inbox)"
      "shown ns c (s\<lparr>s_conn := conn, s_inbox := inbox\<rparr>) k'" "\<not> handled \<longrightarrow> k' = length ns"
      by (rule shown_next [OF k assms(2)])
    let ?s = "s\<lparr>s_conn := conn, s_inbox := inbox\<rparr>"
    let ?s' = "if handled then ?s else ?s\<lparr>s_thread := Finished\<rparr>"
    have "socket_thread_handler answer s = Some ?s'" using h(1) True by (simp add: socket_thread_handler_def)
    moreover have "shown ns c ?s' k'" using h(2) by (simp add: shown_def)
    then have "session_inv ns c h n (u \<and> Poll_Error \<noteq> answer) ?s'"
      using assms(1,3) h(3) unfolding session_inv_def descriptors_def
      by (intro conjI exI [of _ k']) auto
    ultimately show ?thesis by auto
  next
    case False
    with assms(3) have "socket_thread_handler answer s = Some (s\<lparr>s_thread := Finished\<rparr>)"
      by (cases answer) (auto simp: socket_thread_handler_def)
    moreover have "session_inv ns c h n (u \<and> Poll_Error \<noteq> answer) (s\<lparr>s_thread := Finished\<rparr>)"
      using assms(1,3) k False shown_cong [of "s\<lparr>s_thread := Finished\<rparr>" s ns c k]
      unfolding session_inv_def descriptors_def
      by (intro conjI exI [of _ k]) (auto split: poll_answer.splits)
    ultimately show ?thesis by auto
  qed
qed

lemma take_line_inv:
  assumes "session_inv ns c h n u s" "enabled (Line buffer ws rc) s"
  shows "\<exists>s'. take_line buffer ws rc s = Some s' \<and> session_inv ns c h (Suc n) u s'"
proof -
  from assms(2) have w: "writable ws" and m: "s_main s = Reading_Line" by simp_all
  from assms(1) obtain k fs where k: "shown ns c s k"
      "u \<and> \<not> s_signalled s \<and> s_thread s = Finished \<longrightarrow> k = length ns"
    and fs: "s_sent s = encode_frames fs" "list_all frame_ok fs" "length fs \<le> n"
    by (auto simp: session_inv_def)
  from command_shell_sends [OF w] obtain go out where
    line: "command_shell (s_conn s) buffer ws = Some (go, out)" "out = [] \<or> (\<exists>f. out = encode_frame f \<and> frame_ok f)"
    unfolding sends_def by blast
  from line(2) obtain gs where gs: "s_sent s @ out = encode_frames gs" "list_all frame_ok gs" "length gs \<le> Suc n"
  proof (elim disjE exE)
    fix f assume "out = encode_frame f \<and> frame_ok f"
    with fs show thesis by (intro that [of "fs @ [f]"]) simp_all
  qed (use fs in \<open>intro that [of fs], simp_all\<close>)
  let ?s = "s\<lparr>s_sent := s_sent s @ out\<rparr>"
  let ?s' = "if \<not> go then signal_shutdown rc ?s else ?s\<lparr>s_main := Testing\<rparr>"
  have "shown ns c ?s' k" using k(1) by (simp add: shown_def signal_shutdown_def)
  with assms(1) m k gs have "session_inv ns c h (Suc n) u ?s'"
    unfolding session_inv_def descriptors_def
    by (intro conjI exI [of _ k] exI [of _ gs]) (auto simp: signal_shutdown_def)
  moreover have "take_line buffer ws rc s = Some ?s'" using line(1) by (simp add: take_line_def)
  ultimately show ?thesis by blast
qed

text \<open>The steps of the main thread that neither send nor read.\<close>

lemma session_inv_main:
  assumes "session_inv ns c h n u s"
    and "s_conn s' = s_conn s" "s_inbox s' = s_inbox s" "s_sent s' = s_sent s" "s_fd s' = s_fd s"
    and "s_thread s' = s_thread s" "s_signalled s \<longrightarrow> s_signalled s'"
    and "held (s_process s') = descriptors h s'" "s_signalled s' \<longleftrightarrow> s_main s' = Joining \<or> s_main s' = Returned"
    and "s_main s' = Returned \<longrightarrow> s_thread s' = Finished"
  shows "session_inv ns c h n u s'"
  using assms shown_cong [of s' s ns c] by (auto simp: session_inv_def)

lemma close_session_fields [simp]:
  "s_conn (close_session s) = s_conn s" "s_inbox (close_session s) = s_inbox s" "s_sent (close_session s) = s_sent s"
  "s_fd (close_session s) = s_fd s" "s_thread (close_session s) = s_thread s"
  "s_signalled (close_session s) = s_signalled s" "s_main (close_session s) = Returned"
  by (simp_all add: close_session_def Let_def)

lemma close_session_held:
  assumes "held (s_process s) = {#s_fd s, fst (s_pipe s), snd (s_pipe s)#} + h" "s_fd s \<noteq> -1"
  shows "held (s_process (close_session s)) = h"
  using assms by (simp add: close_session_def Let_def fds.contents_rel)

fun is_line :: "action \<Rightarrow> bool" where
  "is_line (Line _ _ _) = True"
| "is_line _ = False"

lemma step_inv:
  assumes "session_inv ns c h n u s" "list_all notice_ok ns" "enabled a s"
  shows "\<exists>s'. session_step a s = Some s' \<and>
    session_inv ns c h (n + (if is_line a then 1 else 0)) (u \<and> Wake Poll_Error \<noteq> a) s'"
proof -
  have d: "held (s_process s) = descriptors h s" "s_signalled s \<longleftrightarrow> s_main s = Joining \<or> s_main s = Returned"
    "s_fd s \<noteq> -1" "s_main s = Returned \<longrightarrow> s_thread s = Finished"
    using assms(1) by (simp_all add: session_inv_def)
  note keep = session_inv_main [OF assms(1)]
  show ?thesis
  proof (cases a)
    case Sigint
    with d show ?thesis by (auto simp: handle_client_sigint_def descriptors_def intro!: keep)
  next
    case (Wake answer)
    with wake_inv [OF assms(1,2), of answer] assms(3) show ?thesis by auto
  next
    case (Test rc)
    with d assms(3) show ?thesis
      by (auto simp: test_running_def signal_shutdown_def descriptors_def intro!: keep)
  next
    case (Line buffer ws rc)
    with take_line_inv [OF assms(1), of buffer ws rc] assms(3) show ?thesis by auto
  next
    case Input_Failed
    with d assms(3) show ?thesis by (auto simp: input_failed_def descriptors_def intro!: keep)
  next
    case Join
    have "session_inv ns c h n u (close_session s)"
      by (rule keep) (use Join d assms(3) close_session_held [of s h] in \<open>simp_all add: descriptors_def\<close>)
    with Join show ?thesis by simp
  qed
qed

lemma run_inv:
  assumes "session_inv ns c h n u s" "list_all notice_ok ns" "schedule as s"
  shows "\<exists>s'. run_session as s = Some s' \<and>
    session_inv ns c h (n + length (filter is_line as)) (u \<and> Wake Poll_Error \<notin> set as) s'"
  using assms(1,3)
proof (induction as arbitrary: n u s)
  case (Cons a as)
  then have "enabled a s" by simp
  from step_inv [OF Cons.prems(1) assms(2) this] obtain s1 where
    s1: "session_step a s = Some s1" "session_inv ns c h (n + (if is_line a then 1 else 0)) (u \<and> Wake Poll_Error \<noteq> a) s1"
    by blast
  from Cons.IH [OF s1(2)] Cons.prems(2) s1(1) show ?case by auto
qed auto

section \<open>Quitting\<close>

text \<open>
  From the write to the pipe on, only the thread's last wake-up and the join are left, whatever
  \<open>poll\<close> answers; and one of them can always be done.
\<close>

definition steps_left :: "session \<Rightarrow> nat" where
  "steps_left s = (if s_main s = Joining then (if s_thread s = Listening then 2 else 1) else 0)"

lemma joining_step:
  assumes "s_main s = Joining" "s_signalled s" "enabled a s" "a \<noteq> Sigint"
  shows "\<exists>s'. session_step a s = Some s' \<and> steps_left s' < steps_left s \<and> s_conn s' = s_conn s \<and>
    (s_main s' = Joining \<and> s_signalled s' \<and> s_thread s' = Finished \<or>
     s_main s' = Returned \<and> s_thread s' = Finished)"
proof (cases a)
  case (Wake answer)
  with assms show ?thesis
    by (cases answer) (auto simp: socket_thread_handler_def steps_left_def)
next
  case Join
  with assms show ?thesis by (auto simp: close_session_def steps_left_def Let_def)
qed (use assms in simp_all)

lemma joining_progress:
  assumes "s_main s = Joining" "s_signalled s"
  shows "\<exists>a. a \<noteq> Sigint \<and> enabled a s"
proof (cases "s_thread s")
  case Listening
  with assms show ?thesis by (intro exI [of _ "Wake (Poll_Bits True False)"]) simp
next
  case Finished
  with assms show ?thesis by (intro exI [of _ Join]) simp
qed

lemma returned_stops: "s_main s = Returned \<Longrightarrow> s_thread s = Finished \<Longrightarrow> \<not> enabled a s"
  by (cases a) auto

lemma joining_run:
  assumes "s_main s = Joining" "s_signalled s" "Sigint \<notin> set as" "schedule as s"
  shows "\<exists>s'. run_session as s = Some s' \<and> length as \<le> steps_left s \<and> s_conn s' = s_conn s \<and>
    (s_main s' = Returned \<or> s_main s' = Joining \<and> s_signalled s')"
  using assms
proof (induction as arbitrary: s)
  case (Cons a as)
  from Cons.prems have a: "enabled a s" "a \<noteq> Sigint" "Sigint \<notin> set as" by auto
  from joining_step [OF Cons.prems(1,2) a(1,2)] obtain s1 where
    s1: "session_step a s = Some s1" "steps_left s1 < steps_left s" "s_conn s1 = s_conn s" and
    m: "s_main s1 = Joining \<and> s_signalled s1 \<and> s_thread s1 = Finished \<or> s_main s1 = Returned \<and> s_thread s1 = Finished"
    by blast
  have sch: "schedule as s1" using Cons.prems(4) s1(1) by simp
  show ?case
  proof (cases "s_main s1 = Joining")
    case True
    with m Cons.IH [OF True _ a(3) sch] s1 show ?thesis by auto
  next
    case False
    with m returned_stops sch have "as = []" by (cases as) auto
    with False m s1 show ?thesis by auto
  qed
qed simp

section \<open>How a session begins and ends\<close>

lemma create_client_connection_spec:
  assumes "create_client_connection k conn_fd p = (rc, fd, p')"
  shows "rc = -1 \<and> fd = conn_fd \<and> held p' = held p \<or>
    0 \<le> rc \<and> fd = rc \<and> rc = socket_rc k \<and> held p' = add_mset rc (held p)"
  using assms fds.rel_acq fds.contents_acq
  by (auto simp: create_client_connection_def Let_def split: if_splits)

lemma client_main_inv:
  assumes "client_main k inbox p = Inr s" "pipe_rc k \<noteq> -1"
    and "flowing inbox" "arriving inbox = notice_bytes ns"
  shows "session_inv ns client_zero (held p) 0 True s" "s_main s = Testing" "s_keep_running s"
proof -
  obtain rc fd q where c: "create_client_connection (connection k) (-1) p = (rc, fd, q)" by (rule prod_cases3)
  with create_client_connection_spec [OF c] assms(1) have rc: "0 \<le> rc" "held q = add_mset rc (held p)"
    and s: "s = open_session (pipe_rc k) (pipe_fds k)
      \<lparr>s_conn = client_zero, s_fd = rc, s_inbox = inbox, s_sent = [], s_keep_running = True,
       s_pipe = (-1, -1), s_signalled = False, s_thread = Finished, s_main = Testing, s_process = q\<rparr>"
    by (auto simp: client_main_def split: if_splits)
  have "shown ns client_zero s 0" using assms(2-4) by (simp add: s open_session_def shown_def)
  then have "\<exists>k. shown ns client_zero s k \<and> (True \<and> \<not> s_signalled s \<and> s_thread s = Finished \<longrightarrow> k = length ns)"
    using assms(2) by (intro exI [of _ 0]) (simp add: s open_session_def)
  moreover have "held (s_process s) = descriptors (held p) s"
    using rc(2) assms(2) by (simp add: s open_session_def descriptors_def fds.contents_acq add_mset_commute)
  ultimately show "session_inv ns client_zero (held p) 0 True s" "s_main s = Testing" "s_keep_running s"
    using rc(1) assms(2) unfolding session_inv_def
    by (auto simp: s open_session_def intro: exI [of _ "[]"])
qed

text \<open>Without its pipe it returns at once.\<close>

lemma client_main_no_pipe:
  assumes "client_main k inbox p = Inr s" "pipe_rc k = -1"
  shows "s_main s = Returned \<and> s_thread s = Finished \<and> held (s_process s) = add_mset (s_fd s) (held p)"
proof -
  obtain rc fd q where c: "create_client_connection (connection k) (-1) p = (rc, fd, q)" by (rule prod_cases3)
  with create_client_connection_spec [OF c] assms show ?thesis
    by (auto simp: client_main_def open_session_def split: if_splits)
qed

fun fatal :: "action \<Rightarrow> bool" where
  "fatal Input_Failed \<longleftrightarrow> True"
| "fatal (Test write_rc) \<longleftrightarrow> write_rc = -1"
| "fatal (Line _ _ write_rc) \<longleftrightarrow> write_rc = -1"
| "fatal _ \<longleftrightarrow> False"

fun leaves :: "action \<Rightarrow> bool" where
  "leaves Sigint \<longleftrightarrow> True"
| "leaves (Line buffer _ _) \<longleftrightarrow> quits buffer"
| "leaves _ \<longleftrightarrow> False"

definition leaving :: "session \<Rightarrow> bool" where
  "leaving s \<longleftrightarrow> s_main s = Joining \<or> s_main s = Returned \<or> \<not> s_keep_running s"

lemma thread_keeps_main:
  "socket_thread_handler answer s = Some s' \<Longrightarrow> s_main s' = s_main s \<and> s_keep_running s' = s_keep_running s"
  by (auto simp: socket_thread_handler_def bind_eq_Some_conv Let_def split: poll_answer.splits if_splits)

lemma line_result:
  assumes "take_line buffer ws rc s = Some s'" "writable ws"
  shows "s_main s' = (if quits buffer then (if rc = -1 then Terminated else Joining) else Testing) \<and>
    s_keep_running s' = s_keep_running s"
  using assms(1) command_shell_sends [OF assms(2), of "s_conn s" buffer]
  by (auto simp: take_line_def sends_def signal_shutdown_def bind_eq_Some_conv)

lemma step_cause:
  assumes "enabled a s" "session_step a s = Some s'"
  shows "(s_main s' = Terminated \<longrightarrow> s_main s = Terminated \<or> fatal a) \<and>
    (a = Input_Failed \<longrightarrow> s_main s' = Terminated) \<and> (leaving s' \<longrightarrow> leaving s \<or> leaves a)"
proof (cases a)
  case (Wake answer)
  with assms thread_keeps_main [of answer s s'] show ?thesis by (auto simp: leaving_def)
next
  case (Line buffer ws rc)
  with assms line_result [of buffer ws rc s s'] show ?thesis by (auto simp: leaving_def)
qed (use assms in \<open>auto simp: leaving_def handle_client_sigint_def test_running_def signal_shutdown_def
    input_failed_def close_session_def Let_def split: if_splits\<close>)

lemma run_cause:
  assumes "schedule as s" "run_session as s = Some s'"
  shows "(s_main s' = Terminated \<longrightarrow> s_main s = Terminated \<or> (\<exists>a \<in> set as. fatal a)) \<and>
    (Input_Failed \<in> set as \<longrightarrow> s_main s' = Terminated) \<and>
    (leaving s' \<longrightarrow> leaving s \<or> (\<exists>a \<in> set as. leaves a))"
  using assms
proof (induction as arbitrary: s)
  case (Cons a as)
  then obtain s1 where s1: "session_step a s = Some s1" "schedule as s1" "run_session as s1 = Some s'"
    by (auto simp: bind_eq_Some_conv)
  have "enabled a s" using Cons.prems(1) by simp
  note step = step_cause [OF this s1(1)]
  have stuck: "as = [] \<and> s' = s1" if "a = Input_Failed"
  proof (cases as)
    case (Cons b bs)
    with that s1 \<open>enabled a s\<close> show ?thesis by (cases b) (auto simp: input_failed_def)
  qed (use s1 in simp)
  from Cons.IH [OF s1(2,3)] step stuck show ?case by (cases "a = Input_Failed") auto
qed auto

end
