(* ===== verification/Compatibility.thy ===== *)
theory Compatibility
  imports Client_Session Server_Invariant
begin

text \<open>
  Client and server agree: whatever frame the server can send, the client reads it within its
  memory, under every schedule of its threads. The parsers of the responses are only safe on the
  values the server sends (an id of four bytes), which is what \<open>answer_typed\<close> gives.
\<close>

lemma user_tlvs_fit: "\<forall>x \<in> set (fst (split_tlvs (encode_tlvs (user_tlvs u)))). user_id_fits (fst x) (snd x)"
  by (simp add: user_tlvs_split) (simp add: user_tlvs_def user_id_fits_def)

lemma parse_response_defined:
  assumes "payload_inside m" "msg_payload m = encode_tlvs (user_tlvs u)"
  shows "parse_register_response m b \<noteq> None" "parse_login_response m b \<noteq> None"
proof -
  have bounds: "0 \<le> unat (payload_length m)" "unat (payload_length m) \<le> length (payload_mem m)"
    using assms(1) by (simp_all add: payload_inside_def)
  have fits: "\<forall>x \<in> set (fst (split_tlvs (take (unat (payload_length m) - 0) (drop 0 (payload_mem m))))).
      user_id_fits (fst x) (snd x)"
    using user_tlvs_fit [of u] assms(2) by (simp add: msg_payload_def)
  show "parse_register_response m b \<noteq> None"
    by (rule reg_resp_sw.loop_defined [OF bounds fits, of "(b, False, False)"])
      (auto simp: parse_register_response_def split: prod.split)
  show "parse_login_response m b \<noteq> None"
    by (rule login_resp_sw.loop_defined [OF bounds fits, of "(b, False, False)"])
      (auto simp: parse_login_response_def split: prod.split)
qed

lemma broadcast_response_defined:
  assumes "payload_inside m" "payload_mem m \<noteq> []"
  shows "handle_broadcast_response m conn \<noteq> None"
proof -
  have "\<exists>r. parse_world_broadcast m b = Some r" "\<exists>r. parse_p2p_broadcast m q = Some r" for b q
    using parse_world_broadcast_spec [OF assms(1), of b] parse_p2p_broadcast_spec [OF assms(1), of q]
    by (auto split: option.splits)
  then obtain w q where "parse_world_broadcast m \<lparr>world_sender_username = [], world_message_content = []\<rparr> = Some w"
    "parse_p2p_broadcast m \<lparr>p2p_sender_username = [], p2p_recipient_username = [], p2p_message_content = []\<rparr> = Some q"
    by blast
  moreover have "peek_broadcast_type m \<noteq> None"
    using assms(2) by (simp add: peek_broadcast_type_def at_def)
  ultimately show ?thesis
    by (cases w; cases q) (auto simp: handle_broadcast_response_def parse_world_broadcast_notification_def
        parse_p2p_broadcast_notification_def)
qed

lemma answer_handled:
  assumes "answer_ok f" "flowing b" "arriving b = encode_frame f @ rest"
  shows "\<exists>c s'. handle_server_response conn b = Some (True, c, s') \<and> flowing s' \<and> arriving s' = rest"
proof -
  have ok: "frame_ok f" using assms(1) by (simp add: answer_ok_def)
  obtain m s' where r: "read_one_message (message_zero\<lparr>payload := Some (replicate MSG_MAX_PAYLOAD_SIZE 0)\<rparr>) ([] @ b)
      = Some (0, m, s')" and m: "message_ok m" "message_frame m = f" and s': "flowing s'" "arriving s' = rest"
    by (rule response_read [OF ok _ assms(2), of "[]" rest]) (simp_all add: assms(3) MSG_HEADER_SIZE_def steady_def)
  note fields = message_frame_fields [OF m]
  consider "msg_rc m \<noteq> 0" | u where "msg_payload m = encode_tlvs (user_tlvs u)" "f_type f \<noteq> mtype CHAT"
    | "payload_mem m \<noteq> []" "f_type f = mtype CHAT"
  proof -
    have chat: "payload_mem m \<noteq> []" if "f_payload f \<noteq> []"
      using that fields(4) by (auto simp: msg_payload_def)
    have tlvs: "encode_tlvs (world_tlvs w) \<noteq> []" "encode_tlvs (p2p_tlvs q) \<noteq> []" for w q
      by (simp_all add: world_tlvs_def p2p_tlvs_def encode_tlv_def)
    show thesis
    proof (cases "f_rc f = 0")
      case True
      then have "(\<exists>u. f_type f \<in> {mtype REGISTER, mtype LOGIN} \<and> f_payload f = encode_tlvs (user_tlvs u)) \<or>
          (\<exists>w. f_type f = mtype CHAT \<and> f_payload f = encode_tlvs (world_tlvs w)) \<or>
          (\<exists>q. f_type f = mtype CHAT \<and> f_payload f = encode_tlvs (p2p_tlvs q))"
        using assms(1) answer_typed_fields [of f] by (simp add: answer_ok_def)
      then show thesis
      proof (elim disjE exE conjE)
        fix u assume "f_type f \<in> {mtype REGISTER, mtype LOGIN}" "f_payload f = encode_tlvs (user_tlvs u)"
        then show thesis using fields(4) by (intro that(2) [of u]) auto
      qed (use that(3) chat tlvs in simp_all)
    qed (use that(1) fields(2) in simp)
  qed
  then have "(if msg_type m = mtype REGISTER then do { _ \<leftarrow> handle_registration_response m; Some (True, conn, s') }
     else if msg_type m = mtype LOGIN then do { conn \<leftarrow> handle_login_response m conn; Some (True, conn, s') }
     else if msg_type m = mtype CHAT then do { conn \<leftarrow> handle_broadcast_response m conn; Some (True, conn, s') }
     else Some (True, conn, s')) \<in> {Some (True, c, s') | c. True}"
  proof cases
    case 1
    then show ?thesis
      by (simp add: handle_registration_response_def handle_login_response_def handle_broadcast_response_def)
  next
    case (2 u)
    with parse_response_defined [OF fields(3) 2(1), of user_blank] fields(1) show ?thesis
      by (auto simp: handle_registration_response_def handle_login_response_def)
  next
    case 3
    with broadcast_response_defined [OF fields(3), of conn] fields(1) show ?thesis by auto
  qed
  with r s' show ?thesis by (auto simp: handle_server_response_def)
qed

section \<open>Every schedule is safe\<close>

definition answers_waiting :: "session \<Rightarrow> bool" where
  "answers_waiting s \<longleftrightarrow> flowing (s_inbox s) \<and>
     (\<exists>fs. list_all answer_ok fs \<and> arriving (s_inbox s) = encode_frames fs)"

lemma answers_waiting_cong: "s_inbox s' = s_inbox s \<Longrightarrow> answers_waiting s' = answers_waiting s"
  by (simp add: answers_waiting_def)

lemma response_safe:
  assumes "answers_waiting s"
  obtains handled c inbox where "handle_server_response (s_conn s) (s_inbox s) = Some (handled, c, inbox)"
    "answers_waiting (s\<lparr>s_conn := c, s_inbox := inbox\<rparr>)"
proof -
  from assms obtain fs where fs: "flowing (s_inbox s)" "list_all answer_ok fs" "arriving (s_inbox s) = encode_frames fs"
    by (auto simp: answers_waiting_def)
  show thesis
  proof (cases fs)
    case Nil
    with fs(3) have e: "arriving (s_inbox s) = []" by simp
    have "answers_waiting (s\<lparr>s_conn := s_conn s, s_inbox := []\<rparr>)"
      unfolding answers_waiting_def by (intro conjI exI [of _ "[]"]) (simp_all add: flowing_def)
    with nothing_handled [OF fs(1) e, of "s_conn s"] show thesis by (rule that)
  next
    case (Cons f gs)
    with fs obtain c b where "handle_server_response (s_conn s) (s_inbox s) = Some (True, c, b)" "flowing b"
      "arriving b = encode_frames gs"
      using answer_handled [of f "s_inbox s" "encode_frames gs" "s_conn s"] by auto
    moreover from this(2,3) have "answers_waiting (s\<lparr>s_conn := c, s_inbox := b\<rparr>)"
      unfolding answers_waiting_def using fs(2) Cons by (intro conjI exI [of _ gs]) simp_all
    ultimately show thesis by (intro that)
  qed
qed

lemma step_safe:
  assumes "answers_waiting s" "enabled a s"
  shows "\<exists>s'. session_step a s = Some s' \<and> answers_waiting s'"
proof (cases a)
  case (Wake answer)
  obtain handled c inbox where r: "handle_server_response (s_conn s) (s_inbox s) = Some (handled, c, inbox)"
    "answers_waiting (s\<lparr>s_conn := c, s_inbox := inbox\<rparr>)"
    by (rule response_safe [OF assms(1)])
  with assms(1) Wake show ?thesis
    by (cases answer) (auto simp: socket_thread_handler_def answers_waiting_def Let_def)
next
  case (Line buffer ws rc)
  with assms(2) have "writable ws" by simp
  from command_shell_sends [OF this, of "s_conn s" buffer] assms(1) Line show ?thesis
    by (auto simp: sends_def take_line_def signal_shutdown_def answers_waiting_def Let_def)
qed (use assms(1) in \<open>auto simp: handle_client_sigint_def test_running_def signal_shutdown_def
    input_failed_def answers_waiting_def\<close>)

lemma schedule_safe:
  assumes "answers_waiting s" "schedule as s"
  shows "\<exists>s'. run_session as s = Some s'"
  using assms
proof (induction as arbitrary: s)
  case (Cons a as)
  then have "enabled a s" by simp
  from step_safe [OF Cons.prems(1) this] obtain s1 where "session_step a s = Some s1" "answers_waiting s1" by blast
  with Cons.IH [of s1] Cons.prems(2) show ?case by simp
qed simp

end
