(* ===== verification/Room_Clients.thy ===== *)
theory Room_Clients
  imports Room_Refinement Compatibility
begin

text \<open>
  What the chat room tells a connection, as the messages the terminal client knows: with names of at
  most the protocol's length in the database, every frame the server ever sends is one of them, with
  every field within the limits of the client's parsers.
\<close>

definition names_fit :: "(bytes \<Rightarrow> user_t option) \<Rightarrow> bool" where
  "names_fit acc \<longleftrightarrow> (\<forall>k a. acc k = Some a \<longrightarrow> length (username a) \<le> MAX_USERNAME_SIZE)"

definition room_fits :: "room \<Rightarrow> bool" where
  "room_fits r \<longleftrightarrow> names_fit (accounts r) \<and>
     (\<forall>i name uid. online r i = Some (name, uid) \<longrightarrow> length name \<le> MAX_USERNAME_SIZE) \<and>
     (\<forall>j. \<forall>f \<in> set (told r j). \<exists>n. notice_ok n \<and> f = notice_frame n)"

lemma list_of_images: "\<forall>x \<in> set xs. \<exists>n. P n \<and> x = f n \<Longrightarrow> \<exists>ns. list_all P ns \<and> xs = map f ns"
proof (induction xs)
  case (Cons x xs)
  then obtain n ns where "P n" "x = f n" "list_all P ns" "xs = map f ns" by auto
  then show ?case by (intro exI [of _ "n # ns"]) simp
qed simp

lemma c_str_length: "length (c_str s) \<le> length s"
  by (simp add: c_str_def length_takeWhile_le)

text \<open>Telling a frame that is such a message.\<close>

lemma room_fits_tell:
  assumes "names_fit (accounts r)" "\<And>i name uid. online r i = Some (name, uid) \<Longrightarrow> length name \<le> MAX_USERNAME_SIZE"
    and "\<And>j f. f \<in> set (told r j) \<Longrightarrow> \<exists>n. notice_ok n \<and> f = notice_frame n" "notice_ok n"
  shows "room_fits (tell to (notice_frame n) r)"
  using assms by (auto simp: room_fits_def)

lemma chat_notice:
  assumes "message_of name pl = Some (recipient, content)" "length name \<le> MAX_USERNAME_SIZE"
  obtains x where "notice_ok x" "chat_frame name recipient content = notice_frame x"
proof (cases recipient)
  case None
  with message_bounds [OF assms(1)] assms(2) that show thesis
    by (intro that [of "World_Notice \<lparr>world_sender_username = name, world_message_content = content\<rparr>"]) auto
next
  case (Some rcp)
  with message_bounds [OF assms(1)] assms(2) that show thesis
    by (intro that [of "Direct_Notice \<lparr>p2p_sender_username = name, p2p_recipient_username = rcp,
      p2p_message_content = content\<rparr>"]) auto
qed

lemma room_fits_step:
  assumes "room_step r a r'" "room_fits r"
  shows "room_fits r'"
proof -
  have fits: "names_fit (accounts r)" "online r i = Some (name, uid) \<Longrightarrow> length name \<le> MAX_USERNAME_SIZE"
    "f \<in> set (told r j) \<Longrightarrow> \<exists>n. notice_ok n \<and> f = notice_frame n" for i name uid j f
    using assms(2) by (auto simp: room_fits_def)
  from assms(1) show ?thesis
  proof cases
    case (refuse i ty pl e)
    have "notice_ok (Error_Notice (error_frame ty e))"
      using refused_code [OF refuse(3)] by (cases e) (simp_all add: frame_ok_def error_frame_def)
    from room_fits_tell [OF fits this, where to = "\<lambda>j. j = i"] refuse(2) show ?thesis by simp
  next
    case (register pl u p i n)
    let ?a = "\<lparr>user_id = n, username = u, password = p\<rparr>"
    let ?r = "r\<lparr>accounts := (accounts r)(account_key u \<mapsto> \<lparr>user_id = n, username = c_str u, password = c_str p\<rparr>)\<rparr>"
    have u: "length u \<le> MAX_USERNAME_SIZE" by (rule credentials_of_bounds(1) [OF register(3)])
    have "names_fit (accounts ?r)"
      using fits(1) le_trans [OF c_str_length u] by (auto simp: names_fit_def)
    moreover have "notice_ok (Register_Notice ?a)" using u by simp
    ultimately have "room_fits (tell (\<lambda>j. j = i) (notice_frame (Register_Notice ?a)) ?r)"
      using fits(2,3) by (intro room_fits_tell) auto
    with register(2) show ?thesis by simp
  next
    case (login pl u p a i)
    have a: "length (username a) \<le> MAX_USERNAME_SIZE" using fits(1) login(4) by (auto simp: names_fit_def)
    then have "notice_ok (Login_Notice a)" by simp
    then have "room_fits (tell (\<lambda>j. j = i) (notice_frame (Login_Notice a))
        (r\<lparr>online := (online r)(i \<mapsto> (username a, user_id a))\<rparr>))"
      using fits a by (intro room_fits_tell) (auto split: if_splits)
    with login(2) show ?thesis by simp
  next
    case (say i name uid pl recipient content)
    obtain x where x: "notice_ok x" "chat_frame name recipient content = notice_frame x"
      by (rule chat_notice [OF say(4) fits(2) [OF say(3)]])
    from room_fits_tell [OF fits x(1), where to = "\<lambda>j. j = i \<or> hears r i recipient j"] say(2) x(2) show ?thesis by simp
  next
    case (leave i)
    with assms(2) show ?thesis by (auto simp: room_fits_def split: if_splits)
  qed
qed

lemma told_notices:
  assumes "room_run (open_room acc) as r" "names_fit acc"
  obtains ns where "list_all notice_ok ns" "told r j = map notice_frame ns"
proof -
  from assms(1) have "room_fits r"
  proof (induction rule: room_run.induct)
    case start
    show ?case using assms(2) by (simp add: room_fits_def open_room_def)
  next
    case (step as r a r')
    from room_fits_step [OF step.hyps(2) step.IH] show ?case .
  qed
  then have "\<forall>f \<in> set (told r j). \<exists>n. notice_ok n \<and> f = notice_frame n" unfolding room_fits_def by blast
  from list_of_images [OF this] obtain ns where "list_all notice_ok ns" "told r j = map notice_frame ns" by blast
  then show thesis by (rule that)
qed

end
