(* ===== verification/Samples.thy ===== *)
theory Samples
  imports Server_Main Wakeups Conversation Compatibility Room_Clients
begin

text \<open>
  Concrete instances on which the properties are exercised: a database that keeps SQLite's
  promises (a list of rows), a server with three connections of which two are logged in, and
  the requests they send.
\<close>

text \<open>
  Rows in insertion order; an insert of a name that is already there fails, as the \<open>UNIQUE\<close>
  column demands.
\<close>

definition list_sqlite :: "user_row list sqlite" where
  "list_sqlite = \<lparr>sq_open = (\<lambda>_. (True, [])), sq_exec = (\<lambda>d _. (True, d)), sq_prepare = (\<lambda>_ _. True),
     sq_insert = (\<lambda>d u p. if u \<in> set (map (fst \<circ> snd) d) then (False, d)
       else (True, d @ [(int (length d) + 1, u, p)])),
     sq_last_rowid = (\<lambda>d. fst (last d)),
     sq_select = (\<lambda>d k. map_option (\<lambda>(i, u, p). (i, Some u, Some p))
       (find (\<lambda>(i, u, p). string_to_lower u = k) d))\<rparr>"

lemma list_sqlite_users: "sqlite_users list_sqlite (\<lambda>d. d)"
  by (simp add: sqlite_users_def list_sqlite_def)

lemma list_sqlite_ok: "\<forall>(i, u, p) \<in> set d. 0 \<notin> set u \<and> 0 \<notin> set p \<Longrightarrow> db_ok list_sqlite (\<lambda>d. d) d"
  by (simp add: db_ok_def list_sqlite_users)

definition sample_users :: "user_row list" where
  "sample_users = [(1, str ''Alice'', str ''pw''), (2, str ''bob'', str ''pw2'')]"

lemma sample_db_ok: "db_ok list_sqlite (\<lambda>d. d) sample_users"
  by (rule list_sqlite_ok) (simp add: sample_users_def str_def)

text \<open>Connections 0 (Alice) and 1 (bob) are authenticated, 2 has only connected.\<close>

definition sample_server :: "user_row list server" where
  "sample_server = \<lparr>
     flags = [flag_or (flag_or IS_ACTIVE WANT_READ) IS_AUTH, flag_or (flag_or IS_ACTIVE WANT_READ) IS_AUTH,
       flag_or IS_ACTIVE WANT_READ],
     incoming_buffers = [[], [], []], outgoing_buffers = [[], [], []], user_ids = [1, 2, 0],
     usernames = [str ''Alice'', str ''bob'', str ''user''],
     db = sample_users, epoll = [0 \<mapsto> EPOLLIN_ET, 1 \<mapsto> EPOLLIN_ET, 2 \<mapsto> EPOLLIN_ET], wire = (\<lambda>_. [])\<rparr>"

lemma sample_server_fields [simp]:
  "get_size sample_server = 3" "db sample_server = sample_users" "wire sample_server = (\<lambda>_. [])"
  "flags sample_server = [flag_or (flag_or IS_ACTIVE WANT_READ) IS_AUTH,
     flag_or (flag_or IS_ACTIVE WANT_READ) IS_AUTH, flag_or IS_ACTIVE WANT_READ]"
  "incoming_buffers sample_server = [[], [], []]" "outgoing_buffers sample_server = [[], [], []]"
  "usernames sample_server = [str ''Alice'', str ''bob'', str ''user'']"
  "epoll sample_server = [0 \<mapsto> EPOLLIN_ET, 1 \<mapsto> EPOLLIN_ET, 2 \<mapsto> EPOLLIN_ET]"
  by (simp_all add: sample_server_def get_size_def)

lemma sample_sizes: "same_sizes sample_server"
  by (simp add: same_sizes_def) (simp add: sample_server_def)

lemma sample_server_inv: "table_inv sample_server"
  unfolding table_inv_def using sample_sizes
  by (auto simp: slot_ok_def less_Suc_eq numeral_eq_Suc flag_simps)

text \<open>A request message as \<open>parse_message\<close> gives it.\<close>

definition sample_message :: "msg_type_t \<Rightarrow> (u8 \<times> bytes) list \<Rightarrow> message_t" where
  "sample_message ty xs = \<lparr>payload_length = u32_cast (length (encode_tlvs xs)), msg_version = 1,
     msg_type = mtype ty, msg_rc = 0, payload = Some (encode_tlvs xs)\<rparr>"

lemma sample_message_payload:
  assumes "length (encode_tlvs xs) < 4294967296"
  shows "payload_inside (sample_message ty xs)" "msg_payload (sample_message ty xs) = encode_tlvs xs"
  using assms by (simp_all add: payload_inside_def msg_payload_def sample_message_def)

definition alice_says :: "(u8 \<times> bytes) list" where
  "alice_says = world_tlvs \<lparr>world_sender_username = str ''mallory'', world_message_content = str ''hi''\<rparr>"

definition alice_tells_bob :: "(u8 \<times> bytes) list" where
  "alice_tells_bob = p2p_tlvs \<lparr>p2p_sender_username = str ''Alice'', p2p_recipient_username = str ''bob'',
     p2p_message_content = str ''psst''\<rparr>"

lemma alice_says_facts:
  "payload_inside (sample_message CHAT alice_says)"
  "msg_payload (sample_message CHAT alice_says) = encode_tlvs alice_says"
  "encode_tlvs alice_says = tag TAG_WORLD_BROADCAST # tl (encode_tlvs alice_says)"
  "world_of (encode_tlvs alice_says) = Some (str ''mallory'', str ''hi'')"
proof -
  have len: "length (encode_tlvs alice_says) < 4294967296"
    by (simp add: alice_says_def world_tlvs_def encode_tlv_def str_def u8_trunc_def)
  show "payload_inside (sample_message CHAT alice_says)"
    "msg_payload (sample_message CHAT alice_says) = encode_tlvs alice_says"
    by (rule sample_message_payload [OF len])+
  show "encode_tlvs alice_says = tag TAG_WORLD_BROADCAST # tl (encode_tlvs alice_says)"
    by (simp add: alice_says_def world_tlvs_def encode_tlv_def)
  show "world_of (encode_tlvs alice_says) = Some (str ''mallory'', str ''hi'')"
    unfolding alice_says_def by (subst world_of_encode) (simp_all add: str_def size_defs)
qed

text \<open>The same, sent under her own name.\<close>

definition alice_greets :: "(u8 \<times> bytes) list" where
  "alice_greets = world_tlvs \<lparr>world_sender_username = str ''Alice'', world_message_content = str ''hi''\<rparr>"

lemma alice_greets_facts:
  "payload_inside (sample_message CHAT alice_greets)"
  "msg_payload (sample_message CHAT alice_greets) = encode_tlvs alice_greets"
  "encode_tlvs alice_greets = tag TAG_WORLD_BROADCAST # tl (encode_tlvs alice_greets)"
  "world_of (encode_tlvs alice_greets) = Some (str ''Alice'', str ''hi'')"
proof -
  have len: "length (encode_tlvs alice_greets) < 4294967296"
    by (simp add: alice_greets_def world_tlvs_def encode_tlv_def str_def u8_trunc_def)
  show "payload_inside (sample_message CHAT alice_greets)"
    "msg_payload (sample_message CHAT alice_greets) = encode_tlvs alice_greets"
    by (rule sample_message_payload [OF len])+
  show "encode_tlvs alice_greets = tag TAG_WORLD_BROADCAST # tl (encode_tlvs alice_greets)"
    by (simp add: alice_greets_def world_tlvs_def encode_tlv_def)
  show "world_of (encode_tlvs alice_greets) = Some (str ''Alice'', str ''hi'')"
    unfolding alice_greets_def by (subst world_of_encode) (simp_all add: str_def size_defs)
qed

lemma alice_tells_bob_facts:
  "payload_inside (sample_message CHAT alice_tells_bob)"
  "msg_payload (sample_message CHAT alice_tells_bob) = encode_tlvs alice_tells_bob"
  "encode_tlvs alice_tells_bob = tag TAG_P2P_BROADCAST # tl (encode_tlvs alice_tells_bob)"
  "p2p_of (encode_tlvs alice_tells_bob) = Some (str ''Alice'', str ''bob'', str ''psst'')"
proof -
  have len: "length (encode_tlvs alice_tells_bob) < 4294967296"
    by (simp add: alice_tells_bob_def p2p_tlvs_def encode_tlv_def str_def u8_trunc_def)
  show "payload_inside (sample_message CHAT alice_tells_bob)"
    "msg_payload (sample_message CHAT alice_tells_bob) = encode_tlvs alice_tells_bob"
    by (rule sample_message_payload [OF len])+
  show "encode_tlvs alice_tells_bob = tag TAG_P2P_BROADCAST # tl (encode_tlvs alice_tells_bob)"
    by (simp add: alice_tells_bob_def p2p_tlvs_def encode_tlv_def)
  show "p2p_of (encode_tlvs alice_tells_bob) = Some (str ''Alice'', str ''bob'', str ''psst'')"
    unfolding alice_tells_bob_def by (subst p2p_of_encode) (simp_all add: str_def size_defs)
qed

lemma sample_server_auth:
  "has_flag (flags sample_server ! 0) IS_AUTH" "has_flag (flags sample_server ! 1) IS_AUTH"
  "\<not> has_flag (flags sample_server ! 2) IS_AUTH"
  by (simp_all add: flag_simps)

text \<open>A kernel that lets a new connection in, and the state of the server after it did.\<close>

definition admitted :: admission where
  "admitted = \<lparr>getfl_rc = 2, setfl_rc = 0, ctl_rc = 0\<rparr>"

lemma sample_reachable:
  "\<exists>st. reachable list_sqlite d ([7], st) \<and> add_connection 7 admitted (initial_server d) = Some (Running st) \<and>
     epoll st 7 = Some EPOLLIN_ET \<and> 7 < get_size st \<and> flags st ! 7 = flag_or IS_ACTIVE WANT_READ \<and>
     get_size st = INITIAL_CAPACITY"
proof -
  obtain r where r: "add_connection 7 admitted (initial_server d) = Some r"
    using add_connection_total by blast
  then obtain st where st: "r = Running st"
    by (auto simp: add_connection_def admitted_def set_nonblocking_fd_def bind_eq_Some_conv Let_def)
  have ok: "ctl_rc admitted \<noteq> -1" by (simp add: admitted_def)
  note slot = add_connection_slot [OF r [unfolded st] ok]
  have "possible [] (initial_server d) (Listen_Ready False [(7, admitted)] Accept_Would_Block)"
    by simp
  moreover have "handle_event list_sqlite (Listen_Ready False [(7, admitted)] Accept_Would_Block)
      (initial_server d) = Some (Running st)"
    using r st by simp
  ultimately have "server_step list_sqlite ([], initial_server d) ([] @ [7], st)"
    using server_step.event [of "[]" "initial_server d"] by fastforce
  from reachable.step [OF reachable.start this] have "reachable list_sqlite d ([7], st)" by simp
  moreover have "get_size st = INITIAL_CAPACITY"
    using slot(1) by (simp add: get_size_def initial_server_fields INITIAL_CAPACITY_def)
  ultimately show ?thesis using r st slot(1,2,4) by auto
qed

text \<open>The new connection is idle: nothing received, nothing to send.\<close>

lemma sample_new_connection:
  "\<exists>st. reachable list_sqlite sample_users ([7], st) \<and> server_inv list_sqlite (\<lambda>d. d) [7] st \<and>
     epoll st 7 = Some EPOLLIN_ET \<and> 7 < get_size st \<and> flags st ! 7 = flag_or IS_ACTIVE WANT_READ \<and>
     incoming_buffers st ! 7 = [] \<and> outgoing_buffers st ! 7 = [] \<and> db st = sample_users"
proof -
  obtain st where r: "reachable list_sqlite sample_users ([7], st)"
    and add: "add_connection 7 admitted (initial_server sample_users) = Some (Running st)"
    and ep: "epoll st 7 = Some EPOLLIN_ET" and fd: "7 < get_size st"
    and fl: "flags st ! 7 = flag_or IS_ACTIVE WANT_READ"
    using sample_reachable by blast
  have sz: "same_sizes (initial_server sample_users)"
    using initial_server_inv [of sample_users] by (simp add: table_inv_def)
  have "incoming_buffers st ! 7 = []" "outgoing_buffers st ! 7 = []"
    using add_connection_buffers [OF add sz fd] by (simp_all add: initial_server_fields get_size_def)
  moreover have "db st = sample_users"
    using add_connection_slot(6) [OF add] by (simp add: initial_server_fields admitted_def)
  ultimately show ?thesis using r ep fd fl reachable_inv [OF r sample_db_ok] by auto
qed

text \<open>Alice's login request, and a run of the server in which she is logged in on connection 7.\<close>

definition alice_logs_in :: frame where
  "alice_logs_in = request_frame LOGIN (credential_tlvs (str ''ALICE'') (str ''pw''))"

lemma alice_verdict:
  "login_verdict (account (\<lambda>d. d) sample_users) (f_payload alice_logs_in) =
     Inr \<lparr>user_id = 1, username = str ''Alice'', password = str ''pw''\<rparr>"
proof -
  have "credentials_of (f_payload alice_logs_in) = Some (str ''ALICE'', str ''pw'')"
    by (simp add: alice_logs_in_def request_frame_def credentials_of_encode str_def size_defs)
  then show ?thesis
    by (simp add: login_verdict_def account_def sample_users_def account_key_def str_def
        string_to_lower_def tolower_def)
qed

lemma sample_logged_in:
  "\<exists>st. reachable list_sqlite sample_users ([7], st) \<and> 7 < get_size st \<and>
     has_flag (flags st ! 7) IS_AUTH \<and> usernames st ! 7 = str ''Alice'' \<and> epoll st 7 = Some EPOLLOUT_ET \<and>
     outgoing_buffers st ! 7 = encode_frame (request_frame LOGIN
       (user_tlvs \<lparr>user_id = 1, username = str ''Alice'', password = str ''pw''\<rparr>))"
proof -
  obtain st where r: "reachable list_sqlite sample_users ([7], st)" and inv: "server_inv list_sqlite (\<lambda>d. d) [7] st"
    and ep: "epoll st 7 = Some EPOLLIN_ET" and fd: "7 < get_size st"
    and fl: "flags st ! 7 = flag_or IS_ACTIVE WANT_READ"
    and inc: "incoming_buffers st ! 7 = []" and out: "outgoing_buffers st ! 7 = []" and db: "db st = sample_users"
    using sample_new_connection by blast
  have f: "encode_frame alice_logs_in = encode_frame \<lparr>f_version = 1, f_type = mtype LOGIN, f_rc = 0,
      f_payload = f_payload alice_logs_in\<rparr>"
    by (simp add: alice_logs_in_def request_frame_def)
  have pl: "f_payload alice_logs_in \<noteq> []" "length (f_payload alice_logs_in) \<le> MSG_MAX_PAYLOAD_SIZE"
    by (simp_all add: alice_logs_in_def request_frame_def credential_tlvs_def encode_tlv_def str_def
        MSG_MAX_PAYLOAD_SIZE_def)
  have v: "login_verdict (account (\<lambda>d. d) (db st)) (f_payload alice_logs_in) =
      Inr \<lparr>user_id = 1, username = str ''Alice'', password = str ''pw''\<rparr>"
    using alice_verdict by (simp add: db)
  let ?ev = "Conn_Ready 7 False [encode_frame alice_logs_in] Read_Would_Block [] Write_Would_Block"
  have one: "concat [encode_frame alice_logs_in] = encode_frame \<lparr>f_version = 1, f_type = mtype LOGIN,
      f_rc = 0, f_payload = f_payload alice_logs_in\<rparr>"
    by (simp only: concat.simps append_Nil2 f)
  obtain st' where st': "handle_event list_sqlite ?ev st = Some (Running st')"
    "has_flag (flags st' ! 7) IS_AUTH" "usernames st' ! 7 = str ''Alice''" "7 < get_size st'"
    "has_flag (flags st' ! 7) WANT_WRITE" "outgoing_buffers st' ! 7 = encode_frame (request_frame LOGIN
       (user_tlvs \<lparr>user_id = 1, username = str ''Alice'', password = str ''pw''\<rparr>))"
    using out login_event [OF inv fd _ _ _ inc one pl v] by (auto simp: fl flag_simps simp del: handle_event.simps)
  have "server_step list_sqlite ([7], st) ([7] @ event_fds ?ev, st')"
    using ep st'(1) by (intro server_step.event) simp_all
  from reachable.step [OF r this] have r': "reachable list_sqlite sample_users ([7], st')" by simp
  then have "table_inv st'"
    using reachable_inv [OF r' sample_db_ok] by (simp add: server_inv_def core_def)
  from table_inv_slot [OF this st'(4)] st'(5) have "epoll st' 7 = Some EPOLLOUT_ET" by (auto simp: slot_ok_def)
  with r' st'(2-4,6) show ?thesis by blast
qed

text \<open>The same login, only as far as the read of its event.\<close>

lemma sample_login_read:
  "\<exists>st st1. reachable list_sqlite sample_users ([7], st) \<and> epoll st 7 = Some EPOLLIN_ET \<and>
     has_flag (flags st ! 7) WANT_READ \<and>
     handle_read_connection list_sqlite 7 [encode_frame alice_logs_in] Read_Would_Block st = Some st1 \<and>
     has_flag (flags st1 ! 7) WANT_WRITE \<and> 7 < length (outgoing_buffers st1 ! 7)"
proof -
  obtain st where r: "reachable list_sqlite sample_users ([7], st)" and inv: "server_inv list_sqlite (\<lambda>d. d) [7] st"
    and ep: "epoll st 7 = Some EPOLLIN_ET" and fd: "7 < get_size st"
    and fl: "flags st ! 7 = flag_or IS_ACTIVE WANT_READ"
    and inc: "incoming_buffers st ! 7 = []" and db: "db st = sample_users"
    using sample_new_connection by blast
  let ?a = "\<lparr>user_id = 1, username = str ''Alice'', password = str ''pw''\<rparr>"
  let ?f = "request_frame LOGIN (user_tlvs ?a)"
  have core: "core list_sqlite (\<lambda>d. d) [7] st" using inv by (simp add: server_inv_def)
  have req: "frame_ok alice_logs_in" "f_payload alice_logs_in \<noteq> []" "f_type alice_logs_in = mtype LOGIN"
    unfolding alice_logs_in_def
    by (rule request_frame_ok, rule credential_tlvs_short) (simp_all add: request_frame_def credential_tlvs_nonempty str_def size_defs)
  have eff: "request_effect list_sqlite (\<lambda>d. d) 7 (f_type alice_logs_in) (f_payload alice_logs_in) st =
      (?f, authenticate 7 ?a st)"
    using alice_verdict by (simp add: db req(3) request_effect_def login_effect_def verdict_frame_def)
  have "handle_read_connection list_sqlite 7 [encode_frame alice_logs_in] Read_Would_Block st =
      Some (mark 7 WRITING (queue 7 [] (encode_frame ?f) (authenticate 7 ?a st)))"
    using request_served [OF coreD(2) [OF core] fd coreD(3) [OF core] inc req(1,2) _ eff] by simp
  moreover have "same_sizes (authenticate 7 ?a st)" "7 < get_size (authenticate 7 ?a st)"
    using keptD [OF kept_authenticate [of st 7 ?a]] coreD(2) [OF core] fd by simp_all
  then have "has_flag (flags (mark 7 WRITING (queue 7 [] (encode_frame ?f) (authenticate 7 ?a st))) ! 7) WANT_WRITE"
    "7 < length (outgoing_buffers (mark 7 WRITING (queue 7 [] (encode_frame ?f) (authenticate 7 ?a st))) ! 7)"
    by (simp_all add: table_simps flag_simps length_encode_frame request_frame_def user_tlvs_def)
  ultimately show ?thesis using r ep fl by (auto simp: flag_simps)
qed

text \<open>A server and its sockets when its one connection has just been accepted, and one more turn of it.\<close>

definition connected :: "(nat \<Rightarrow> bytes) \<Rightarrow> user_row list server \<Rightarrow> bool" where
  "connected received st \<longleftrightarrow> world list_sqlite sample_users (fresh_sockets, received, [7], st) \<and> 7 < get_size st \<and>
     epoll st 7 = Some EPOLLIN_ET \<and> flags st ! 7 = flag_or IS_ACTIVE WANT_READ \<and>
     (\<forall>i < get_size st. i \<noteq> 7 \<longrightarrow> flags st ! i = NONE) \<and> incoming_buffers st ! 7 = [] \<and>
     outgoing_buffers st ! 7 = [] \<and> wire st 7 = [] \<and> db st = sample_users"

lemma not_ready_fresh [simp]: "\<not> ready fresh_sockets st i"
  by (simp add: ready_def fresh_sockets_def split: option.split interest.split)

lemma notified_fresh [simp]: "notified st st' fresh_sockets = fresh_sockets"
  by (simp add: notified_def)

lemma sample_connected: "\<exists>received st. connected received st"
proof -
  let ?init = "initial_server sample_users" and ?ev = "Listen_Ready False [(7, admitted)] Accept_Would_Block"
  obtain st where add: "add_connection 7 admitted ?init = Some (Running st)"
    and st: "epoll st 7 = Some EPOLLIN_ET" "7 < get_size st" "flags st ! 7 = flag_or IS_ACTIVE WANT_READ"
    using sample_reachable by blast
  have ok: "ctl_rc admitted \<noteq> -1" by (simp add: admitted_def)
  have sz: "same_sizes ?init" using initial_server_inv [of sample_users] by (simp add: table_inv_def)
  note slot = add_connection_slot [OF add ok]
  have "flags st ! i = NONE" if "i < get_size st" "i \<noteq> 7" for i
    using slot(3) [OF that] by (simp add: initial_server_fields get_size_def)
  moreover have "incoming_buffers st ! 7 = []" "outgoing_buffers st ! 7 = []" "wire st 7 = []" "db st = sample_users"
    using add_connection_buffers [OF add sz st(2)] slot(5,6) by (simp_all add: initial_server_fields get_size_def)
  moreover have "world_step list_sqlite (fresh_sockets, \<lambda>_. [], [], ?init)
      (notified ?init st fresh_sockets, \<lambda>_. [], [] @ event_fds ?ev, st)"
    by (rule world_step.other) (simp_all add: add)
  then have "world list_sqlite sample_users (fresh_sockets, \<lambda>_. [], [7], st)" by (simp add: world_def)
  ultimately show ?thesis using st unfolding connected_def by blast
qed

text \<open>Bytes arrive for it.\<close>

definition arrived :: "bytes \<Rightarrow> sockets" where
  "arrived bs = fresh_sockets\<lparr>pending := (pending fresh_sockets)(7 := pending fresh_sockets 7 @ bs),
     waiting := waiting fresh_sockets \<union> {7}\<rparr>"

lemma arrived_fields [simp]:
  "pending (arrived bs) 7 = bs" "waiting (arrived bs) = {7}" "\<not> hung (arrived bs) i" "space (arrived bs) i = 0"
  by (simp_all add: arrived_def fresh_sockets_def)

lemma connected_arrives:
  assumes "connected received st" "bs \<noteq> []"
  shows "world list_sqlite sample_users (arrived bs, received, [7], st)"
proof -
  have st: "world list_sqlite sample_users (fresh_sockets, received, [7], st)" "epoll st 7 = Some EPOLLIN_ET"
    using assms(1) by (simp_all add: connected_def)
  have "\<not> hung fresh_sockets 7" by (simp add: fresh_sockets_def)
  from socket_event.arrives [OF assms(2) this, of st] st(2) have "socket_event st fresh_sockets (arrived bs)"
    by (simp add: arrived_def)
  with st(1) show ?thesis unfolding world_def by (blast intro: rtranclp.rtrancl_into_rtrancl world_step.outside)
qed

lemma connected_turn:
  assumes "connected received st" "list_all frame_ok fs" "fs \<noteq> []" "f_payload (last fs) \<noteq> []"
    and "run_requests list_sqlite (\<lambda>d. d) 7 (map request_of fs) st = (gs, st1)" "\<not> has_flag (flags st1 ! 7) WANT_CLOSE"
  shows "world list_sqlite sample_users (fresh_sockets, received(7 := received 7 @ encode_frames fs), [7],
    mark 7 WRITING (queue 7 [] (encode_frames gs) st1))"
proof -
  have st: "7 < get_size st" "epoll st 7 = Some EPOLLIN_ET"
    "flags st ! 7 = flag_or IS_ACTIVE WANT_READ" "incoming_buffers st ! 7 = []"
    using assms(1) by (simp_all add: connected_def)
  have ne: "encode_frames fs \<noteq> []" using assms(3) by (cases fs) (simp_all add: encode_frame_def)
  note w = connected_arrives [OF assms(1) ne]
  note inv = world_inv [OF w sample_db_ok]
  let ?ev = "Conn_Ready 7 False [encode_frames fs] Read_Would_Block [] Write_Would_Block"
  let ?st = "mark 7 WRITING (queue 7 [] (encode_frames gs) st1)"
  let ?k = "notified st ?st (consumed 7 st ?st (arrived (encode_frames fs)))"
  have ev: "handle_event list_sqlite ?ev st = Some (Running ?st)"
    by (rule frames_event [OF inv st(1) _ _ st(4) assms(2-4) _ assms(5,6)]) (simp_all add: st(3) flag_simps)
  have "turn list_sqlite (arrived (encode_frames fs), received, [7], st) (?k, hear ?ev st received, [7], ?st)"
    by (rule turn.serve) (use ev st(2) in simp_all)
  moreover have "consumed 7 st ?st (arrived (encode_frames fs)) = fresh_sockets"
    using st(3) by (simp add: consumed_def arrived_def fresh_sockets_def flag_simps fun_eq_iff)
  then have "?k = fresh_sockets" by (simp only: notified_fresh)
  moreover have "hear ?ev st received = received(7 := received 7 @ encode_frames fs)" using st(3) by (simp add: flag_simps)
  ultimately have "turn list_sqlite (arrived (encode_frames fs), received, [7], st)
      (fresh_sockets, received(7 := received 7 @ encode_frames fs), [7], ?st)" by (simp only:)
  with w show ?thesis unfolding world_def by (blast intro: rtranclp.rtrancl_into_rtrancl world_step.serves)
qed

text \<open>Space appears for its output.\<close>

lemma written_turn:
  assumes "world list_sqlite sample_users (fresh_sockets, received, [7], st)" "epoll st 7 = Some EPOLLOUT_ET"
  defines "out \<equiv> outgoing_buffers st ! 7"
  shows "\<exists>k. world list_sqlite sample_users (k, received, [7], mark 7 READING (transmit 7 out [] st)) \<and>
    waiting k = {} \<and> space k 7 = 1"
proof -
  define n where "n = length out + 1"
  define k where "k = fresh_sockets\<lparr>space := (space fresh_sockets)(7 := space fresh_sockets 7 + n),
    waiting := waiting fresh_sockets \<union> {j. j = 7 \<and> epoll st 7 = Some EPOLLOUT_ET}\<rparr>"
  have k: "waiting k = {7}" "space k 7 = n" "pending k = (\<lambda>_. [])" "hung k = (\<lambda>_. False)"
    using assms(2) by (auto simp: k_def fresh_sockets_def)
  have "socket_event st fresh_sockets k"
    unfolding k_def by (rule socket_event.sends) (simp add: n_def)
  with assms(1) have w: "world list_sqlite sample_users (k, received, [7], st)"
    unfolding world_def by (blast intro: rtranclp.rtrancl_into_rtrancl world_step.outside)
  note inv = world_inv [OF w sample_db_ok]
  have reg: "epoll st 7 \<noteq> None" using assms(2) by simp
  note slot = registered_slot [OF inv reg]
  let ?ev = "Conn_Ready 7 False [] Read_Would_Block [n] Write_Would_Block"
  let ?st = "mark 7 READING (transmit 7 out [] st)"
  let ?k = "notified st ?st (consumed 7 st ?st k)"
  have "drain [n] out = (out, [], True)" by (simp add: n_def)
  then have ev: "handle_event list_sqlite ?ev st = Some (Running ?st)"
    using writing_event [OF inv assms(2), of False "[]" Read_Would_Block "[n]" Write_Would_Block out "[]" True]
    by (simp add: n_def out_def)
  have reading: "\<not> has_flag (flags st ! 7) WANT_READ" using slot(4) assms(2) by simp
  have "turn list_sqlite (k, received, [7], st) (?k, hear ?ev st received, [7], ?st)"
    by (rule turn.serve) (use ev assms(2) k in simp_all)
  moreover have "hear ?ev st received = received" using reading by simp
  ultimately have "turn list_sqlite (k, received, [7], st) (?k, received, [7], ?st)" by (simp only:)
  with w have "world list_sqlite sample_users (?k, received, [7], ?st)"
    unfolding world_def by (blast intro: rtranclp.rtrancl_into_rtrancl world_step.serves)
  moreover have "wire ?st 7 = wire st 7 @ out" "epoll ?st = (epoll st)(7 := Some EPOLLIN_ET)"
    using assms(2) by (simp_all add: table_simps epoll_mod_def)
  then have "waiting ?k = {}" "space ?k 7 = 1"
    using k reading by (auto simp: notified_def consumed_def ready_def n_def)
  ultimately show ?thesis by blast
qed

lemma connected_serves:
  assumes "connected received st" "list_all frame_ok fs" "fs \<noteq> []" "f_payload (last fs) \<noteq> []"
    and "run_requests list_sqlite (\<lambda>d. d) 7 (map request_of fs) st = (gs, st1)" "\<not> has_flag (flags st1 ! 7) WANT_CLOSE"
  shows "heard list_sqlite sample_users (received(7 := received 7 @ encode_frames fs)) [7]
    (mark 7 WRITING (queue 7 [] (encode_frames gs) st1))"
  by (rule world_heard [OF connected_turn [OF assms]])

text \<open>Alice logs in and, with the same bytes, greets everyone; the name her client claims is not hers.\<close>

definition alice_account_row :: user_t where
  "alice_account_row = \<lparr>user_id = 1, username = str ''Alice'', password = str ''pw''\<rparr>"

lemma alice_served:
  assumes "connected received st"
  defines "st1 \<equiv> authenticate 7 alice_account_row st"
  shows "run_requests list_sqlite (\<lambda>d. d) 7 (map request_of [alice_logs_in, request_frame CHAT alice_says]) st =
      ([request_frame LOGIN (user_tlvs alice_account_row), chat_frame (str ''Alice'') None (str ''hi'')], st1)"
    and "get_size st1 = get_size st" "usernames st1 ! 7 = str ''Alice''"
    and "flags st1 ! 7 = flag_or_assign (flag_or IS_ACTIVE WANT_READ) IS_AUTH" "same_sizes st1"
    and "outgoing_buffers st1 = outgoing_buffers st" "wire st1 = wire st"
proof -
  from assms(1) have c: "7 < get_size st" "flags st ! 7 = flag_or IS_ACTIVE WANT_READ" "db st = sample_users"
    "\<And>i. i < get_size st \<Longrightarrow> i \<noteq> 7 \<Longrightarrow> flags st ! i = NONE"
    and "server_inv list_sqlite (\<lambda>d. d) [7] st" using world_inv [OF _ sample_db_ok] by (auto simp: connected_def)
  then have "same_sizes st" by (auto simp: server_inv_def dest: coreD)
  with c(1,2) show st1: "get_size st1 = get_size st" "usernames st1 ! 7 = str ''Alice''"
    "flags st1 ! 7 = flag_or_assign (flag_or IS_ACTIVE WANT_READ) IS_AUTH" "same_sizes st1"
    "outgoing_buffers st1 = outgoing_buffers st" "wire st1 = wire st"
    by (simp_all add: st1_def alice_account_row_def authenticate_def same_sizes_def get_size_def)
  have "\<not> other_authenticated 7 st1 i" for i
  proof
    assume "other_authenticated 7 st1 i"
    then have i: "i < get_size st" "i \<noteq> 7" "has_flag (flags st1 ! i) IS_AUTH"
      using st1(1) by (simp_all add: other_authenticated_def)
    with c(4) [OF i(1,2)] show False by (simp add: st1_def authenticate_def)
  qed
  then have alone: "other_authenticated 7 st1 = (\<lambda>_. False)" by (simp add: fun_eq_iff)
  have "request_effect list_sqlite (\<lambda>d. d) 7 (mtype LOGIN) (f_payload alice_logs_in) st =
      (request_frame LOGIN (user_tlvs alice_account_row), st1)"
    using alice_verdict by (simp add: request_effect_def login_effect_def c(3) verdict_frame_def st1_def alice_account_row_def)
  moreover obtain xs where xs: "encode_tlvs alice_says = tag TAG_WORLD_BROADCAST # xs" by (metis alice_says_facts(3))
  have "broadcast_verdict 7 (encode_tlvs alice_says) st1 = Inr (chat_frame (str ''Alice'') None (str ''hi''), \<lambda>_. False)"
    using alice_says_facts(4) st1(2,3) alone unfolding xs by (simp add: broadcast_verdict_def flag_simps str_def)
  then have "request_effect list_sqlite (\<lambda>d. d) 7 (mtype CHAT) (encode_tlvs alice_says) st1 =
      (chat_frame (str ''Alice'') None (str ''hi''), st1)"
    by (simp add: request_effect_def broadcast_frame_def broadcast_effect_def deliver_none [OF st1(4)])
  ultimately show "run_requests list_sqlite (\<lambda>d. d) 7 (map request_of [alice_logs_in, request_frame CHAT alice_says]) st =
      ([request_frame LOGIN (user_tlvs alice_account_row), chat_frame (str ''Alice'') None (str ''hi'')], st1)"
    by (simp add: request_of_def alice_logs_in_def request_frame_def del: mtype.simps)
qed

lemma alice_frames:
  "list_all frame_ok [alice_logs_in, request_frame CHAT alice_says]"
  "f_payload (last [alice_logs_in, request_frame CHAT alice_says]) \<noteq> []"
  by (simp_all add: alice_logs_in_def request_frame_def credential_tlvs_def encode_tlv_def str_def
      MSG_MAX_PAYLOAD_SIZE_def frame_ok_def alice_says_def world_tlvs_def u8_trunc_def)

lemma sample_chatting:
  "\<exists>received st. heard list_sqlite sample_users received [7] st \<and> 7 < get_size st \<and>
     has_flag (flags st ! 7) IS_ACTIVE \<and> has_flag (flags st ! 7) IS_AUTH \<and> usernames st ! 7 = str ''Alice'' \<and>
     wire st 7 @ outgoing_buffers st ! 7 = encode_frames [request_frame LOGIN
       (user_tlvs \<lparr>user_id = 1, username = str ''Alice'', password = str ''pw''\<rparr>),
       chat_frame (str ''Alice'') None (str ''hi'')]"
proof -
  let ?fs = "[alice_logs_in, request_frame CHAT alice_says]"
  let ?gs = "[request_frame LOGIN (user_tlvs alice_account_row), chat_frame (str ''Alice'') None (str ''hi'')]"
  obtain received st where con: "connected received st" using sample_connected by blast
  then have c: "7 < get_size st" "outgoing_buffers st ! 7 = []" "wire st 7 = []" by (auto simp: connected_def)
  note st1 = alice_served [OF con]
  have fs: "list_all frame_ok ?fs" "f_payload (last ?fs) \<noteq> []" by (rule alice_frames)+
  let ?st = "mark 7 WRITING (queue 7 [] (encode_frames ?gs) (authenticate 7 alice_account_row st))"
  have "heard list_sqlite sample_users (received(7 := received 7 @ encode_frames ?fs)) [7] ?st"
    by (rule connected_serves [OF con fs(1) _ fs(2) st1(1)]) (simp_all add: st1 flag_simps)
  moreover have "7 < get_size ?st" "has_flag (flags ?st ! 7) IS_AUTH" "has_flag (flags ?st ! 7) IS_ACTIVE"
    "usernames ?st ! 7 = str ''Alice''" "wire ?st 7 @ outgoing_buffers ?st ! 7 = encode_frames ?gs"
    using c st1(2-) by (simp_all add: table_simps flag_simps)
  ultimately show ?thesis unfolding alice_account_row_def by blast
qed

text \<open>The same run, up to the moment when nothing is left to do.\<close>

lemma sample_idle:
  "\<exists>k received st. world list_sqlite sample_users (k, received, [7], st) \<and> waiting k = {} \<and> 0 < space k 7 \<and>
     7 < get_size st \<and> has_flag (flags st ! 7) IS_ACTIVE \<and> wire st 7 = encode_frames [request_frame LOGIN
       (user_tlvs \<lparr>user_id = 1, username = str ''Alice'', password = str ''pw''\<rparr>),
       chat_frame (str ''Alice'') None (str ''hi'')]"
proof -
  let ?fs = "[alice_logs_in, request_frame CHAT alice_says]"
  let ?gs = "[request_frame LOGIN (user_tlvs alice_account_row), chat_frame (str ''Alice'') None (str ''hi'')]"
  obtain received st where con: "connected received st" using sample_connected by blast
  then have c: "7 < get_size st" "outgoing_buffers st ! 7 = []" "wire st 7 = []" "epoll st 7 = Some EPOLLIN_ET"
    by (auto simp: connected_def)
  note st1 = alice_served [OF con]
  let ?st1 = "authenticate 7 alice_account_row st"
  let ?st = "mark 7 WRITING (queue 7 [] (encode_frames ?gs) ?st1)"
  have fs: "list_all frame_ok ?fs" "f_payload (last ?fs) \<noteq> []" by (rule alice_frames)+
  have w: "world list_sqlite sample_users (fresh_sockets, received(7 := received 7 @ encode_frames ?fs), [7], ?st)"
    by (rule connected_turn [OF con fs(1) _ fs(2) st1(1)]) (simp_all add: st1 flag_simps)
  have st: "7 < get_size ?st" "has_flag (flags ?st ! 7) IS_ACTIVE" "same_sizes ?st"
    "wire ?st 7 = []" "outgoing_buffers ?st ! 7 = encode_frames ?gs" "epoll ?st 7 = Some EPOLLOUT_ET"
    using c st1(2-) by (simp_all add: table_simps flag_simps authenticate_def epoll_mod_def)
  from written_turn [OF w st(6)] obtain k where
    "world list_sqlite sample_users (k, received(7 := received 7 @ encode_frames ?fs), [7],
       mark 7 READING (transmit 7 (encode_frames ?gs) [] ?st))" "waiting k = {}" "space k 7 = 1"
    unfolding st(5) by blast
  moreover have "7 < get_size (mark 7 READING (transmit 7 (encode_frames ?gs) [] ?st))"
    "has_flag (flags (mark 7 READING (transmit 7 (encode_frames ?gs) [] ?st)) ! 7) IS_ACTIVE"
    "wire (mark 7 READING (transmit 7 (encode_frames ?gs) [] ?st)) 7 = encode_frames ?gs"
    using st by (simp_all add: table_simps flag_simps)
  ultimately show ?thesis unfolding alice_account_row_def by (metis zero_less_one)
qed

text \<open>Somebody registers a name that is free.\<close>

lemma sample_registering:
  "\<exists>received st a. heard list_sqlite sample_users received [7] st \<and>
     account (\<lambda>d. d) (db st) (str ''carol'') = Some a \<and> account (\<lambda>d. d) sample_users (str ''carol'') = None"
proof -
  let ?f = "request_frame REGISTER (credential_tlvs (str ''carol'') (str ''x''))"
  obtain received st where con: "connected received st" using sample_connected by blast
  then have c: "flags st ! 7 = flag_or IS_ACTIVE WANT_READ" "db st = sample_users" by (simp_all add: connected_def)
  obtain g st1 where e: "request_effect list_sqlite (\<lambda>d. d) 7 (f_type ?f) (f_payload ?f) st = (g, st1)"
    by (rule prod.exhaust)
  have cr: "credentials_of (f_payload ?f) = Some (str ''carol'', str ''x'')"
    unfolding request_frame_def by simp (rule credentials_of_encode; simp add: str_def size_defs)
  have free: "account (\<lambda>d. d) sample_users (str ''carol'') = None" "account_key (str ''carol'') = str ''carol''"
    by (simp_all add: account_def sample_users_def account_key_def str_def string_to_lower_def tolower_def)
  have eff: "register_effect list_sqlite (\<lambda>d. d) (f_payload ?f) st = (g, st1)"
    using e by (simp add: request_effect_def request_frame_def)
  have "register_verdict (account (\<lambda>d. d) (db st)) (f_payload ?f) = Inr (str ''carol'', str ''x'')"
    by (simp add: register_verdict_def cr c(2) free)
  moreover have "str ''carol'' \<notin> set (map (fst \<circ> snd) sample_users)" by (simp add: sample_users_def str_def)
  moreover have "c_str (str ''carol'') = str ''carol''" by (simp add: str_def)
  ultimately have st1: "flags st1 = flags st" "db st1 = sample_users @ [(3, str ''carol'', c_str (str ''x''))]"
    using eff by (auto simp: register_effect_def insert_user_def list_sqlite_def c(2) sample_users_def)
  obtain a where a: "account (\<lambda>d. d) (db st1) (str ''carol'') = Some a"
    by (simp add: st1(2) account_def sample_users_def str_def string_to_lower_def tolower_def)
  have f: "list_all frame_ok [?f]" "f_payload (last [?f]) \<noteq> []"
    by (simp_all add: request_frame_def credential_tlvs_def encode_tlv_def str_def frame_ok_def MSG_MAX_PAYLOAD_SIZE_def u8_trunc_def)
  have "run_requests list_sqlite (\<lambda>d. d) 7 (map request_of [?f]) st = ([g], st1)"
    using e by (simp add: request_of_def)
  from connected_serves [OF con f(1) _ f(2) this] st1(1) c(1) have
    "heard list_sqlite sample_users (received(7 := received 7 @ encode_frames [?f])) [7]
      (mark 7 WRITING (queue 7 [] (encode_frames [g]) st1))" by (simp add: flag_simps)
  moreover have "db (mark 7 WRITING (queue 7 [] (encode_frames [g]) st1)) = db st1" by (simp add: table_simps)
  ultimately show ?thesis using a free(1) by metis
qed

text \<open>Registrations that succeed on the sample server.\<close>

lemma sample_credentials:
  assumes "length u \<le> MAX_USERNAME_SIZE" "length p \<le> MAX_PASSWORD_SIZE"
  shows "payload_inside (sample_message ty (credential_tlvs u p))"
    and "credentials_of (msg_payload (sample_message ty (credential_tlvs u p))) = Some (u, p)"
proof -
  have len: "length (encode_tlvs (credential_tlvs u p)) < 4294967296"
    using assms by (simp add: credential_tlvs_def size_defs)
  show "payload_inside (sample_message ty (credential_tlvs u p))"
    by (rule sample_message_payload(1) [OF len])
  show "credentials_of (msg_payload (sample_message ty (credential_tlvs u p))) = Some (u, p)"
    unfolding sample_message_payload(2) [OF len] by (rule credentials_of_encode [OF assms])
qed

lemma sample_registration:
  assumes "length u \<le> MAX_USERNAME_SIZE" "length p \<le> MAX_PASSWORD_SIZE" "0 \<notin> set u"
    and "account (\<lambda>d. d) sample_users (string_to_lower u) = None"
  shows "\<exists>m st'. register_user list_sqlite (sample_message REGISTER (credential_tlvs u p))
      empty_response sample_server = Some (rcode RESP_OK, m, st')"
proof -
  let ?rq = "sample_message REGISTER (credential_tlvs u p)"
  note rq = sample_credentials [OF assms(1,2), of REGISTER]
  have "register_verdict (account (\<lambda>d. d) sample_users) (msg_payload ?rq) = Inr (u, p)"
    using assms(3,4) by (simp add: register_verdict_def rq(2) account_key_def)
  moreover have "u \<notin> set (map (fst \<circ> snd) sample_users)"
    using assms(4) by (auto simp: account_def sample_users_def split: if_splits)
  ultimately have "f_rc (fst (register_effect list_sqlite (\<lambda>d. d) (msg_payload ?rq) sample_server)) = 0"
    using assms(3) by (simp add: register_effect_def insert_user_def list_sqlite_def request_frame_def)
  with register_user_effect [where sq = list_sqlite and st = sample_server and rows = "\<lambda>d. d",
      OF _ rq(1) empty_response_buffer] sample_db_ok
  show ?thesis by auto
qed

lemma carol_registers:
  "payload_inside (sample_message REGISTER (credential_tlvs (str ''carol'') (str ''x'')))"
  "credentials_of (msg_payload (sample_message REGISTER (credential_tlvs (str ''carol'') (str ''x'')))) =
     Some (str ''carol'', str ''x'')"
  "payload_inside (sample_message REGISTER (credential_tlvs (str ''Carol'') (str ''y'')))"
  "credentials_of (msg_payload (sample_message REGISTER (credential_tlvs (str ''Carol'') (str ''y'')))) =
     Some (str ''Carol'', str ''y'')"
  "payload_inside (sample_message LOGIN (credential_tlvs (str ''CaRoL'') (str ''x'')))"
  "credentials_of (msg_payload (sample_message LOGIN (credential_tlvs (str ''CaRoL'') (str ''x'')))) =
     Some (str ''CaRoL'', str ''x'')"
  by (rule sample_credentials; simp add: str_def size_defs)+

lemma carol_registered:
  "\<exists>m st'. register_user list_sqlite (sample_message REGISTER (credential_tlvs (str ''carol'') (str ''x'')))
      empty_response sample_server = Some (rcode RESP_OK, m, st')"
  by (rule sample_registration)
    (simp_all add: str_def size_defs account_def sample_users_def string_to_lower_def tolower_def)

lemma dave_registers:
  "payload_inside (sample_message REGISTER (credential_tlvs (str ''dave'') [97, 0, 98]))"
  "credentials_of (msg_payload (sample_message REGISTER (credential_tlvs (str ''dave'') [97, 0, 98]))) =
     Some (str ''dave'', [97, 0, 98])"
  "payload_inside (sample_message LOGIN (credential_tlvs (str ''dave'') [97, 0, 98]))"
  "credentials_of (msg_payload (sample_message LOGIN (credential_tlvs (str ''dave'') [97, 0, 98]))) =
     Some (str ''dave'', [97, 0, 98])"
  by (rule sample_credentials; simp add: str_def size_defs)+

lemma dave_registered:
  "\<exists>m st'. register_user list_sqlite (sample_message REGISTER (credential_tlvs (str ''dave'') [97, 0, 98]))
      empty_response sample_server = Some (rcode RESP_OK, m, st')"
  by (rule sample_registration)
    (simp_all add: str_def size_defs account_def sample_users_def string_to_lower_def tolower_def)

text \<open>Two terminals: a visitor, and Alice after her login.\<close>

definition visitor :: client where
  "visitor = \<lparr>c_user = user_blank, c_flags = NONE, c_screen = []\<rparr>"

definition alice_client :: client where
  "alice_client = \<lparr>c_user = \<lparr>user_id = 1, username = str ''Alice'', password = []\<rparr>, c_flags = IS_AUTH,
     c_screen = []\<rparr>"

lemma sample_clients [simp]:
  "c_flags visitor = NONE" "c_flags alice_client = IS_AUTH" "username (c_user alice_client) = str ''Alice''"
  "\<not> has_flag NONE IS_AUTH" "has_flag IS_AUTH IS_AUTH"
  by (simp_all add: visitor_def alice_client_def flag_simps)

lemma alice_account:
  "account (\<lambda>d. d) sample_users (account_key (str ''alice'')) =
    Some \<lparr>user_id = 1, username = str ''Alice'', password = str ''pw''\<rparr>"
  by (simp add: account_def sample_users_def account_key_def str_def string_to_lower_def tolower_def)

text \<open>What the system reports of the memory.\<close>

definition sample_memory :: memory_source where
  "sample_memory = \<lparr>statm = Some (str ''1200 300 5''), page_size = 4096, uordblks = 700, fordblks = 200, arena = 900\<rparr>"

lemma sample_memory_usage:
  "get_memory_usage sample_memory = Some \<lparr>virtual_mem_bytes = 1200 * 4096, physical_ram_bytes = 300 * 4096\<rparr>"
  by (simp add: get_memory_usage_def sample_memory_def extract_long_def scan_int_def skip_ws_def is_space_def
      is_digit_def digits_value_def str_def long_mult_def long_range_def)

text \<open>A client that connects, with what its server sends.\<close>

definition sample_process :: process where
  "sample_process = \<lparr>open_fds = [0, 1, 2], nonblocking = [], listening = [], address_lists = 0, files = [], db_open = False\<rparr>"

definition sample_client :: client_boot where
  "sample_client = \<lparr>sigaction_rc = 0, connection = \<lparr>socket_rc = 3, pton_rc = 1, connect_rc = 0\<rparr>,
     pipe_rc = 0, pipe_fds = (4, 5)\<rparr>"

definition sample_session :: "arrival_event list \<Rightarrow> session" where
  "sample_session inbox = \<lparr>s_conn = client_zero, s_fd = 3, s_inbox = inbox, s_sent = [], s_keep_running = True,
     s_pipe = (4, 5), s_signalled = False, s_thread = Listening, s_main = Testing,
     s_process = acquire 5 (acquire 4 (acquire 3 sample_process))\<rparr>"

definition sample_quitting :: session where
  "sample_quitting = (sample_session [Avail [1]])\<lparr>s_main := Joining, s_signalled := True\<rparr>"

lemma sample_client_main: "client_main sample_client inbox sample_process = Inr (sample_session inbox)"
  by (simp add: client_main_def sample_client_def sample_session_def setup_client_signal_handlers_def
      create_client_connection_def open_session_def)

lemma sample_process_held: "held sample_process = {#0, 1, 2#}"
  by (simp add: held_def sample_process_def)

definition sample_notices :: "notice list" where
  "sample_notices = [World_Notice \<lparr>world_sender_username = str ''Bob'', world_message_content = str ''hi''\<rparr>]"

lemma sample_notices_ok:
  "list_all notice_ok sample_notices" "flowing [Avail (notice_bytes sample_notices)]"
  "notice_bytes sample_notices = encode_frame (notice_frame (hd sample_notices))"
  "notice_ok (hd sample_notices)"
  by (simp_all add: sample_notices_def size_defs str_def flowing_def notice_bytes_def encode_frame_def)

lemma sample_notices_screen:
  "c_screen (fold notice_effect sample_notices client_zero) = [GLOBAL (str ''Bob'') (str ''hi'')]"
  by (simp add: sample_notices_def client_zero_def print_chat_message_def str_def c_str_def)

text \<open>A server that starts.\<close>

definition sample_boot :: boot where
  "sample_boot = \<lparr>listen_part = \<lparr>gai_rc = 0, addresses = [\<lparr>socket_fd = 3, bind_rc = -1, close_rc = 0\<rparr>,
       \<lparr>socket_fd = 3, bind_rc = 0, close_rc = 0\<rparr>], listen_nonblock = admitted, listen_rc = 0\<rparr>,
     epoll_create_rc = 4, ctl_listen_rc = 0, stdin_nonblock = admitted, ctl_stdin_rc = 0\<rparr>"

definition sample_argv :: "bytes list" where
  "sample_argv = [str ''server'', to_string 8080, to_string 0, to_string 1]"

lemma sample_starts:
  "\<exists>p. start_server list_sqlite sample_argv sample_boot sample_process =
     Some (Running ([], \<lparr>ready_listenfd = 3, ready_epollfd = 4, watches_stdin = True, logs = True\<rparr>), p)"
  by (simp add: start_server_def sample_argv_def sample_boot_def atoi_to_string int_range_def init_logger_def
      init_server_def init_db_def list_sqlite_def open_listenfd_def set_nonblocking_fd_def admitted_def Let_def)

end
