(* ===== verification/Spec2Isabelle.thy ===== *)
theory Spec2Isabelle
  imports Samples
begin

text \<open>
  TCP-Chat-Server: a single-threaded chat server on epoll, a TLV wire protocol, a SQLite user
  database, and a terminal client. This library models the program's own code under \<open>src/\<close>
  (paths below are relative to the repository) and proves what it does.

  The program and its model. Clients send frames of a 7-byte header and a payload of tag, length,
  value triples. The server keeps one slot per file descriptor in a table of parallel vectors,
  appends what it reads to the slot's input, cuts complete requests off it, runs them (register,
  log in, broadcast), appends the answers to the slot's output and, for broadcasts, to the output
  of other slots, and writes when epoll says so. The model is one record \<open>server\<close> (the vectors,
  the epoll registrations, the database and what each socket has taken so far), and each function
  of the code that changes state is a function on it. A result \<open>None\<close> means that the code would
  have left its memory there; every other error is a value, as in the code.

  Theories, in the order of the calls.
  \<^item> \<open>Chat_Prelude\<close>: bytes, words, memory accesses, C strings, and the generic lemmas.
  \<^item> \<open>Conn_Flags\<close> (\<open>src/shared.cpp\<close>, \<open>include/shared.hpp\<close>): the flag operators on 8-bit words,
    \<open>string_to_lower\<close>. Lemmas: the operators as operations on sets of flags.
  \<^item> \<open>Byte_Order\<close>, \<open>Message\<close> (\<open>src/protocol.cpp\<close>, \<open>include/protocol.hpp\<close>): byte order, the constants
    and enumerations, \<open>message_t\<close>, buffers, \<open>write_message_to_buffer\<close>, \<open>parse_message\<close>. The
    specification is the record \<open>frame\<close> and its encoding; lemmas relate the code to it both ways.
  \<^item> \<open>Tlv\<close>, \<open>Auth_Protocol\<close>, \<open>Chat_Protocol\<close> (\<open>src/protocol.cpp\<close>): \<open>write_tlv\<close>, the TLV loop with the
    switch of each parser as its argument, and the builders and parsers of the six messages. The
    locales \<open>tlv_switch\<close> and \<open>tlv_fields\<close> hold what one pass of the loop over a payload gives; each parser's
    switch is an interpretation.
  \<^item> \<open>Socket_Io\<close> (\<open>src/protocol.cpp\<close>): \<open>read_one_message\<close> and \<open>write_one_message\<close> against a script
    of what the kernel does.
  \<^item> \<open>User_Db\<close> (\<open>src/db.cpp\<close>): the two queries, with SQLite as a parameter. \<open>sqlite_users\<close> states the
    behaviour of SQLite the code relies on, over a view of the database as a list of rows.
    The locale \<open>user_store\<close> is the interface the services use.
  \<^item> \<open>Signals\<close> (\<open>src/server.cpp\<close>): how a process ends, and the signal dispositions \<open>main\<close> sets.
  \<^item> \<open>Conn_Table\<close> (\<open>src/server_utils.cpp\<close>): the connection table, \<open>set_connection_state\<close>,
    \<open>add_connection\<close>, \<open>remove_connection\<close>, the counting of connections, and the table's invariant.
  \<^item> \<open>Auth_Service\<close>, \<open>Broadcast\<close>, \<open>Requests\<close> (\<open>src/server_utils.cpp\<close>): the request handlers and the
    loop that runs them, each with its abstract specification (verdict, answer, effect on the
    accounts or the table) and the lemma that the code implements it. The locales
    \<open>request_handler\<close> and \<open>request_service\<close> state what the loop needs of every kind of request
    and what a run of them then keeps; they are interpreted on the three services.
  \<^item> \<open>Console\<close>, \<open>Numbers\<close> (\<open>src/shared.cpp\<close>): the standard-input helpers, and decimal numbers as
    \<open>atoi\<close>, \<open>scanf\<close> and streams read them. \<open>get_string_cin\<close> and \<open>get_valid_input_range\<close> are
    partial functions: not returning is the value \<open>None\<close>.
  \<^item> \<open>Server_Admin\<close> (\<open>src/server_utils.cpp\<close>, \<open>src/logger.cpp\<close>): the logger, the \<open>/metrics\<close> command
    and its report. What the system says of the memory is an argument.
  \<^item> \<open>Event_Loop\<close> (\<open>src/server.cpp\<close>, \<open>src/server_utils.cpp\<close>): reading, writing, accepting, and the
    handling of an epoll event. What the kernel does in one wake-up is an argument: the pieces
    \<open>read\<close> returns, the room \<open>write\<close> finds, the descriptors \<open>accept\<close> gives, and how each loop ends.
  \<^item> \<open>Server_Invariant\<close>: the step relation of the server, its reachable states, the invariant and
    its preservation, and \<open>conn_effect\<close>, the functional specification of one event.
  \<^item> \<open>Progress\<close>: the events that drain the output of a connection, with its length as the measure.
  \<^item> \<open>Process\<close>, \<open>Start_Up\<close> (\<open>src/server_utils.cpp\<close>, \<open>src/db.cpp\<close>, \<open>src/server.cpp\<close>): what the operating
    system keeps of a process (the locale \<open>resource_table\<close>), and on it \<open>open_listenfd\<close>, \<open>init_server\<close>,
    \<open>close_db\<close> and the signal handler.
  \<^item> \<open>Server_Main\<close> (\<open>src/server.cpp\<close>): the set-up and the loop of \<open>main\<close>; \<open>feasible\<close> says what
    \<open>epoll_wait\<close> can answer, \<open>explained\<close> what can end a run. Lemmas: handling one descriptor leaves the
    others ready, runs visit reachable states only, and every end is explained.
  \<^item> \<open>Client\<close> (\<open>src/client_utils.cpp\<close>): requests, responses and the command line.
  \<^item> \<open>Client_Session\<close> (\<open>src/client_utils.cpp\<close>, \<open>src/client.cpp\<close>): connecting, the main thread, the
    socket thread and the signal handler as steps on one state \<open>session\<close>; a schedule is a list of
    steps that are enabled one after the other. Lemmas: the invariant under every schedule, how a
    session ends.
  \<^item> \<open>Conversation\<close>, \<open>Compatibility\<close>: client and server together.
  \<^item> \<open>Chat_Room\<close>: the service as one abstract machine. A \<open>room\<close> holds the accounts, who is online on
    which connection, and the frames each connection was told; its steps are a request and a leave.
    Lemmas: who is online has sent the password, where a told chat message comes from, where an
    account comes from.
  \<^item> \<open>Room_Refinement\<close>: the server refines the room. The locale \<open>forward_simulation\<close> lifts a step-wise
    simulation to runs and is interpreted on the steps of the server, paired with the bytes received
    so far (\<open>heard\<close>). \<open>Room_Clients\<close>: what the room tells is what the client can read.
  \<^item> \<open>Wakeups\<close>: the server on its sockets and the edge-triggered epoll instance. \<open>socket_event\<close>, \<open>answered\<close>
    and \<open>notified\<close> state what the kernel does (bytes arrive, a peer hangs up, space appears; what \<open>read\<close> and
    \<open>write\<close> return; when a registration is reported), \<open>turn\<close> is the handling of one reported connection.
    Lemmas: every connection that is ready waits to be served, and (the locale \<open>descent\<close>, with unread
    bytes, writing connections and reports as the rank) serving ends.
  \<^item> \<open>Samples\<close>: concrete databases, servers and messages, and runs of the server on them.
  \<^item> This theory: the properties C1 to C40, and some further ones, each with an instance.

  Bounds. No fuel is used. The loops over input terminate by measures: the length of the payload
  (\<open>tlv_loop\<close>), of the input buffer (\<open>serve_requests\<close>), of the vectors (broadcast loops), of the
  script of the kernel (socket loops). Lengths are kept at the width of the code (8-bit TLV
  lengths, 32-bit payload lengths, casts written out).

  Assumptions. The host is little-endian. Descriptors that \<open>accept\<close> returns are not in use, which
  holds as the server never closes any, and are small enough that the table's size is an \<open>int\<close>;
  \<open>possible\<close> states this, that epoll reports only what is registered, and that the memory figures are in
  the range of their types. The process starts with the default signal dispositions. SQLite keeps
  \<open>sqlite_users\<close>: preparing a statement succeeds, a select finds the first row of the name, an insert
  appends the row or fails. Allocation succeeds. The server's \<open>SIGPIPE\<close> is modelled
  (\<open>Write_Broken_Pipe\<close>, with what it does derived from the dispositions \<open>main\<close> sets); the writes of the
  client find its connection open (\<open>writable\<close>), and its reads, where a property says so, are neither
  interrupted nor failing (\<open>flowing\<close>). When the descriptors run out is not modelled: \<open>accept\<close> may then
  fail, as it may at any time. In \<open>Wakeups\<close> what
  happens at the sockets happens between turns, and connections are hung up by their peers only; a turn
  that ends in \<open>SIGPIPE\<close> ends the server and is no \<open>turn\<close>.

  Not modelled: the text of log lines other than the metrics and of prompts; the address and port
  strings, which only go to the kernel; the interleaving of the client's two threads inside one pass
  of their loops (\<open>command_shell\<close> reads the connection without the mutex, so the code itself has a race
  there); and the tests, load generator and benchmarks under \<open>src/test\<close>.
\<close>

section \<open>The running server\<close>

text \<open>
  (C1) In every reachable state, whatever the kernel reports and the clients send, handling the
  event stays inside the memory of the server (no vector index, \<open>memcpy\<close> or \<open>erase\<close> of the code
  is out of range), with exactly one exception: a read of the console that begins with a NUL, after
  which \<open>handle_server_input\<close> calls \<open>back()\<close> on an empty string. (\<open>possible\<close>: the table and the memory
  figures fit the integer types they are kept in.)
\<close>

theorem server_memory_safe:
  assumes "reachable sq d (used, st)" "db_ok sq rows d" "possible used st ev"
  shows "handle_event sq ev st = None \<longleftrightarrow> nul_read ev"
  using handle_event_total [of sq rows used st ev] reachable_inv [OF assms(1,2)] assms(3) by simp

theorem server_memory_safe_witness:
  "\<exists>used st r. reachable list_sqlite [] (used, st) \<and>
     handle_event list_sqlite (Conn_Ready 7 False [[1, 2], [3]] Read_Would_Block [] Write_Would_Block) st = Some r \<and>
     handle_event list_sqlite (Stdin_Ready False sample_memory [Stdin_Data [0, 10]] Stdin_Would_Block) st = None"
proof -
  obtain st where st: "reachable list_sqlite [] ([7], st)" "epoll st 7 = Some EPOLLIN_ET" "get_size st = INITIAL_CAPACITY"
    using sample_reachable by blast
  have p: "possible [7] st (Conn_Ready 7 False [[1, 2], [3]] Read_Would_Block [] Write_Would_Block)"
    "possible [7] st (Stdin_Ready False sample_memory [Stdin_Data [0, 10]] Stdin_Would_Block)"
    using st(2,3) sample_memory_usage by (simp_all add: INITIAL_CAPACITY_def)
  from server_memory_safe [OF st(1) list_sqlite_ok p(1)] server_memory_safe [OF st(1) list_sqlite_ok p(2)] st(1)
  show ?thesis
    by (auto simp: c_str_def simp del: handle_event.simps)
qed

text \<open>
  (C17) In every reachable state a connection that epoll watches is exactly an active slot of the
  table; it wants exactly one of reading and writing and is registered for exactly that; and an
  authenticated slot is active.
\<close>

theorem table_consistent:
  assumes "reachable sq d (used, st)" "db_ok sq rows d"
  shows "same_sizes st \<and>
    (\<forall>i. epoll st i \<noteq> None \<longleftrightarrow> i < get_size st \<and> has_flag (flags st ! i) IS_ACTIVE) \<and>
    (\<forall>i < get_size st.
       (epoll st i = Some EPOLLIN_ET \<longleftrightarrow> has_flag (flags st ! i) WANT_READ) \<and>
       (epoll st i = Some EPOLLOUT_ET \<longleftrightarrow> has_flag (flags st ! i) WANT_WRITE) \<and>
       (has_flag (flags st ! i) IS_AUTH \<longrightarrow> has_flag (flags st ! i) IS_ACTIVE))"
proof -
  from reachable_inv [OF assms] have inv: "table_inv st" by (simp add: server_inv_def core_def)
  have "(epoll st i \<noteq> None \<longleftrightarrow> has_flag (flags st ! i) IS_ACTIVE) \<and>
      (epoll st i = Some EPOLLIN_ET \<longleftrightarrow> has_flag (flags st ! i) WANT_READ) \<and>
      (epoll st i = Some EPOLLOUT_ET \<longleftrightarrow> has_flag (flags st ! i) WANT_WRITE) \<and>
      (has_flag (flags st ! i) IS_AUTH \<longrightarrow> has_flag (flags st ! i) IS_ACTIVE)"
    if "i < get_size st" for i
    using table_inv_slot [OF inv that] by (auto simp: slot_ok_def)
  with inv table_inv_registered [OF inv] show ?thesis
    unfolding table_inv_def by blast
qed

theorem table_consistent_witness:
  "\<exists>st. reachable list_sqlite [] ([7], st) \<and> same_sizes st \<and> has_flag (flags st ! 7) WANT_READ"
proof -
  obtain st where st: "reachable list_sqlite [] ([7], st)" "epoll st 7 = Some EPOLLIN_ET" "7 < get_size st"
    using sample_reachable by blast
  from table_consistent [OF st(1) list_sqlite_ok] st show ?thesis by auto
qed

text \<open>
  No partial or interleaved output: in every reachable state the bytes written to a
  connection so far, followed by the bytes queued for it, are a sequence of whole frames, each
  with a payload of at most \<open>MSG_MAX_PAYLOAD_SIZE\<close> bytes, however responses and other users'
  broadcasts were interleaved and however \<open>write\<close> split them.
\<close>

theorem output_is_frames:
  assumes "reachable sq d (used, st)" "db_ok sq rows d" "i < get_size st"
  shows "\<exists>fs. list_all frame_ok fs \<and> wire st i @ outgoing_buffers st ! i = encode_frames fs"
  using reachable_inv [OF assms(1,2)] coreD(4) [of sq rows used st i] assms(3)
  by (auto simp: server_inv_def framed_def answers_ok)

theorem output_is_frames_witness:
  "\<exists>fs. list_all frame_ok fs \<and>
     wire (initial_server ([] :: user_row list)) 3 @
       outgoing_buffers (initial_server ([] :: user_row list)) ! 3 = encode_frames fs"
proof (rule output_is_frames [OF reachable.start list_sqlite_ok])
  show "3 < get_size (initial_server [])"
    by (simp add: get_size_def initial_server_fields INITIAL_CAPACITY_def)
qed simp

text \<open>
  Nothing is left waiting: after each event an active connection is not marked for closing,
  its input holds no complete request, and when it has output, epoll watches for the socket to
  become writable.
\<close>

theorem nothing_left_waiting:
  assumes "reachable sq d (used, st)" "db_ok sq rows d"
    and "i < get_size st" "has_flag (flags st ! i) IS_ACTIVE"
  shows "\<not> has_flag (flags st ! i) WANT_CLOSE \<and> next_request (incoming_buffers st ! i) = Incomplete \<and>
    (outgoing_buffers st ! i \<noteq> [] \<longrightarrow> epoll st i = Some EPOLLOUT_ET)"
proof -
  from reachable_inv [OF assms(1,2)] assms(3) have inv: "table_inv st" and "quiet st i"
    by (simp_all add: server_inv_def core_def)
  moreover have "slot_ok (flags st ! i) (epoll st i)" by (rule table_inv_slot [OF inv assms(3)])
  ultimately show ?thesis using assms(4) by (auto simp: quiet_def settled_def slot_ok_def)
qed

theorem nothing_left_waiting_witness:
  "\<exists>st. reachable list_sqlite [] ([7], st) \<and> has_flag (flags st ! 7) IS_ACTIVE \<and>
     \<not> has_flag (flags st ! 7) WANT_CLOSE"
proof -
  obtain st where st: "reachable list_sqlite [] ([7], st)" "7 < get_size st"
      "flags st ! 7 = flag_or IS_ACTIVE WANT_READ"
    using sample_reachable by blast
  have act: "has_flag (flags st ! 7) IS_ACTIVE" by (simp add: st(3) flag_simps)
  from nothing_left_waiting [OF st(1) list_sqlite_ok st(2) act] st(1) act show ?thesis by auto
qed

text \<open>
  In every reachable state an authenticated connection carries the name and the id of an
  account of the database: its table entries are those of the account of its user name.
\<close>

theorem authenticated_has_account:
  assumes "reachable sq d (used, st)" "db_ok sq rows d"
    and "i < get_size st" "has_flag (flags st ! i) IS_AUTH"
  shows "\<exists>a. account rows (db st) (account_key (usernames st ! i)) = Some a \<and>
    username a = usernames st ! i \<and> user_id a = user_ids st ! i"
  using reachable_inv [OF assms(1,2)] coreD(5) [of sq rows used st i] assms(3,4)
  by (simp add: server_inv_def identified_def)

theorem authenticated_has_account_witness:
  "\<exists>st a. reachable list_sqlite sample_users ([7], st) \<and>
     account (\<lambda>d. d) (db st) (account_key (str ''Alice'')) = Some a \<and> username a = str ''Alice''"
proof -
  obtain st where st: "reachable list_sqlite sample_users ([7], st)" "7 < get_size st"
      "has_flag (flags st ! 7) IS_AUTH" "usernames st ! 7 = str ''Alice''"
    using sample_logged_in by blast
  from authenticated_has_account [OF st(1) sample_db_ok st(2,3)] st(1,4) show ?thesis by auto
qed

text \<open>
  (C10) One event of a connection, from the reading of its bytes to the writing of its answers and
  its removal, does exactly what \<open>conn_effect\<close> says; in particular how \<open>read\<close> cut the bytes into
  chunks makes no difference. Only a write on a connection that its peer has closed ends the
  server.
\<close>

theorem connection_event_refines:
  assumes "reachable sq d (used, st)" "db_ok sq rows d" "epoll st fd \<noteq> None"
  shows "handle_event sq (Conn_Ready fd err chunks re rooms we) st =
    Some (if conn_killed sq rows fd (concat chunks) re rooms we st then Exited (Signalled SIGPIPE)
      else Running (conn_effect sq rows fd err (concat chunks) re rooms we st))"
proof -
  from reachable_inv [OF assms(1,2)] have inv: "server_inv sq rows used st" by simp
  then have table: "table_inv st" by (simp add: server_inv_def core_def)
  from table_inv_registered [OF table assms(3)] have fd: "fd < get_size st" .
  with slot_ok_reg [OF table_inv_slot [OF table fd]] assms(3) show ?thesis
    unfolding conn_outcome_def [symmetric] by (intro conn_event(1) [OF inv]) simp_all
qed

theorem connection_event_refines_witness:
  "\<exists>st. reachable list_sqlite sample_users ([7], st) \<and>
     handle_event list_sqlite (Conn_Ready 7 False [[1], [2]] Read_Eof [] Write_Error) st =
     Some (Running (conn_effect list_sqlite (\<lambda>d. d) 7 False [1, 2] Read_Eof [] Write_Error st))"
proof -
  obtain st where st: "reachable list_sqlite sample_users ([7], st)" "epoll st 7 = Some EPOLLIN_ET"
    using sample_reachable by blast
  from connection_event_refines [OF st(1) sample_db_ok, of 7 False "[[1], [2]]" Read_Eof "[]" Write_Error] st
  show ?thesis by (auto simp: conn_killed_def pipe_breaks_def Let_def simp del: handle_event.simps)
qed

text \<open>
  A newly accepted connection starts clean: active, reading, unauthenticated, watched for
  input, and with nothing in either buffer, so nothing of an earlier connection can reach it.
\<close>

theorem new_connection_is_clean:
  assumes "reachable sq d (used, st)" "db_ok sq rows d" "fd \<notin> set used"
    and "add_connection fd k st = Some (Running st')" "ctl_rc k \<noteq> -1"
  shows "fd < get_size st' \<and> flags st' ! fd = flag_or IS_ACTIVE WANT_READ \<and>
    \<not> has_flag (flags st' ! fd) IS_AUTH \<and> epoll st' fd = Some EPOLLIN_ET \<and>
    incoming_buffers st' ! fd = [] \<and> outgoing_buffers st' ! fd = [] \<and> wire st' fd = []"
proof -
  from reachable_inv [OF assms(1,2)] have core: "core sq rows used st" by (simp add: server_inv_def)
  note slot = add_connection_slot [OF assms(4,5)]
  note bufs = add_connection_buffers [OF assms(4) coreD(2) [OF core], of fd]
  from coreD(7) [OF core, of fd] assms(3) slot bufs show ?thesis
    by (auto simp: untouched_def flag_simps)
qed

theorem new_connection_is_clean_witness:
  "\<exists>st. add_connection 7 admitted (initial_server sample_users) = Some (Running st) \<and>
     \<not> has_flag (flags st ! 7) IS_AUTH \<and> incoming_buffers st ! 7 = []"
proof -
  obtain st where st: "add_connection 7 admitted (initial_server sample_users) = Some (Running st)"
    using sample_reachable by blast
  from new_connection_is_clean [OF reachable.start sample_db_ok _ st] st show ?thesis
    by (auto simp: admitted_def)
qed

section \<open>The server is a chat room\<close>

text \<open>
  (C2) The server implements the chat room of \<open>Chat_Room\<close>. In every state it can reach there is a run
  of the room whose accounts are those of the database, whose members are the authenticated
  connections, and in which each connection was told exactly the frames that were written or queued
  for it. What was asked in that run are requests from the bytes received: for each connection a
  beginning of the requests these can be cut into, and for an open connection all of them, in order.
\<close>

theorem server_implements_room:
  assumes "heard sq d received used st" "db_ok sq rows d"
  shows "\<exists>as r. room_run (open_room (account rows d)) as r \<and> represents rows st r \<and>
    (\<forall>i. prefix (asked i as) (fst (split_requests (received i)))) \<and>
    (\<forall>i < get_size st. has_flag (flags st ! i) IS_ACTIVE \<longrightarrow> asked i as = fst (split_requests (received i)))"
proof -
  obtain as r where "room_run (open_room (account rows d)) as r" "tracks sq rows (received, used, st) (as, r)"
    by (rule room_reached [OF assms])
  then show ?thesis by (intro exI [of _ as] exI [of _ r]) (auto simp: in_step_def)
qed

theorem server_implements_room_witness:
  "\<exists>received st as r. heard list_sqlite sample_users received [7] st \<and>
     room_run (open_room (account (\<lambda>d. d) sample_users)) as r \<and> represents (\<lambda>d. d) st r \<and>
     asked 7 as = fst (split_requests (received 7)) \<and> told r 7 \<noteq> []"
proof -
  obtain received st gs where st: "heard list_sqlite sample_users received [7] st" "7 < get_size st"
    "has_flag (flags st ! 7) IS_ACTIVE" "wire st 7 @ outgoing_buffers st ! 7 = encode_frames gs" "gs \<noteq> []"
    using sample_chatting by blast
  then have ne: "wire st 7 @ outgoing_buffers st ! 7 \<noteq> []" by (cases gs) (simp_all add: encode_frame_def)
  from server_implements_room [OF st(1) sample_db_ok] st(2,3) obtain as r where
    r: "room_run (open_room (account (\<lambda>d. d) sample_users)) as r" "represents (\<lambda>d. d) st r"
      "asked 7 as = fst (split_requests (received 7))" by blast
  have "told r 7 \<noteq> []" using r(2) st(2) ne by (auto simp: represents_def output_of_def dest: spec [of _ 7])
  with st(1) r show ?thesis by blast
qed

text \<open>
  (C3) Nobody is logged in without the password: whenever a connection is authenticated, among the
  requests in the bytes received on that very connection is a login with the password of the account
  whose name and id it carries.
\<close>

theorem logged_in_by_password:
  assumes "heard sq d received used st" "db_ok sq rows d" "i < get_size st" "has_flag (flags st ! i) IS_AUTH"
  shows "\<exists>pl u p a. (mtype LOGIN, pl) \<in> set (fst (split_requests (received i))) \<and> credentials_of pl = Some (u, p) \<and>
    account rows (db st) (account_key u) = Some a \<and> password a = p \<and>
    username a = usernames st ! i \<and> user_id a = user_ids st ! i"
proof -
  obtain as r where r: "room_run (open_room (account rows d)) as r" "tracks sq rows (received, used, st) (as, r)"
    by (rule room_reached [OF assms(1,2)])
  then have "online r i = Some (usernames st ! i, user_ids st ! i)" "accounts r = account rows (db st)"
    using assms(3,4) by (simp_all add: represents_def member_of_def)
  from proved_mono [OF online_proved [OF r(1) this(1)] map_le_refl asked_sent, of received used st] r(2) this(2)
  show ?thesis by (simp add: proved_def sent_by_def)
qed

theorem logged_in_by_password_witness:
  "\<exists>received st pl u p. heard list_sqlite sample_users received [7] st \<and> usernames st ! 7 = str ''Alice'' \<and>
     (mtype LOGIN, pl) \<in> set (fst (split_requests (received 7))) \<and> credentials_of pl = Some (u, p)"
proof -
  obtain received st where st: "heard list_sqlite sample_users received [7] st" "7 < get_size st"
    "has_flag (flags st ! 7) IS_AUTH" "usernames st ! 7 = str ''Alice''"
    using sample_chatting by blast
  from logged_in_by_password [OF st(1) sample_db_ok st(2,3)] st show ?thesis by blast
qed

text \<open>
  (C4) Messages are authentic and reach only whom they are meant for. What was written and queued for
  a connection is a sequence of well-formed frames, and each chat message among them goes back to a
  chat request received on some connection, with that content and recipient, that had sent the
  password of the account whose name the message carries. The connection it was sent to is that one
  itself, or it has sent the password of some account, and of the recipient's when there is one.
\<close>

theorem messages_authentic:
  assumes "heard sq d received used st" "db_ok sq rows d" "j < get_size st"
  defines "acc \<equiv> account rows (db st)" and "rqs \<equiv> \<lambda>i. fst (split_requests (received i))"
  shows "\<exists>fs. wire st j @ outgoing_buffers st ! j = encode_frames fs \<and> list_all frame_ok fs \<and>
    (\<forall>f \<in> set fs. f_type f = mtype CHAT \<and> f_rc f = 0 \<longrightarrow>
      (\<exists>i name uid pl recipient content. f = chat_frame name recipient content \<and>
         (mtype CHAT, pl) \<in> set (rqs i) \<and> message_of name pl = Some (recipient, content) \<and> proved acc (rqs i) name uid \<and>
         (j = i \<or> (\<exists>name' uid'. proved acc (rqs j) name' uid' \<and> (recipient = None \<or> recipient = Some name')))))"
proof -
  obtain as r where r: "room_run (open_room (account rows d)) as r" "tracks sq rows (received, used, st) (as, r)"
    by (rule room_reached [OF assms(1,2)])
  then have acc: "accounts r = acc" and out: "wire st j @ outgoing_buffers st ! j = encode_frames (told r j)"
    using assms(3) by (auto simp: represents_def output_of_def acc_def dest: spec [of _ j])
  have "set (asked i as) \<subseteq> set (rqs i)" for i
    using asked_sent [of received used st as i] r(2) by (simp add: sent_by_def rqs_def)
  then have "heard_from acc rqs j f" if "f \<in> set (told r j)" "is_chat f" for f
    using heard_from_mono [OF told_heard [OF r(1) that]] acc by simp
  then have "\<forall>f \<in> set (told r j). is_chat f \<longrightarrow> heard_from acc rqs j f" by blast
  moreover have "list_all frame_ok (told r j)" using told_ok [OF r(1), of j] by (simp add: answers_ok)
  ultimately show ?thesis
    using out unfolding is_chat_def heard_from_def by (intro exI [of _ "told r j"] conjI) (assumption, assumption, blast)
qed

theorem messages_authentic_witness:
  "\<exists>received st i name uid pl recipient content. heard list_sqlite sample_users received [7] st \<and>
     wire st 7 @ outgoing_buffers st ! 7 = encode_frames [request_frame LOGIN
       (user_tlvs \<lparr>user_id = 1, username = str ''Alice'', password = str ''pw''\<rparr>),
       chat_frame (str ''Alice'') None (str ''hi'')] \<and>
     (mtype CHAT, pl) \<in> set (fst (split_requests (received i))) \<and> message_of name pl = Some (recipient, content) \<and>
     proved (account (\<lambda>d. d) (db st)) (fst (split_requests (received i))) name uid"
proof -
  let ?c = "chat_frame (str ''Alice'') None (str ''hi'')"
  let ?gs = "[request_frame LOGIN (user_tlvs \<lparr>user_id = 1, username = str ''Alice'', password = str ''pw''\<rparr>), ?c]"
  obtain received st where st: "heard list_sqlite sample_users received [7] st" "7 < get_size st"
    "wire st 7 @ outgoing_buffers st ! 7 = encode_frames ?gs"
    using sample_chatting by blast
  have "answer_ok ?c" by (rule chat_answer_ok)
  with user_answer_ok have ok: "list_all frame_ok ?gs" by (simp add: answer_ok_def del: chat_frame.simps)
  from messages_authentic [OF st(1) sample_db_ok st(2)] obtain fs where
    fs: "wire st 7 @ outgoing_buffers st ! 7 = encode_frames fs" "list_all frame_ok fs"
    and chat: "\<forall>f \<in> set fs. f_type f = mtype CHAT \<and> f_rc f = 0 \<longrightarrow>
      (\<exists>i name uid pl recipient content. f = chat_frame name recipient content \<and>
         (mtype CHAT, pl) \<in> set (fst (split_requests (received i))) \<and> message_of name pl = Some (recipient, content) \<and>
         proved (account (\<lambda>d. d) (db st)) (fst (split_requests (received i))) name uid \<and>
         (7 = i \<or> (\<exists>name' uid'. proved (account (\<lambda>d. d) (db st)) (fst (split_requests (received 7))) name' uid' \<and>
            (recipient = None \<or> recipient = Some name'))))" by blast
  from encode_frames_inject [OF fs(2) ok] fs(1) st(3) have "fs = ?gs" by simp
  then have "?c \<in> set fs" by simp
  moreover have "f_type ?c = mtype CHAT" "f_rc ?c = 0" by (simp_all add: request_frame_def)
  ultimately obtain i name uid pl recipient content where
    "(mtype CHAT, pl) \<in> set (fst (split_requests (received i)))" "message_of name pl = Some (recipient, content)"
    "proved (account (\<lambda>d. d) (db st)) (fst (split_requests (received i))) name uid"
    using chat by blast
  with st show ?thesis by blast
qed

text \<open>
  (C8) Every account the server knows was in the database when it started, or comes from a
  registration request received on some connection, with that name and password.
\<close>

theorem accounts_registered:
  assumes "heard sq d received used st" "db_ok sq rows d" "account rows (db st) k = Some a"
  shows "account rows d k = Some a \<or>
    (\<exists>i pl u p. (mtype REGISTER, pl) \<in> set (fst (split_requests (received i))) \<and>
       credentials_of pl = Some (u, p) \<and> k = account_key u \<and> username a = c_str u \<and> password a = c_str p)"
proof -
  obtain as r where r: "room_run (open_room (account rows d)) as r" "tracks sq rows (received, used, st) (as, r)"
    by (rule room_reached [OF assms(1,2)])
  then have "accounts r k = Some a" using assms(3) by (simp add: represents_def)
  have sub: "set (asked i as) \<subseteq> set (fst (split_requests (received i)))" for i
    using asked_sent [of received used st as i] r(2) by (simp add: sent_by_def)
  from accounts_asked [OF r(1) \<open>accounts r k = Some a\<close>] show ?thesis
  proof
    assume "\<exists>i pl u p. (mtype REGISTER, pl) \<in> set (asked i as) \<and> credentials_of pl = Some (u, p) \<and>
      k = account_key u \<and> username a = c_str u \<and> password a = c_str p"
    then obtain i pl u p where "(mtype REGISTER, pl) \<in> set (asked i as)" "credentials_of pl = Some (u, p)"
      "k = account_key u" "username a = c_str u" "password a = c_str p" by blast
    with sub show ?thesis by blast
  qed blast
qed

theorem accounts_registered_witness:
  "\<exists>received st i pl u p. heard list_sqlite sample_users received [7] st \<and>
     account (\<lambda>d. d) (db st) (str ''carol'') \<noteq> None \<and>
     (mtype REGISTER, pl) \<in> set (fst (split_requests (received i))) \<and> credentials_of pl = Some (u, p) \<and>
     account_key u = str ''carol''"
proof -
  obtain received st a where st: "heard list_sqlite sample_users received [7] st"
    "account (\<lambda>d. d) (db st) (str ''carol'') = Some a" "account (\<lambda>d. d) sample_users (str ''carol'') = None"
    using sample_registering by blast
  from accounts_registered [OF st(1) sample_db_ok st(2)] st(3) obtain i pl u p where
    "(mtype REGISTER, pl) \<in> set (fst (split_requests (received i)))" "credentials_of pl = Some (u, p)"
    "str ''carol'' = account_key u" by auto
  with st(1,2) show ?thesis
    by (intro exI [of _ received] exI [of _ st] exI [of _ i] exI [of _ pl] exI [of _ u] exI [of _ p]) simp
qed

text \<open>
  (C9) What a user sees is what the room told: a client that connected and made its pipe, and whose socket
  gives it in some pieces exactly what the server has sent and queued for it, its reads neither failing
  nor interrupted (\<open>flowing\<close>), handles under every schedule of its threads the first so many of the messages the room has
  told its connection, in order. Those are all of them when its thread has ended, unless the user quit
  (the shutdown byte) or a call of \<open>poll\<close> failed, which the code does not retry even after a signal. This
  holds for every database whose names have the length the protocol allows.
\<close>

theorem client_sees_room:
  assumes "heard sq d received used st" "db_ok sq rows d" "names_fit (account rows d)" "i < get_size st"
    and "client_main k inbox p = Inr s" "pipe_rc k \<noteq> -1"
    and "flowing inbox" "arriving inbox = wire st i @ outgoing_buffers st ! i" "schedule as s"
  shows "\<exists>acts r ns s' n. room_run (open_room (account rows d)) acts r \<and> represents rows st r \<and>
    told r i = map notice_frame ns \<and> run_session as s = Some s' \<and> n \<le> length ns \<and>
    s_conn s' = fold notice_effect (take n ns) client_zero \<and>
    (s_thread s' = Finished \<longrightarrow> n = length ns \<or> s_signalled s' \<or> Wake Poll_Error \<in> set as)"
proof -
  obtain acts r where r: "room_run (open_room (account rows d)) acts r" "tracks sq rows (received, used, st) (acts, r)"
    by (rule room_reached [OF assms(1,2)])
  obtain ns where ns: "list_all notice_ok ns" "told r i = map notice_frame ns"
    by (rule told_notices [OF r(1) assms(3)])
  have rep: "represents rows st r" using r(2) by simp
  then have "arriving inbox = notice_bytes ns"
    using assms(4,8) ns(2) by (auto simp: represents_def output_of_def notice_bytes_def dest: spec [of _ i])
  from run_inv [OF client_main_inv(1) [OF assms(5,6,7) this] ns(1) assms(9)] obtain s' n where
    "run_session as s = Some s'" "shown ns client_zero s' n"
    "Wake Poll_Error \<notin> set as \<and> \<not> s_signalled s' \<and> s_thread s' = Finished \<longrightarrow> n = length ns"
    by (auto simp: session_inv_def)
  with r(1) rep ns(2) show ?thesis
    by (intro exI [of _ acts] exI [of _ r] exI [of _ ns] exI [of _ s'] exI [of _ n]) (auto simp: shown_def)
qed

theorem client_sees_room_witness:
  "\<exists>received st acts r ns s' n. heard list_sqlite sample_users received [7] st \<and>
     room_run (open_room (account (\<lambda>d. d) sample_users)) acts r \<and> told r 7 = map notice_frame ns \<and>
     run_session [Wake (Poll_Bits False True), Sigint, Test 0] (sample_session [Avail (encode_frames (told r 7))]) = Some s' \<and>
     s_conn s' = fold notice_effect (take n ns) client_zero"
proof -
  let ?as = "[Wake (Poll_Bits False True), Sigint, Test 0]"
  obtain received st gs where st: "heard list_sqlite sample_users received [7] st" "7 < get_size st"
    "wire st 7 @ outgoing_buffers st ! 7 = encode_frames gs" "gs \<noteq> []"
    using sample_chatting by blast
  let ?out = "wire st 7 @ outgoing_buffers st ! 7"
  let ?inbox = "[Avail ?out]"
  have "?out \<noteq> []" using st(3,4) by (cases gs) (simp_all add: encode_frame_def)
  then have fl: "flowing ?inbox" "arriving ?inbox = ?out" by (simp_all add: flowing_def)
  have names: "names_fit (account (\<lambda>d. d) sample_users)"
    by (auto simp: names_fit_def account_def sample_users_def str_def size_defs split: if_splits)
  have start: "s_main (sample_session ?inbox) = Testing" "s_thread (sample_session ?inbox) = Listening"
    "\<not> s_signalled (sample_session ?inbox)" by (simp_all add: sample_session_def)
  then have "s_main x = Testing" if "socket_thread_handler (Poll_Bits False True) (sample_session ?inbox) = Some x" for x
    using thread_keeps_main [OF that] by simp
  with start have sched: "schedule ?as (sample_session ?inbox)"
    by (simp add: handle_client_sigint_def split: option.split)
  have pipe: "pipe_rc sample_client \<noteq> -1" by (simp add: sample_client_def)
  obtain acts r ns s' n where r: "room_run (open_room (account (\<lambda>d. d) sample_users)) acts r" "represents (\<lambda>d. d) st r"
    "told r 7 = map notice_frame ns" "run_session ?as (sample_session ?inbox) = Some s'"
    "s_conn s' = fold notice_effect (take n ns) client_zero"
    using client_sees_room [OF st(1) sample_db_ok names st(2) sample_client_main pipe fl sched] by blast
  have "?out = encode_frames (told r 7)" using r(2) st(2) by (auto simp: represents_def output_of_def dest: spec [of _ 7])
  with r st(1) show ?thesis by metis
qed

section \<open>No wake-up is lost\<close>

text \<open>
  (C6) The edge-triggered use of epoll loses no wake-up: whatever happens at the sockets and in whatever
  order connections are served, a connection whose registration asks for what its socket has (unread
  bytes or the end of the input while the server reads from it, space while the server writes to it)
  is reported and waits to be served; and only open connections wait.
\<close>

theorem no_wakeup_lost:
  assumes "world sq d (k, received, used, st)" "db_ok sq rows d"
  shows "(\<forall>i. ready k st i \<longrightarrow> i \<in> waiting k) \<and>
    (\<forall>i \<in> waiting k. i < get_size st \<and> has_flag (flags st ! i) IS_ACTIVE)"
proof -
  note alert = world_alert [OF assms] and inv = world_inv [OF assms]
  with registered_slot(1,2) [OF inv] show ?thesis unfolding alert_def by blast
qed

theorem no_wakeup_lost_witness:
  "\<exists>received st. world list_sqlite sample_users (arrived [1], received, [7], st) \<and>
     ready (arrived [1]) st 7 \<and> 7 \<in> waiting (arrived [1]) \<and> 7 < get_size st"
proof -
  obtain received st where con: "connected received st" using sample_connected by blast
  then have w: "world list_sqlite sample_users (arrived [1], received, [7], st)"
    by (rule connected_arrives) simp
  have "ready (arrived [1]) st 7" using con by (simp add: ready_def connected_def)
  with no_wakeup_lost [OF w sample_db_ok] w show ?thesis by blast
qed

text \<open>
  (C7) Serving comes to an end: while nothing more arrives, connections can be served in any order and
  the kernel can answer as it likes, but never for ever; as long as a connection waits there is a
  way to serve it, and when no further turn is possible none waits.
\<close>

theorem serving_ends:
  assumes "world sq d (k, received, used, st)" "db_ok sq rows d"
  shows "(\<nexists>f. f 0 = (k, received, used, st) \<and> (\<forall>n. turn sq (f n) (f (Suc n)))) \<and>
    (\<forall>c. (turn sq)\<^sup>*\<^sup>* (k, received, used, st) c \<longrightarrow> Ex (turn sq c) \<longleftrightarrow> waiting (fst c) \<noteq> {}) \<and>
    (\<exists>c. (turn sq)\<^sup>*\<^sup>* (k, received, used, st) c \<and> waiting (fst c) = {})"
proof -
  let ?c = "(k, received, used, st)"
  have sound: "sound sq rows ?c" using world_inv [OF assms] world_alert [OF assms] by simp
  have turns: "Ex (turn sq c) \<longleftrightarrow> waiting (fst c) \<noteq> {}" if "(turn sq)\<^sup>*\<^sup>* ?c c" for c
  proof -
    obtain k1 received1 used1 st1 where c: "c = (k1, received1, used1, st1)" by (cases c)
    with turns.keeps_run [OF that sound] have "server_inv sq rows used1 st1" "alert k1 st1" by simp_all
    then show ?thesis using turn_possible [of sq rows used1 st1 k1 received1] unfolding c by (auto elim!: turnE)
  qed
  with turns.no_infinite_run [OF sound] turns.stops [OF sound] show ?thesis by meson
qed

theorem serving_ends_witness:
  "\<exists>received st c. world list_sqlite sample_users (arrived [1], received, [7], st) \<and>
     (turn list_sqlite)\<^sup>*\<^sup>* (arrived [1], received, [7], st) c \<and> waiting (fst c) = {} \<and> waiting (arrived [1]) = {7}"
proof -
  obtain received st where "connected received st" using sample_connected by blast
  then have w: "world list_sqlite sample_users (arrived [1], received, [7], st)"
    by (rule connected_arrives) simp
  with serving_ends [OF w sample_db_ok] arrived_fields(2) show ?thesis by blast
qed

text \<open>
  (C5) And then everything is done: when no connection waits, the server is in the state of a run of the
  chat room in which every open connection whose socket takes output has been served completely. All
  bytes that have arrived on it have been read, each complete request among them was asked in order,
  and everything the room told it has been sent.
\<close>

theorem idle_server_is_done:
  assumes "world sq d (k, received, used, st)" "db_ok sq rows d" "waiting k = {}"
  shows "\<exists>as r. room_run (open_room (account rows d)) as r \<and> represents rows st r \<and>
    (\<forall>i < get_size st. has_flag (flags st ! i) IS_ACTIVE \<and> 0 < space k i \<longrightarrow>
       pending k i = [] \<and> asked i as = fst (split_requests (received i)) \<and> wire st i = encode_frames (told r i))"
proof -
  note alert = world_alert [OF assms(1,2)] and inv = world_inv [OF assms(1,2)]
  obtain as r where r: "room_run (open_room (account rows d)) as r" "tracks sq rows (received, used, st) (as, r)"
    by (rule room_reached [OF world_heard [OF assms(1)] assms(2)])
  have "pending k i = [] \<and> asked i as = fst (split_requests (received i)) \<and> wire st i = encode_frames (told r i)"
    if i: "i < get_size st" "has_flag (flags st ! i) IS_ACTIVE" "0 < space k i" for i
  proof -
    from inv i(1,2) have "epoll st i \<noteq> None"
      using slot_ok_reg table_inv_slot by (fastforce simp: server_inv_def core_def)
    with idle_connection [OF inv alert assms(3)] i(3) have "pending k i = []" "outgoing_buffers st ! i = []" by fastforce+
    with r(2) i(1,2) show ?thesis by (auto simp: in_step_def represents_def output_of_def dest: spec [of _ i])
  qed
  with r show ?thesis by auto
qed

theorem idle_server_is_done_witness:
  "\<exists>k received st as r. world list_sqlite sample_users (k, received, [7], st) \<and> waiting k = {} \<and>
     room_run (open_room (account (\<lambda>d. d) sample_users)) as r \<and> pending k 7 = [] \<and>
     asked 7 as = fst (split_requests (received 7)) \<and> told r 7 \<noteq> [] \<and> wire st 7 = encode_frames (told r 7)"
proof -
  let ?gs = "[request_frame LOGIN (user_tlvs \<lparr>user_id = 1, username = str ''Alice'', password = str ''pw''\<rparr>),
       chat_frame (str ''Alice'') None (str ''hi'')]"
  obtain k received st where st: "world list_sqlite sample_users (k, received, [7], st)" "waiting k = {}" "0 < space k 7"
    "7 < get_size st" "has_flag (flags st ! 7) IS_ACTIVE" "wire st 7 = encode_frames ?gs"
    using sample_idle by blast
  from idle_server_is_done [OF st(1) sample_db_ok st(2)] st(3-5) obtain as r where
    r: "room_run (open_room (account (\<lambda>d. d) sample_users)) as r" "pending k 7 = []"
      "asked 7 as = fst (split_requests (received 7))" "wire st 7 = encode_frames (told r 7)" by blast
  have "told r 7 \<noteq> []" using st(6) r(4) by (auto simp: encode_frame_def)
  with st r show ?thesis by blast
qed

section \<open>Serving requests\<close>

text \<open>
  (C12) The loop that serves a connection terminates, stays inside its memory and does exactly what
  the specification says: cut the input into complete requests, run them in order, append the
  answers to the output, keep the incomplete rest, and mark the connection for closing when the
  rest announces an oversized payload.
\<close>

theorem serve_requests_refines:
  assumes "same_sizes st" "fd < get_size st" "db_ok sq rows (db st)"
  shows "serve_requests sq fd st = Some (serve_spec sq rows fd st)"
  using assms by (rule serve_requests_spec)

theorem serve_requests_refines_witness:
  "serve_requests list_sqlite 2 sample_server = Some (serve_spec list_sqlite (\<lambda>d. d) 2 sample_server)"
  using serve_requests_refines [OF sample_sizes, of 2 list_sqlite "\<lambda>d. d"] sample_db_ok by simp

text \<open>
  Pipelining: a client that sends any number of requests at once, the last of them not a bare
  header, gets exactly one response frame for each, in order; the input is used up.
\<close>

theorem pipelined_requests_answered:
  assumes "same_sizes st" "fd < get_size st" "db_ok sq rows (db st)"
    and "incoming_buffers st ! fd = []" "list_all frame_ok fs" "fs \<noteq> []" "f_payload (last fs) \<noteq> []"
    and "concat chunks = encode_frames fs"
  shows "\<exists>st' gs. handle_read_connection sq fd chunks Read_Would_Block st = Some st' \<and>
    incoming_buffers st' ! fd = [] \<and>
    outgoing_buffers st' ! fd = outgoing_buffers st ! fd @ encode_frames gs \<and>
    gs = fst (run_requests sq rows fd (map request_of fs) st) \<and> length gs = length fs"
proof -
  let ?r = "receive fd (encode_frames fs) st"
  obtain gs st1 where run: "run_requests sq rows fd (map request_of fs) st = (gs, st1)" by (rule prod.exhaust)
  note len = run_requests_kept(3) [OF run assms(3)]
  have run': "run_requests sq rows fd (map request_of fs) ?r =
      (gs, queue fd (incoming_buffers st ! fd @ encode_frames fs) [] st1)"
    unfolding receive_queue by (rule run_requests_queue [OF assms(1,2) run])
  have split: "split_requests (incoming_buffers ?r ! fd) = (map request_of fs, [])"
    using split_requests_frames [OF assms(5)] assms(1,2,4,6,7) by (simp add: table_simps)
  have ok: "same_sizes ?r" "fd < get_size ?r" "db_ok sq rows (db ?r)"
    using assms(1-3) by (simp_all add: table_simps)
  note bufs = serve_spec_buffers [OF ok split run']
  show ?thesis
    using handle_read_effect [OF assms(1-3), of chunks Read_Would_Block] bufs assms(8) run len
    by (simp add: read_effect_def Let_def table_simps)
qed

theorem pipelined_requests_answered_witness:
  "\<exists>st' gs. handle_read_connection list_sqlite 2 [encode_frame alice_logs_in, encode_frame alice_logs_in]
      Read_Would_Block sample_server = Some st' \<and>
    outgoing_buffers st' ! 2 = encode_frames gs \<and> length gs = 2"
proof -
  have pl: "frame_ok alice_logs_in" "f_payload alice_logs_in \<noteq> []"
    by (simp_all add: frame_ok_def alice_logs_in_def request_frame_def credential_tlvs_def encode_tlv_def
        str_def MSG_MAX_PAYLOAD_SIZE_def)
  from pipelined_requests_answered [OF sample_sizes, of 2 list_sqlite "\<lambda>d. d" "[alice_logs_in, alice_logs_in]"
      "[encode_frame alice_logs_in, encode_frame alice_logs_in]"] pl sample_db_ok
  show ?thesis by fastforce
qed

text \<open>
  (C20) Where the bytes are cut by the network makes no difference: reading and serving a first part
  and then a second part, however each was chunked, ends in the same state as receiving both at
  once, unless the first part already announced an oversized payload.
\<close>

theorem segmentation_independent:
  assumes "same_sizes st" "fd < get_size st" "db_ok sq rows (db st)"
    and "next_request (snd (split_requests (incoming_buffers st ! fd @ concat as))) \<noteq> Oversized"
  shows "do { st \<leftarrow> read_loop fd as st; st \<leftarrow> serve_requests sq fd st;
              st \<leftarrow> read_loop fd bs st; serve_requests sq fd st } =
         do { st \<leftarrow> read_loop fd (as @ bs) st; serve_requests sq fd st }"
proof -
  let ?r = "receive fd (concat as) st" and ?s = "serve_spec sq rows fd (receive fd (concat as) st)"
  have ok: "same_sizes ?r" "fd < get_size ?r" "db_ok sq rows (db ?r)"
    using assms(1-3) by (simp_all add: table_simps)
  note k = serve_spec_kept [OF ok(1,3), of fd]
  have ok2: "same_sizes (receive fd b s)" "fd < get_size (receive fd b s)" "db_ok sq rows (db (receive fd b s))"
    if "s = ?s \<or> s = st" for s b
    using that k ok assms(1-3) by (auto simp: table_simps)
  have "serve_spec sq rows fd (receive fd (concat bs) ?s) = serve_spec sq rows fd (receive fd (concat bs) ?r)"
    using serve_spec_twice [OF ok, of "concat bs"] assms(1,2,4) by (simp add: receive_queue table_simps)
  then show ?thesis
    using read_loop_receive [OF assms(1,2)] read_loop_receive [OF k(2)] k(1) ok
      serve_requests_spec [OF ok] serve_requests_spec [OF ok2, of ?s] serve_requests_spec [OF ok2, of st]
      receive_receive [OF assms(1,2)]
    by simp
qed

theorem segmentation_independent_witness:
  "do { st \<leftarrow> read_loop 2 [[1, 1], [0]] sample_server; st \<leftarrow> serve_requests list_sqlite 2 st;
        st \<leftarrow> read_loop 2 [[0, 0, 0, 1, 7]] st; serve_requests list_sqlite 2 st } =
   do { st \<leftarrow> read_loop 2 [[1, 1], [0], [0, 0, 0, 1, 7]] sample_server; serve_requests list_sqlite 2 st }"
proof -
  have "split_requests [1, 1, 0] = ([], [1, 1, 0])" "next_request [1, 1, 0] = Incomplete"
    by (simp_all add: split_requests.simps [of "[1, 1, 0]"] next_request_def)
  with segmentation_independent [OF sample_sizes, of 2 list_sqlite "\<lambda>d. d" "[[1, 1], [0]]" "[[0, 0, 0, 1, 7]]"]
    sample_db_ok show ?thesis by simp
qed

text \<open>
  (C25) A frame that announces more than \<open>MSG_MAX_PAYLOAD_SIZE\<close> bytes closes its connection in the
  event that completes its header, and no connection is answered for it: the slot is freed and
  epoll no longer watches it.
\<close>

theorem oversized_request_closes:
  assumes "reachable sq d (used, st)" "db_ok sq rows d" "epoll st fd = Some EPOLLIN_ET"
    and "next_request (incoming_buffers st ! fd @ concat chunks) = Oversized"
  shows "\<exists>st'. handle_event sq (Conn_Ready fd err chunks Read_Would_Block rooms we) st = Some (Running st') \<and>
    flags st' ! fd = NONE \<and> epoll st' fd = None \<and>
    wire st' fd @ outgoing_buffers st' ! fd = wire st fd @ outgoing_buffers st ! fd"
proof -
  from reachable_inv [OF assms(1,2)] have inv: "server_inv sq rows used st" by simp
  then have core: "core sq rows used st" by (simp add: server_inv_def)
  note c = coreD [OF core]
  have fd: "fd < get_size st" using table_inv_registered [OF c(1)] assms(3) by simp
  have fl: "has_flag (flags st ! fd) IS_ACTIVE" "has_flag (flags st ! fd) WANT_READ"
    using table_inv_slot [OF c(1) fd] assms(3) by (auto simp: slot_ok_def)
  have split: "split_requests (incoming_buffers st ! fd @ concat chunks) = ([], incoming_buffers st ! fd @ concat chunks)"
    using assms(4) by (simp add: split_requests.simps [of "incoming_buffers st ! fd @ concat chunks"])
  let ?q = "queue fd (incoming_buffers st ! fd @ concat chunks) [] st"
  have serve: "serve_spec sq rows fd (receive fd (concat chunks) st) = mark fd CLOSING ?q"
    using split assms(4) c(2) fd queue_queue [OF c(2) fd]
    by (simp add: serve_spec_def receive_queue table_simps)
  obtain s l e where d: "drain rooms (outgoing_buffers st ! fd) = (s, l, e)" by (rule prod_cases3)
  then have sl: "s @ l = outgoing_buffers st ! fd" by (simp add: drain_parts)
  have "flags (conn_effect sq rows fd err (concat chunks) Read_Would_Block rooms we st) ! fd = NONE \<and>
      epoll (conn_effect sq rows fd err (concat chunks) Read_Would_Block rooms we st) fd = None \<and>
      wire (conn_effect sq rows fd err (concat chunks) Read_Would_Block rooms we st) fd @
        outgoing_buffers (conn_effect sq rows fd err (concat chunks) Read_Would_Block rooms we st) ! fd =
      wire st fd @ outgoing_buffers st ! fd"
    using fl fd c(2) d sl serve
    by (cases we) (auto simp: conn_effect_def read_effect_def write_effect_def Let_def table_simps flag_simps
        nth_list_update simp flip: get_size_def)
  moreover have "\<not> has_flag (flags st ! fd) WANT_WRITE" "outgoing_buffers st ! fd = []"
    using inv fd fl(1) table_inv_slot [OF c(1) fd] assms(3)
    by (auto simp: server_inv_def quiet_def settled_def slot_ok_def)
  then have "\<not> conn_killed sq rows fd (concat chunks) Read_Would_Block rooms we st"
    using fl fd c(2) serve
    by (simp add: conn_killed_def read_effect_def Let_def table_simps flag_simps)
  ultimately show ?thesis
    using conn_event(1) [OF inv fd fl(1)] by (simp add: conn_outcome_def del: handle_event.simps)
qed

theorem oversized_request_closes_witness:
  "\<exists>st st'. reachable list_sqlite sample_users ([7], st) \<and>
     handle_event list_sqlite (Conn_Ready 7 False [[1, 0, 0], be_bytes 5000, [0]] Read_Would_Block [] Write_Would_Block) st
       = Some (Running st') \<and> epoll st' 7 = None"
proof -
  obtain st where st: "reachable list_sqlite sample_users ([7], st)" "epoll st 7 = Some EPOLLIN_ET"
    and add: "add_connection 7 admitted (initial_server sample_users) = Some (Running st)"
    using sample_reachable by blast
  have "same_sizes (initial_server sample_users)"
    using initial_server_inv [of sample_users] by (simp add: table_inv_def)
  then have "incoming_buffers st ! 7 = []"
    using add_connection_buffers(2) [OF add, of 7] add_connection_slot(1) [OF add]
    by (simp add: initial_server_fields get_size_def admitted_def)
  moreover have "next_request ([1, 0, 0] @ be_bytes 5000 @ [0]) = Oversized"
    by (simp add: next_request_def MSG_MAX_PAYLOAD_SIZE_def)
  ultimately show ?thesis
    using oversized_request_closes [OF st(1) sample_db_ok st(2),
        of "[[1, 0, 0], be_bytes 5000, [0]]" False "[]" Write_Would_Block] st(1)
    by (auto simp del: handle_event.simps)
qed

section \<open>The server process\<close>

text \<open>
  (C19) When the set-up of \<open>main\<close> succeeds, it was given three arguments and a logging flag of 0 or
  1; the process holds exactly two more descriptors, the listening socket, which listens and is
  non-blocking, and the epoll instance, and no list of addresses; the database is the one the test
  flag selects; and the terminal is watched exactly when the flag is 0.
\<close>

theorem server_starts:
  assumes "start_server sq argv k p = Some (Running (d, w), p')"
    and "\<forall>a \<in> set (addresses (listen_part k)). 0 \<le> close_rc a"
  shows "\<exists>is_test. length argv = 4 \<and> atoi (argv ! 2) = Some is_test \<and>
    atoi (argv ! 3) = Some (if logs w then 1 else 0) \<and> (watches_stdin w \<longleftrightarrow> is_test = 0) \<and>
    init_db sq (if is_test \<noteq> 0 then DB_TEST_PATH else DB_PATH) = (0, d) \<and>
    held p' = {#ready_epollfd w, ready_listenfd w#} + held p \<and> address_lists p' = address_lists p \<and>
    ready_listenfd w \<in> set (listening p') \<and> ready_listenfd w \<in> set (nonblocking p')"
  by (rule start_server_spec [OF assms]) blast

theorem server_starts_witness:
  "\<exists>p w. start_server list_sqlite sample_argv sample_boot sample_process = Some (Running ([], w), p) \<and>
     watches_stdin w \<and> held p = {#3, 4#} + {#0, 1, 2#}"
proof -
  let ?w = "\<lparr>ready_listenfd = 3, ready_epollfd = 4, watches_stdin = True, logs = True\<rparr>"
  obtain p where p: "start_server list_sqlite sample_argv sample_boot sample_process = Some (Running ([], ?w), p)"
    using sample_starts by blast
  with server_starts [OF p] show ?thesis
    by (auto simp: sample_boot_def sample_process_held)
qed

text \<open>
  (C11) What the whole program can do. From its start on, for all answers the kernel can give to
  \<open>epoll_wait\<close> and the calls of its handlers (\<open>feasible\<close>), the server keeps running in reachable states, or
  what ended it is among what happened. It leaves its memory only by a console read that begins with
  a NUL; it is killed only by \<open>SIGPIPE\<close>, when a client has closed a connection that is written to; and, the
  interrupts by \<open>SIGINT\<close> and \<open>SIGTERM\<close> apart, it ends itself only with \<open>-1\<close>, after \<open>epoll_wait\<close> failed, the
  listening socket or the terminal reported an error, \<open>accept\<close> ended with an error other than
  would-block (as it does when clients have used up the descriptors, which are never closed), or
  \<open>fcntl\<close> failed on a new connection.
\<close>

theorem server_runs:
  assumes "start_server sq argv k p = Some (Running (d, w), p')" "db_ok sq rows d"
    and "feasible sq (watches_stdin w) [] (initial_server d) ps"
  shows "case server_main sq argv k ps p of
      None \<Rightarrow> \<exists>ev \<in> set (events_of ps). nul_read ev
    | Some (Running st, _) \<Rightarrow> \<exists>used. reachable sq d (used, st)
    | Some (Exited (Status c), _) \<Rightarrow> c = -1 \<and> (Poll_Failed \<in> set ps \<or> (\<exists>ev \<in> set (events_of ps). failure ev))
    | Some (Exited (Signalled s), _) \<Rightarrow> s = SIGPIPE \<and> (\<exists>ev \<in> set (events_of ps). breaks_pipe ev)"
proof -
  note run = main_loop_run [OF reachable.start assms(2,3)]
  have main: "server_main sq argv k ps p = map_option (\<lambda>r. (r, p')) (main_loop sq ps (initial_server d))"
    using assms(1) by (cases "main_loop sq ps (initial_server d)") (simp_all add: server_main_def)
  show ?thesis
    unfolding main using run
    by (auto simp: list_ex_iff split: option.split outcome.split status.split)
qed

theorem server_runs_witness:
  "\<exists>st p. server_main list_sqlite sample_argv sample_boot
     [Poll [Listen_Ready False [(7, admitted)] Accept_Would_Block], Poll []] sample_process = Some (Running st, p)"
proof -
  let ?w = "\<lparr>ready_listenfd = 3, ready_epollfd = 4, watches_stdin = True, logs = True\<rparr>"
  let ?ps = "[Poll [Listen_Ready False [(7, admitted)] Accept_Would_Block], Poll []]"
  obtain p where p: "start_server list_sqlite sample_argv sample_boot sample_process = Some (Running ([], ?w), p)"
    using sample_starts by blast
  have "feasible list_sqlite (watches_stdin ?w) [] (initial_server []) ?ps"
    by (simp add: batch_possible_def MAX_EVENTS_def split: option.split outcome.split)
  from server_runs [OF p list_sqlite_ok this] have "\<exists>r q. server_main list_sqlite sample_argv sample_boot ?ps sample_process
      = Some (r, q) \<and> (\<forall>code. r \<noteq> Exited code)"
    by (auto simp: events_of_def admitted_def split: option.splits outcome.splits status.splits prod.splits)
  then show ?thesis by (metis outcome.exhaust)
qed

text \<open>
  (C24) A client can end the server by closing its connection at the wrong time. Let the writes of an
  event find the connection closed by the peer after some calls that took \<open>rooms\<close> bytes (none, if the
  first write finds it closed); and let \<open>st1\<close> be the state after the event's read, if there is one. If the
  connection is then written to and the calls did not take all its output, the process is killed by
  \<open>SIGPIPE\<close>, which \<open>main\<close> neither ignores nor catches, and the other connections of the batch are not
  served; otherwise the write is never made and the server runs on.
\<close>

theorem broken_pipe_ends_server:
  assumes "reachable sq d (used, st)" "db_ok sq rows d"
    and "possible used st (Conn_Ready fd err chunks re rooms Write_Broken_Pipe)"
    and "(if has_flag (flags st ! fd) WANT_READ then handle_read_connection sq fd chunks re st else Some st) = Some st1"
  shows "if has_flag (flags st1 ! fd) WANT_WRITE \<and> (rooms = [] \<or> sum_list rooms < length (outgoing_buffers st1 ! fd))
    then handle_events sq (Conn_Ready fd err chunks re rooms Write_Broken_Pipe # evs) st = Some (Exited (Signalled SIGPIPE))
    else \<exists>st2. handle_event sq (Conn_Ready fd err chunks re rooms Write_Broken_Pipe) st = Some (Running st2)"
proof -
  from reachable_inv [OF assms(1,2)] have inv: "server_inv sq rows used st" by simp
  have reg: "epoll st fd \<noteq> None" using assms(3) by simp
  from active_registered [OF inv, of fd] reg have fd: "fd < get_size st" "has_flag (flags st ! fd) IS_ACTIVE" by simp_all
  have core: "core sq rows used st" using inv by (simp add: server_inv_def)
  note c = coreD [OF core]
  have st1: "st1 = (if has_flag (flags st ! fd) WANT_READ then read_effect sq rows fd (concat chunks) re st else st)"
    using assms(4) handle_read_effect [OF c(2) fd(1) c(3)] by (simp split: if_splits)
  have "conn_killed sq rows fd (concat chunks) re rooms Write_Broken_Pipe st \<longleftrightarrow>
      has_flag (flags st1 ! fd) WANT_WRITE \<and> (rooms = [] \<or> sum_list rooms < length (outgoing_buffers st1 ! fd))"
    by (auto simp: conn_killed_def pipe_breaks_def drain_emptied Let_def simp flip: st1)
  with conn_event(1) [OF inv fd, of err chunks re rooms Write_Broken_Pipe] show ?thesis
    by (simp add: conn_outcome_def del: handle_event.simps)
qed

theorem broken_pipe_ends_server_witness:
  "\<exists>st. reachable list_sqlite sample_users ([7], st) \<and>
     handle_events list_sqlite [Conn_Ready 7 False [encode_frame alice_logs_in] Read_Would_Block [7] Write_Broken_Pipe] st =
       Some (Exited (Signalled SIGPIPE))"
proof -
  obtain st st1 where st: "reachable list_sqlite sample_users ([7], st)" "epoll st 7 = Some EPOLLIN_ET"
    "has_flag (flags st ! 7) WANT_READ"
    "handle_read_connection list_sqlite 7 [encode_frame alice_logs_in] Read_Would_Block st = Some st1"
    "has_flag (flags st1 ! 7) WANT_WRITE" "7 < length (outgoing_buffers st1 ! 7)"
    using sample_login_read by blast
  have "possible [7] st (Conn_Ready 7 False [encode_frame alice_logs_in] Read_Would_Block [7] Write_Broken_Pipe)"
    using st(2) by simp
  from broken_pipe_ends_server [OF st(1) sample_db_ok this, of st1 "[]"] st show ?thesis
    by (auto simp del: handle_event.simps handle_events.simps)
qed

text \<open>
  Output drains: when a connection that the server is writing to is found writable more often
  than it has bytes queued, each time with room for at least one, everything queued is sent, in
  order, and the connection is reading again.
\<close>

theorem output_drains:
  assumes "reachable sq d (used, st)" "db_ok sq rows d" "epoll st fd = Some EPOLLOUT_ET"
    and "list_all (write_ready fd) evs" "length (outgoing_buffers st ! fd) < length evs"
  shows "\<exists>st'. handle_events sq evs st = Some (Running st') \<and> outgoing_buffers st' ! fd = [] \<and>
    wire st' fd = wire st fd @ outgoing_buffers st ! fd \<and> epoll st' fd = Some EPOLLIN_ET"
  using output_drained [of sq rows used st fd evs] reachable_inv [OF assms(1,2)] assms(3-5) by simp

theorem output_drains_witness:
  "\<exists>st st'. reachable list_sqlite sample_users ([7], st) \<and> outgoing_buffers st ! 7 \<noteq> [] \<and>
     handle_events list_sqlite
       (replicate (Suc (length (outgoing_buffers st ! 7))) (Conn_Ready 7 False [] Read_Would_Block [1] Write_Would_Block)) st =
       Some (Running st') \<and> outgoing_buffers st' ! 7 = []"
proof -
  obtain st where st: "reachable list_sqlite sample_users ([7], st)" "epoll st 7 = Some EPOLLOUT_ET"
    "outgoing_buffers st ! 7 = encode_frame (request_frame LOGIN
       (user_tlvs \<lparr>user_id = 1, username = str ''Alice'', password = str ''pw''\<rparr>))"
    using sample_logged_in by blast
  have ne: "outgoing_buffers st ! 7 \<noteq> []" by (simp add: st(3) encode_frame_def)
  let ?evs = "replicate (Suc (length (outgoing_buffers st ! 7))) (Conn_Ready 7 False [] Read_Would_Block [1] Write_Would_Block)"
  have "list_all (write_ready 7) ?evs" by (simp add: list_all_iff del: replicate.simps)
  from output_drains [OF st(1) sample_db_ok st(2) this] st(1) ne show ?thesis
    by (auto simp del: replicate.simps handle_events.simps)
qed

text \<open>
  (C18) What the server sends is well typed: in every reachable state all bytes written to a connection
  and queued for it are frames of version 1 with one of the response codes; a frame with an error
  code has no payload; and one without carries the id and name of a user in answer to a registration or
  login, or the sender, recipient and content of a chat message.
\<close>

theorem answers_well_typed:
  assumes "reachable sq d (used, st)" "db_ok sq rows d" "i < get_size st"
  shows "\<exists>fs. wire st i @ outgoing_buffers st ! i = encode_frames fs \<and>
    (\<forall>f \<in> set fs. f_version f = 1 \<and> (\<exists>e. f_rc f = word_of_int (rcode e)) \<and>
       (f_rc f \<noteq> 0 \<longrightarrow> f_payload f = []) \<and>
       (f_rc f = 0 \<longrightarrow>
         (\<exists>u. f_type f \<in> {mtype REGISTER, mtype LOGIN} \<and> f_payload f = encode_tlvs (user_tlvs u)) \<or>
         (\<exists>w. f_type f = mtype CHAT \<and> f_payload f = encode_tlvs (world_tlvs w)) \<or>
         (\<exists>q. f_type f = mtype CHAT \<and> f_payload f = encode_tlvs (p2p_tlvs q))))"
proof -
  from reachable_inv [OF assms(1,2)] coreD(4) [of sq rows used st i] assms(3) obtain fs where
    fs: "list_all answer_ok fs" "wire st i @ outgoing_buffers st ! i = encode_frames fs"
    by (auto simp: server_inv_def framed_def)
  have "f_version f = 1 \<and> (\<exists>e. f_rc f = word_of_int (rcode e)) \<and> (f_rc f \<noteq> 0 \<longrightarrow> f_payload f = []) \<and>
       (f_rc f = 0 \<longrightarrow>
         (\<exists>u. f_type f \<in> {mtype REGISTER, mtype LOGIN} \<and> f_payload f = encode_tlvs (user_tlvs u)) \<or>
         (\<exists>w. f_type f = mtype CHAT \<and> f_payload f = encode_tlvs (world_tlvs w)) \<or>
         (\<exists>q. f_type f = mtype CHAT \<and> f_payload f = encode_tlvs (p2p_tlvs q)))" if "f \<in> set fs" for f
    by (rule answer_typed_fields) (use fs(1) that in \<open>auto simp: list_all_iff answer_ok_def\<close>)
  with fs(2) show ?thesis by blast
qed

theorem answers_well_typed_witness:
  "\<exists>st fs. reachable list_sqlite sample_users ([7], st) \<and>
     wire st 7 @ outgoing_buffers st ! 7 = encode_frames fs \<and> (\<forall>f \<in> set fs. f_version f = 1)"
proof -
  obtain st where st: "reachable list_sqlite sample_users ([7], st)" "7 < get_size st"
    using sample_logged_in by blast
  from answers_well_typed [OF st(1) sample_db_ok st(2)] st(1) show ?thesis by blast
qed

section \<open>Broadcasts\<close>

text \<open>
  (C13) A world broadcast that an authenticated connection sends under its own name reaches exactly the
  other authenticated connections: each gets one copy of the frame at the end of its output and is put into the
  writing state, every other connection keeps its output and its flags, and the sender gets the
  same frame as its answer.
\<close>

theorem world_broadcast_delivered:
  assumes "same_sizes st" "fd < get_size st" "has_flag (flags st ! fd) IS_AUTH"
    and "payload_inside rq" "msg_payload rq = tag TAG_WORLD_BROADCAST # pl"
    and "world_of (msg_payload rq) = Some (usernames st ! fd, content)" "content \<noteq> []"
  defines "f \<equiv> request_frame CHAT (world_tlvs \<lparr>world_sender_username = usernames st ! fd,
      world_message_content = content\<rparr>)"
  shows "\<exists>m st'. handle_broadcast_message fd rq empty_response st = Some (rcode RESP_OK, m, st') \<and>
    message_ok m \<and> message_frame m = f \<and>
    (\<forall>j < get_size st.
       outgoing_buffers st' ! j = outgoing_buffers st ! j @
         (if j \<noteq> fd \<and> has_flag (flags st ! j) IS_AUTH then encode_frame f else []) \<and>
       flags st' ! j = (if j \<noteq> fd \<and> has_flag (flags st ! j) IS_AUTH
         then state_flags WRITING (flags st ! j) else flags st ! j))"
proof -
  have mem: "payload_mem rq \<noteq> []" using assms(4,5) by (auto simp: msg_payload_def)
  have v: "broadcast_verdict fd (msg_payload rq) st = Inr (f, other_authenticated fd st)"
    using assms(3,5,6,7) by (simp add: broadcast_verdict_def f_def)
  from handle_broadcast_verdict [OF assms(1,2,4) mem empty_response_buffer, unfolded v] obtain m where
    "handle_broadcast_message fd rq empty_response st = Some (rcode RESP_OK, m,
       deliver (other_authenticated fd st) (encode_frame f) st)" "message_ok m" "message_frame m = f"
    by (auto simp: verdict_code_def broadcast_effect_def broadcast_frame_def)
  then show ?thesis
    by (intro exI conjI) (auto simp: deliver_nth other_authenticated_def simp del: state_flags.simps)
qed

theorem world_broadcast_delivered_witness:
  "\<exists>m st'. handle_broadcast_message 0 (sample_message CHAT alice_greets) empty_response sample_server =
      Some (0, m, st') \<and>
    outgoing_buffers st' ! 1 = encode_frame (message_frame m) \<and> outgoing_buffers st' ! 2 = []"
proof -
  note facts = alice_greets_facts
  have zero: "0 < get_size sample_server" by simp
  have ne: "str ''hi'' \<noteq> []" by (simp add: str_def)
  have own: "world_of (msg_payload (sample_message CHAT alice_greets)) = Some (usernames sample_server ! 0, str ''hi'')"
    using facts(2,4) by simp
  from world_broadcast_delivered [OF sample_sizes zero sample_server_auth(1) facts(1) trans [OF facts(2,3)] own ne]
  obtain m st' where m: "handle_broadcast_message 0 (sample_message CHAT alice_greets) empty_response sample_server =
      Some (rcode RESP_OK, m, st')" and eff: "\<forall>j < get_size sample_server.
       outgoing_buffers st' ! j = outgoing_buffers sample_server ! j @
         (if j \<noteq> 0 \<and> has_flag (flags sample_server ! j) IS_AUTH then encode_frame (message_frame m) else [])"
    by metis
  from eff sample_server_auth have "outgoing_buffers st' ! 1 = encode_frame (message_frame m)"
    "outgoing_buffers st' ! 2 = []" by simp_all
  with m show ?thesis by auto
qed

text \<open>
  (C14) A peer-to-peer message sent under the sender's own name goes to exactly one connection, the authenticated one with the lowest
  descriptor, other than the sender's, that carries the recipient's name; if there is none the
  sender is told \<open>RESP_ERROR_USER_NOT_FOUND\<close> and nothing is delivered.
\<close>

theorem p2p_broadcast_delivered:
  assumes "same_sizes st" "fd < get_size st" "has_flag (flags st ! fd) IS_AUTH"
    and "payload_inside rq" "msg_payload rq = tag TAG_P2P_BROADCAST # pl"
    and "p2p_of (msg_payload rq) = Some (usernames st ! fd, name, content)" "content \<noteq> []" "usernames st ! fd \<noteq> name"
  defines "f \<equiv> request_frame CHAT (p2p_tlvs \<lparr>p2p_sender_username = usernames st ! fd,
      p2p_recipient_username = name, p2p_message_content = content\<rparr>)"
    and "candidate \<equiv> \<lambda>j. j < get_size st \<and> j \<noteq> fd \<and> has_flag (flags st ! j) IS_AUTH \<and> usernames st ! j = name"
  shows "\<exists>c m st'. handle_broadcast_message fd rq empty_response st = Some (c, m, st') \<and> message_ok m \<and>
    (if \<exists>j. candidate j
     then c = rcode RESP_OK \<and> message_frame m = f \<and>
       st' = deliver (\<lambda>j. j = (LEAST j. candidate j)) (encode_frame f) st
     else c = rcode RESP_ERROR_USER_NOT_FOUND \<and> st' = st \<and>
       message_frame m = error_frame (mtype CHAT) RESP_ERROR_USER_NOT_FOUND)"
proof -
  have mem: "payload_mem rq \<noteq> []" using assms(4,5) by (auto simp: msg_payload_def)
  note run = handle_broadcast_verdict [OF assms(1,2,4) mem empty_response_buffer, simplified]
  have cand: "other_authenticated fd st j \<and> usernames st ! j = name \<longleftrightarrow> candidate j" for j
    by (auto simp: candidate_def other_authenticated_def)
  show ?thesis
  proof (cases "recipient_of fd name st")
    case None
    then have none: "\<not> candidate j" for j
      using cand [of j] by (auto simp: recipient_of_def find_None_iff candidate_def)
    from None assms(3,5-8) have "broadcast_verdict fd (msg_payload rq) st = Inl RESP_ERROR_USER_NOT_FOUND"
      by (simp add: broadcast_verdict_def)
    with run none show ?thesis
      by (auto simp: verdict_code_def broadcast_effect_def broadcast_frame_def)
  next
    case (Some j)
    then have j: "candidate j" using recipient_of_Some cand by blast
    moreover have "(LEAST j. candidate j) = j"
    proof (rule Least_equality [where P = candidate, OF j])
      fix k assume k: "candidate k"
      from Some obtain i where i: "i < get_size st" "[0..<get_size st] ! i = j"
          "\<forall>l < i. \<not> candidate ([0..<get_size st] ! l)"
        using cand by (auto simp: recipient_of_def find_Some_iff)
      then show "j \<le> k" using k by (cases "k < i") (auto simp: candidate_def)
    qed
    moreover from Some assms(3,5-8)
    have "broadcast_verdict fd (msg_payload rq) st = Inr (f, \<lambda>i. i = j)"
      by (simp add: broadcast_verdict_def f_def)
    ultimately show ?thesis
      using run by (auto simp: verdict_code_def broadcast_effect_def broadcast_frame_def)
  qed
qed

theorem p2p_broadcast_delivered_witness:
  "\<exists>c m st'. handle_broadcast_message 0 (sample_message CHAT alice_tells_bob) empty_response sample_server =
      Some (c, m, st') \<and> c = 0 \<and> outgoing_buffers st' ! 1 = encode_frame (message_frame m)"
proof -
  note facts = alice_tells_bob_facts
  have zero: "0 < get_size sample_server" by simp
  have ne: "str ''psst'' \<noteq> []" "usernames sample_server ! 0 \<noteq> str ''bob''" by (simp_all add: str_def)
  have bob: "(LEAST j. j < get_size sample_server \<and> j \<noteq> 0 \<and> has_flag (flags sample_server ! j) IS_AUTH \<and>
      usernames sample_server ! j = str ''bob'') = 1"
    using sample_server_auth(2) by (intro Least_equality) auto
  have ex: "\<exists>j. j < get_size sample_server \<and> j \<noteq> 0 \<and> has_flag (flags sample_server ! j) IS_AUTH \<and>
      usernames sample_server ! j = str ''bob''"
    using sample_server_auth(2) by (intro exI [of _ 1]) simp
  have own: "p2p_of (msg_payload (sample_message CHAT alice_tells_bob)) =
      Some (usernames sample_server ! 0, str ''bob'', str ''psst'')"
    using facts(2,4) by simp
  from p2p_broadcast_delivered [OF sample_sizes zero sample_server_auth(1) facts(1) trans [OF facts(2,3)] own ne] bob ex
  show ?thesis by (auto simp: deliver_nth)
qed

text \<open>
  A connection that has not logged in cannot send: its broadcast is refused with
  \<open>RESP_ERROR_INVALID_CREDENTIALS\<close> before the payload is looked at, and the state is unchanged.
\<close>

theorem unauthenticated_broadcast_refused:
  assumes "fd < get_size st" "\<not> has_flag (flags st ! fd) IS_AUTH"
  shows "handle_broadcast_message fd rq rs st = Some (rcode RESP_ERROR_INVALID_CREDENTIALS,
    build_server_response (mtype CHAT) (rcode RESP_ERROR_INVALID_CREDENTIALS) None 0, st)"
  using assms by (simp add: handle_broadcast_message_def at_in get_size_def)

theorem unauthenticated_broadcast_refused_witness:
  "handle_broadcast_message 2 (sample_message CHAT alice_says) empty_response sample_server =
     Some (4, build_server_response 2 4 None 0, sample_server)"
  using unauthenticated_broadcast_refused [of 2 sample_server] sample_server_auth(3) by simp

text \<open>
  The sender of a broadcast cannot be forged: whatever sender name a request claims, every
  frame the server delivers for it, to others or back to the sender, parses to a broadcast whose
  sender is the name the connection is logged in under.
\<close>

theorem sender_not_forgeable:
  assumes "same_sizes st" "fd < get_size st" "payload_inside rq" "payload_mem rq \<noteq> []"
    and "length (usernames st ! fd) \<le> MAX_USERNAME_SIZE"
    and "handle_broadcast_message fd rq empty_response st = Some (rcode RESP_OK, m, st')"
  shows "((\<exists>claimed content. world_of (msg_payload rq) = Some (claimed, content) \<and>
      world_of (f_payload (message_frame m)) = Some (usernames st ! fd, content)) \<or>
    (\<exists>claimed name content. p2p_of (msg_payload rq) = Some (claimed, name, content) \<and>
      p2p_of (f_payload (message_frame m)) = Some (usernames st ! fd, name, content))) \<and>
    (\<forall>j < get_size st. outgoing_buffers st' ! j = outgoing_buffers st ! j \<or>
       outgoing_buffers st' ! j = outgoing_buffers st ! j @ encode_frame (message_frame m))"
proof -
  let ?v = "broadcast_verdict fd (msg_payload rq) st"
  from handle_broadcast_verdict [OF assms(1-4) empty_response_buffer] assms(6)
  have r: "verdict_code ?v = 0" "message_frame m = broadcast_frame ?v" "st' = broadcast_effect ?v st" by auto
  with verdict_not_ok obtain f to where v: "?v = Inr (f, to)"
    by (cases ?v) (auto simp: verdict_code_def)
  with verdict_sender [OF v assms(5)] r show ?thesis
    by (auto simp: broadcast_frame_def broadcast_effect_def deliver_nth)
qed

theorem sender_not_forgeable_witness:
  "\<exists>m st'. handle_broadcast_message 0 (sample_message CHAT alice_says) empty_response sample_server =
      Some (0, m, st') \<and> world_of (f_payload (message_frame m)) = Some (str ''Alice'', str ''hi'')"
proof -
  note facts = alice_says_facts
  have zero: "0 < get_size sample_server" by simp
  have mem: "payload_mem (sample_message CHAT alice_says) \<noteq> []"
    using facts(2,3) by (auto simp: msg_payload_def)
  have tag: "\<exists>pl. msg_payload (sample_message CHAT alice_says) = 4 # pl"
    using trans [OF facts(2,3)] by auto
  have v: "broadcast_verdict 0 (msg_payload (sample_message CHAT alice_says)) sample_server = Inr
      (request_frame CHAT (world_tlvs \<lparr>world_sender_username = str ''Alice'', world_message_content = str ''hi''\<rparr>),
       other_authenticated 0 sample_server)"
    using facts(4) [folded facts(2)] tag sample_server_auth(1)
    by (auto simp: broadcast_verdict_def str_def)
  from handle_broadcast_verdict [OF sample_sizes zero facts(1) mem empty_response_buffer, unfolded v]
  obtain m st' where run: "handle_broadcast_message 0 (sample_message CHAT alice_says) empty_response sample_server =
      Some (rcode RESP_OK, m, st')" by (auto simp: verdict_code_def)
  have "\<not> (\<exists>x. p2p_of (msg_payload (sample_message CHAT alice_says)) = Some x)"
  proof -
    have "last_value (tag TAG_P2P_BROADCAST) alice_says = None"
      by (simp add: alice_says_def world_tlvs_def)
    then show ?thesis
      using chat_tlvs_split(1) by (simp add: facts(2) p2p_of_def) (simp add: alice_says_def p2p_of_def)
  qed
  with sender_not_forgeable [OF sample_sizes zero facts(1) mem _ run] run facts(4) [folded facts(2)]
  show ?thesis by (auto simp: str_def size_defs)
qed

section \<open>Registration and login\<close>

text \<open>
  (C15) A login is decided by the accounts alone: malformed requests, unknown names (compared
  without regard to case) and wrong passwords are refused with their own code and leave the state
  unchanged; otherwise the connection is authenticated under the account's stored name and id and
  answered with them. There is no other outcome.
\<close>

theorem login_decided:
  assumes "db_ok sq rows (db st)" "same_sizes st" "fd < get_size st" "payload_inside rq"
  defines "v \<equiv> login_verdict (account rows (db st)) (msg_payload rq)"
  shows "\<exists>m. login_user sq fd rq empty_response st = Some (verdict_code v, m,
      case v of Inl _ \<Rightarrow> st | Inr a \<Rightarrow> authenticate fd a st) \<and>
    message_ok m \<and> message_frame m = verdict_frame LOGIN v"
  unfolding v_def by (rule login_user_verdict [OF assms(1-4) empty_response_buffer]) simp

theorem login_decided_witness:
  "\<exists>m st'. login_user list_sqlite 2 (sample_message LOGIN (credential_tlvs (str ''ALICE'') (str ''pw'')))
      empty_response sample_server = Some (0, m, st') \<and> usernames st' ! 2 = str ''Alice'' \<and>
      has_flag (flags st' ! 2) IS_AUTH"
proof -
  let ?rq = "sample_message LOGIN (credential_tlvs (str ''ALICE'') (str ''pw''))"
  have rq: "payload_inside ?rq" "msg_payload ?rq = f_payload alice_logs_in"
    by (rule sample_message_payload, simp add: credential_tlvs_def str_def)
      (subst sample_message_payload(2), simp_all add: credential_tlvs_def str_def alice_logs_in_def request_frame_def)
  from login_decided [where sq = list_sqlite and st = sample_server and fd = 2 and rows = "\<lambda>d. d", OF _ sample_sizes _ rq(1)]
    sample_db_ok alice_verdict rq(2)
  show ?thesis by (auto simp: verdict_code_def authenticate_def flag_simps)
qed

text \<open>
  A registration never touches anything but the database, and there it either leaves every
  account alone and answers with an error, or adds exactly one account, under a name that was free
  (up to case), with the sent name and password up to their first NUL, and answers with its id.
\<close>

theorem registration_stores_account:
  assumes "db_ok sq rows (db st)" "payload_inside rq"
  shows "\<exists>c m d. register_user sq rq empty_response st = Some (c, m, st\<lparr>db := d\<rparr>) \<and>
    message_ok m \<and> db_ok sq rows d \<and>
    ((account rows d = account rows (db st) \<and>
        message_frame m \<in> error_frame (mtype REGISTER) `
          {RESP_ERROR_MALFORMED, RESP_ERROR_USER_EXISTS, RESP_ERROR_INTERNAL}) \<or>
     (\<exists>u p i. credentials_of (msg_payload rq) = Some (u, p) \<and> account rows (db st) (account_key u) = None \<and>
        message_frame m = request_frame REGISTER (user_tlvs \<lparr>user_id = i, username = u, password = p\<rparr>) \<and>
        account rows d = (account rows (db st))
          (account_key u \<mapsto> \<lparr>user_id = i, username = c_str u, password = c_str p\<rparr>)))"
proof -
  obtain f st' where eff: "register_effect sq rows (msg_payload rq) st = (f, st')" by (rule prod.exhaust)
  from register_user_effect [where st = st, OF assms(1,2) empty_response_buffer] eff obtain c m where
    "register_user sq rq empty_response st = Some (c, m, st')" "message_ok m" "message_frame m = f" by auto
  moreover have "st' = st\<lparr>db := db st'\<rparr>" using register_effect_accounts [OF assms(1) eff] by blast
  ultimately have "register_user sq rq empty_response st = Some (c, m, st\<lparr>db := db st'\<rparr>)" by simp
  with register_effect_accounts [OF assms(1) eff] \<open>message_ok m\<close> \<open>message_frame m = f\<close> show ?thesis
    by (intro exI [of _ c] exI [of _ m] exI [of _ "db st'"]) auto
qed

theorem registration_stores_account_witness:
  "\<exists>c m d. register_user list_sqlite (sample_message REGISTER (credential_tlvs (str ''carol'') (str ''x'')))
     empty_response sample_server = Some (c, m, sample_server\<lparr>db := d\<rparr>) \<and> db_ok list_sqlite (\<lambda>d. d) d"
proof -
  have "payload_inside (sample_message REGISTER (credential_tlvs (str ''carol'') (str ''x'')))"
    by (rule sample_message_payload) (simp add: credential_tlvs_def str_def)
  with registration_stores_account [where sq = list_sqlite and st = sample_server and rows = "\<lambda>d. d"] sample_db_ok
  show ?thesis by fastforce
qed

text \<open>
  (C16) Registering and then logging in works: after a registration of \<open>u\<close> with a password \<open>p\<close>
  free of NULs has succeeded, a login on any connection under any casing of \<open>u\<close> is accepted exactly
  when it sends \<open>p\<close>, and is then authenticated under the name that was registered.
\<close>

theorem register_then_login:
  assumes "db_ok sq rows (db st)" "same_sizes st" "fd < get_size st"
    and "payload_inside rq" "credentials_of (msg_payload rq) = Some (u, p)" "0 \<notin> set u" "0 \<notin> set p"
    and "register_user sq rq empty_response st = Some (rcode RESP_OK, m, st')"
    and "payload_inside lq" "credentials_of (msg_payload lq) = Some (n, q)"
    and "string_to_lower n = string_to_lower u"
  shows "\<exists>c m' st''. login_user sq fd lq empty_response st' = Some (c, m', st'') \<and>
    (if q = p then c = rcode RESP_OK \<and> usernames st'' ! fd = u \<and> has_flag (flags st'' ! fd) IS_AUTH
     else c = rcode RESP_ERROR_INVALID_CREDENTIALS \<and> st'' = st')"
proof -
  obtain f s where eff: "register_effect sq rows (msg_payload rq) st = (f, s)" by (rule prod.exhaust)
  from register_user_effect [where st = st, OF assms(1,4) empty_response_buffer] eff assms(8)
  have s: "s = st'" and f: "message_frame m = f" by auto
  from register_ok_verdict [OF assms(1,4) empty_response_buffer _ assms(8)] obtain i where
    acc: "account rows (db st') = (account rows (db st))
      (account_key u \<mapsto> \<lparr>user_id = i, username = c_str u, password = c_str p\<rparr>)"
    using assms(5) by auto
  have "request_effect sq rows fd (mtype REGISTER) (msg_payload rq) st = (f, st')"
    using eff s by (simp add: request_effect_def)
  note kept = keptD [OF kept_effect [OF this]]
  have ok: "db_ok sq rows (db st')" "same_sizes st'" "fd < get_size st'"
    using register_effect_accounts [OF assms(1) eff] kept assms(2,3) s by auto
  have "0 \<notin> set n"
  proof
    assume "0 \<in> set n"
    then have "0 \<in> set (string_to_lower n)" by (force simp: string_to_lower_def)
    then have "0 \<in> set (string_to_lower u)" by (simp add: assms(11))
    then show False using assms(6) by (auto simp: string_to_lower_def)
  qed
  then have key: "account_key n = account_key u" using assms(6,11) by (simp add: account_key_def)
  from login_after_register [OF acc assms(10) key] assms(6,7)
  have "login_verdict (account rows (db st')) (msg_payload lq) =
      (if q = p then Inr \<lparr>user_id = i, username = u, password = p\<rparr> else Inl RESP_ERROR_INVALID_CREDENTIALS)"
    by simp
  with login_user_verdict [where st = st', OF ok assms(9) empty_response_buffer] ok show ?thesis
    by (cases "q = p")
      (auto simp: verdict_code_def authenticate_def same_sizes_def get_size_def flag_simps)
qed

theorem register_then_login_witness:
  "\<exists>m st' c m' st''. register_user list_sqlite (sample_message REGISTER (credential_tlvs (str ''carol'') (str ''x'')))
      empty_response sample_server = Some (0, m, st') \<and>
    login_user list_sqlite 2 (sample_message LOGIN (credential_tlvs (str ''CaRoL'') (str ''x''))) empty_response st'
      = Some (c, m', st'') \<and> c = 0 \<and> usernames st'' ! 2 = str ''carol''"
proof -
  obtain m st' where run: "register_user list_sqlite (sample_message REGISTER (credential_tlvs (str ''carol'') (str ''x'')))
      empty_response sample_server = Some (rcode RESP_OK, m, st')"
    using carol_registered by blast
  have nul: "0 \<notin> set (str ''carol'')" "0 \<notin> set (str ''x'')"
    and same: "string_to_lower (str ''CaRoL'') = string_to_lower (str ''carol'')"
    by (simp_all add: str_def string_to_lower_def tolower_def)
  from register_then_login [where sq = list_sqlite and st = sample_server and rows = "\<lambda>d. d" and fd = 2,
      OF _ sample_sizes _ carol_registers(1,2) nul run carol_registers(5,6) same] sample_db_ok run
  show ?thesis by auto
qed

text \<open>
  User names are unique up to case: once a registration has succeeded, every further
  registration of the same name in any casing is refused with \<open>RESP_ERROR_USER_EXISTS\<close> and changes
  nothing.
\<close>

theorem registered_name_is_taken:
  assumes "db_ok sq rows (db st)"
    and "payload_inside rq" "credentials_of (msg_payload rq) = Some (u, p)"
    and "register_user sq rq empty_response st = Some (rcode RESP_OK, m, st')"
    and "payload_inside rq'" "credentials_of (msg_payload rq') = Some (n, q)"
    and "string_to_lower (c_str n) = string_to_lower (c_str u)"
  shows "\<exists>m'. register_user sq rq' empty_response st' = Some (rcode RESP_ERROR_USER_EXISTS, m', st') \<and>
    message_frame m' = error_frame (mtype REGISTER) RESP_ERROR_USER_EXISTS"
proof -
  obtain f s where eff: "register_effect sq rows (msg_payload rq) st = (f, s)" by (rule prod.exhaust)
  from register_user_effect [where st = st, OF assms(1,2) empty_response_buffer] eff assms(4)
  have s: "s = st'" by auto
  with register_effect_accounts [OF assms(1) eff] have ok: "db_ok sq rows (db st')" by simp
  from register_ok_verdict [OF assms(1,2) empty_response_buffer _ assms(4)] assms(3) obtain i where
    acc: "account rows (db st') = (account rows (db st))
      (account_key u \<mapsto> \<lparr>user_id = i, username = c_str u, password = c_str p\<rparr>)" by auto
  have "account_key n = account_key u" using assms(7) by (simp add: account_key_def)
  from register_twice [OF acc assms(6) this]
  have "register_effect sq rows (msg_payload rq') st' = (error_frame (mtype REGISTER) RESP_ERROR_USER_EXISTS, st')"
    by (simp add: register_effect_def)
  with register_user_effect [where st = st', OF ok assms(5) empty_response_buffer] show ?thesis
    by (auto simp: error_frame_def)
qed

theorem registered_name_is_taken_witness:
  "\<exists>m st' m'. register_user list_sqlite (sample_message REGISTER (credential_tlvs (str ''carol'') (str ''x'')))
      empty_response sample_server = Some (0, m, st') \<and>
    register_user list_sqlite (sample_message REGISTER (credential_tlvs (str ''Carol'') (str ''y'')))
      empty_response st' = Some (2, m', st')"
proof -
  note rq = carol_registers(1,2) and rq' = carol_registers(3,4)
  obtain m st' where run: "register_user list_sqlite (sample_message REGISTER (credential_tlvs (str ''carol'') (str ''x'')))
      empty_response sample_server = Some (rcode RESP_OK, m, st')"
    using carol_registered by blast
  have "string_to_lower (c_str (str ''Carol'')) = string_to_lower (c_str (str ''carol''))"
    by (simp add: str_def string_to_lower_def tolower_def)
  from registered_name_is_taken [where sq = list_sqlite and st = sample_server and rows = "\<lambda>d. d",
      OF _ rq run rq' this] sample_db_ok run show ?thesis by auto
qed

text \<open>
  (C37) What happens to a password with a NUL byte: it is accepted and stored only up to the NUL, and
  the user cannot log in with the password they registered; the truncated one is what works.
\<close>

theorem nul_in_password_locks_out:
  assumes "db_ok sq rows (db st)" "same_sizes st" "fd < get_size st"
    and "payload_inside rq" "credentials_of (msg_payload rq) = Some (u, p)" "0 \<in> set p"
    and "register_user sq rq empty_response st = Some (rcode RESP_OK, m, st')"
    and "payload_inside lq" "credentials_of (msg_payload lq) = Some (u, q)"
  shows "\<exists>c m' st''. login_user sq fd lq empty_response st' = Some (c, m', st'') \<and>
    (c = rcode RESP_OK \<longleftrightarrow> q = c_str p) \<and> (q = p \<longrightarrow> c = rcode RESP_ERROR_INVALID_CREDENTIALS \<and> st'' = st')"
proof -
  obtain f s where eff: "register_effect sq rows (msg_payload rq) st = (f, s)" by (rule prod.exhaust)
  from register_user_effect [where st = st, OF assms(1,4) empty_response_buffer] eff assms(7)
  have s: "s = st'" by auto
  from register_ok_verdict [OF assms(1,4) empty_response_buffer _ assms(7)] assms(5) obtain i where
    acc: "account rows (db st') = (account rows (db st))
      (account_key u \<mapsto> \<lparr>user_id = i, username = c_str u, password = c_str p\<rparr>)" by auto
  have "request_effect sq rows fd (mtype REGISTER) (msg_payload rq) st = (f, st')"
    using eff s by (simp add: request_effect_def)
  note kept = keptD [OF kept_effect [OF this]]
  have ok: "db_ok sq rows (db st')" "same_sizes st'" "fd < get_size st'"
    using register_effect_accounts [OF assms(1) eff] kept assms(2,3) s by auto
  have "p \<noteq> c_str p" using c_str_no_nul [of p] assms(6) by auto
  with login_after_register [OF acc assms(9) refl] login_user_verdict [where st = st', OF ok assms(8) empty_response_buffer]
  show ?thesis by (cases "q = c_str p") (auto simp: verdict_code_def)
qed

theorem nul_in_password_locks_out_witness:
  "\<exists>m st' c m' st''. register_user list_sqlite (sample_message REGISTER (credential_tlvs (str ''dave'') [97, 0, 98]))
      empty_response sample_server = Some (0, m, st') \<and>
    login_user list_sqlite 2 (sample_message LOGIN (credential_tlvs (str ''dave'') [97, 0, 98])) empty_response st'
      = Some (c, m', st'') \<and> c = 4"
proof -
  obtain m st' where run: "register_user list_sqlite (sample_message REGISTER (credential_tlvs (str ''dave'') [97, 0, 98]))
      empty_response sample_server = Some (rcode RESP_OK, m, st')"
    using dave_registered by blast
  from nul_in_password_locks_out [where sq = list_sqlite and st = sample_server and rows = "\<lambda>d. d" and fd = 2,
      OF _ sample_sizes _ dave_registers(1,2) _ run dave_registers(3,4)] sample_db_ok run
  show ?thesis by auto
qed

section \<open>The protocol\<close>

text \<open>
  (C27) What a client registers or logs in with is what the server reads: for every user name and
  password within the limits, the request that the client builds, cut to the reported length and
  parsed as the server parses it, has the right type and gives back the credentials.
\<close>

theorem auth_request_roundtrip:
  assumes "length u \<le> MAX_USERNAME_SIZE" "length p \<le> MAX_PASSWORD_SIZE"
    and "MSG_HEADER_SIZE + MSG_MAX_PAYLOAD_SIZE \<le> length buf"
  shows "(\<exists>b len m. build_register_request buf \<lparr>reg_username = u, reg_password = p\<rparr> n = Some (0, b, len) \<and>
      parse_message (take (unat len) b) m0 = Some m \<and> msg_type m = mtype REGISTER \<and>
      parse_register_request m c = Some (0, \<lparr>reg_username = u, reg_password = p\<rparr>)) \<and>
    (\<exists>b len m. build_login_request buf \<lparr>login_username = u, login_password = p\<rparr> n = Some (0, b, len) \<and>
      parse_message (take (unat len) b) m0 = Some m \<and> msg_type m = mtype LOGIN \<and>
      parse_login_request m c' = Some (0, \<lparr>login_username = u, login_password = p\<rparr>))"
proof -
  have len: "length (encode_tlvs (credential_tlvs u p)) \<le> MSG_MAX_PAYLOAD_SIZE" "credential_tlvs u p \<noteq> []"
    using assms(1,2) by (simp_all add: credential_tlvs_def size_defs)
  note recv = request_received [OF len assms(3)]
  note creds = credentials_of_encode [OF assms(1,2)]
  from recv [of REGISTER m0] obtain m where
    "parse_message (take (unat (u32_cast (length (encode_frame (request_frame REGISTER (credential_tlvs u p))))))
       (overwrite buf 0 (encode_frame (request_frame REGISTER (credential_tlvs u p))))) m0 = Some m"
    "msg_type m = mtype REGISTER" "payload_inside m" "msg_payload m = encode_tlvs (credential_tlvs u p)" by blast
  moreover from recv [of LOGIN m0] obtain m' where
    "parse_message (take (unat (u32_cast (length (encode_frame (request_frame LOGIN (credential_tlvs u p))))))
       (overwrite buf 0 (encode_frame (request_frame LOGIN (credential_tlvs u p))))) m0 = Some m'"
    "msg_type m' = mtype LOGIN" "payload_inside m'" "msg_payload m' = encode_tlvs (credential_tlvs u p)" by blast
  ultimately show ?thesis
    using build_register_request_frame [of "\<lparr>reg_username = u, reg_password = p\<rparr>" buf n]
      build_login_request_frame [of "\<lparr>login_username = u, login_password = p\<rparr>" buf n] assms
      parse_register_request_spec [of m c] parse_login_request_spec [of m' c'] creds
    by (simp del: of_nat_add)
qed

theorem auth_request_roundtrip_witness:
  "\<exists>b len m. build_login_request (replicate 4103 0) \<lparr>login_username = str ''bob'', login_password = []\<rparr> 0
      = Some (0, b, len) \<and> parse_message (take (unat len) b) message_zero = Some m \<and>
    parse_login_request m \<lparr>login_username = [], login_password = []\<rparr> =
      Some (0, \<lparr>login_username = str ''bob'', login_password = []\<rparr>)"
  using auth_request_roundtrip [of "str ''bob''" "[]" "replicate 4103 0" 0 message_zero]
  by (fastforce simp: str_def size_defs)

text \<open>
  (C28) The same for chat messages: every world broadcast and every peer-to-peer message within the
  limits (with different sender and recipient) arrives at the server as it was built.
\<close>

theorem chat_request_roundtrip:
  assumes "length s \<le> MAX_USERNAME_SIZE" "length r \<le> MAX_USERNAME_SIZE" "s \<noteq> r"
    and "length c \<le> MAX_MSG_CONTENT_SIZE" "MSG_HEADER_SIZE + MSG_MAX_PAYLOAD_SIZE \<le> length buf"
  defines "w \<equiv> \<lparr>world_sender_username = s, world_message_content = c\<rparr>"
    and "q \<equiv> \<lparr>p2p_sender_username = s, p2p_recipient_username = r, p2p_message_content = c\<rparr>"
  shows "(\<exists>b len m. build_world_broadcast_request buf w n = Some (0, b, len) \<and>
      parse_message (take (unat len) b) m0 = Some m \<and> msg_type m = mtype CHAT \<and>
      parse_world_broadcast m w0 = Some (0, w)) \<and>
    (\<exists>b len m. build_p2p_broadcast_request buf q n = Some (0, b, len) \<and>
      parse_message (take (unat len) b) m0 = Some m \<and> msg_type m = mtype CHAT \<and>
      parse_p2p_broadcast m q0 = Some (0, q))"
proof -
  have ne: "world_tlvs w \<noteq> []" "p2p_tlvs q \<noteq> []" by (simp_all add: world_tlvs_def p2p_tlvs_def)
  from request_received [OF chat_tlvs_short(1) ne(1) assms(5), of CHAT m0] obtain m where
    "parse_message (take (unat (u32_cast (length (encode_frame (request_frame CHAT (world_tlvs w))))))
       (overwrite buf 0 (encode_frame (request_frame CHAT (world_tlvs w))))) m0 = Some m"
    "msg_type m = mtype CHAT" "payload_inside m" "msg_payload m = encode_tlvs (world_tlvs w)" by blast
  moreover from request_received [OF chat_tlvs_short(2) ne(2) assms(5), of CHAT m0] obtain m' where
    "parse_message (take (unat (u32_cast (length (encode_frame (request_frame CHAT (p2p_tlvs q))))))
       (overwrite buf 0 (encode_frame (request_frame CHAT (p2p_tlvs q))))) m0 = Some m'"
    "msg_type m' = mtype CHAT" "payload_inside m'" "msg_payload m' = encode_tlvs (p2p_tlvs q)" by blast
  moreover have "world_of (encode_tlvs (world_tlvs w)) = Some (s, c)"
    "p2p_of (encode_tlvs (p2p_tlvs q)) = Some (s, r, c)"
    using world_of_encode [of w] p2p_of_encode [of q] assms(1,2,4) by (simp_all add: w_def q_def)
  ultimately show ?thesis
    using build_world_broadcast_request_frame [of w buf n] build_p2p_broadcast_request_frame [of q buf n] assms
      parse_world_broadcast_spec [of m w0] parse_p2p_broadcast_spec [of m' q0]
    by (simp del: of_nat_add)
qed

theorem chat_request_roundtrip_witness:
  "\<exists>b len m. build_world_broadcast_request (replicate 4103 0)
      \<lparr>world_sender_username = str ''bob'', world_message_content = str ''hi''\<rparr> 0 = Some (0, b, len) \<and>
    parse_message (take (unat len) b) message_zero = Some m \<and>
    parse_world_broadcast m world_zero =
      Some (0, \<lparr>world_sender_username = str ''bob'', world_message_content = str ''hi''\<rparr>)"
  using chat_request_roundtrip [of "str ''bob''" "[]" "str ''hi''" "replicate 4103 0" 0 message_zero world_zero]
  by (fastforce simp: str_def size_defs)

text \<open>
  (C26) The server's parsers decide every payload, however malformed: each gives exactly the fields
  the payload's pairs carry (unknown tags skipped, the last of repeated fields taken), or
  \<open>RESP_ERROR_MALFORMED\<close> when a pair is cut short, a field is too long or one is missing. They never
  read outside the message.
\<close>

theorem request_parsers_decide:
  assumes "payload_inside m"
  shows "(case credentials_of (msg_payload m) of
      Some (u, p) \<Rightarrow> parse_register_request m c = Some (0, \<lparr>reg_username = u, reg_password = p\<rparr>) \<and>
        parse_login_request m l = Some (0, \<lparr>login_username = u, login_password = p\<rparr>)
    | None \<Rightarrow> (\<exists>c'. parse_register_request m c = Some (rcode RESP_ERROR_MALFORMED, c')) \<and>
        (\<exists>l'. parse_login_request m l = Some (rcode RESP_ERROR_MALFORMED, l'))) \<and>
    (case world_of (msg_payload m) of
      Some (s, t) \<Rightarrow> parse_world_broadcast m w = Some (0, \<lparr>world_sender_username = s, world_message_content = t\<rparr>)
    | None \<Rightarrow> \<exists>w'. parse_world_broadcast m w = Some (rcode RESP_ERROR_MALFORMED, w')) \<and>
    (case p2p_of (msg_payload m) of
      Some (s, r, t) \<Rightarrow> parse_p2p_broadcast m q = Some (0, \<lparr>p2p_sender_username = s,
        p2p_recipient_username = r, p2p_message_content = t\<rparr>)
    | None \<Rightarrow> \<exists>q'. parse_p2p_broadcast m q = Some (rcode RESP_ERROR_MALFORMED, q'))"
  using parse_register_request_spec [OF assms, of c] parse_login_request_spec [OF assms, of l]
    parse_world_broadcast_spec [OF assms, of w] parse_p2p_broadcast_spec [OF assms, of q]
  by (auto split: option.splits prod.splits)

theorem request_parsers_decide_witness:
  "parse_world_broadcast (sample_message CHAT alice_says) world_zero =
     Some (0, \<lparr>world_sender_username = str ''mallory'', world_message_content = str ''hi''\<rparr>)"
  using request_parsers_decide [OF alice_says_facts(1), of _ _ world_zero] alice_says_facts(2,4) by simp

text \<open>
  What the server answers a successful registration or login with is what the client reads:
  the response built for a user, serialised behind anything that is already queued and parsed by
  the client, gives back the user's id and name.
\<close>

theorem auth_response_roundtrip:
  assumes "length (username user) \<le> MAX_USERNAME_SIZE"
  shows "(\<exists>m out r. build_register_response empty_response user = Some (0, m) \<and>
      write_message_to_buffer queued m = Some (queued @ out) \<and>
      parse_message (out @ rest) m0 = Some r \<and> msg_type r = mtype REGISTER \<and> msg_rc r = 0 \<and>
      parse_register_response r u0 = Some (0, u0\<lparr>user_id := user_id user, username := username user\<rparr>)) \<and>
    (\<exists>m out r. build_login_response empty_response user = Some (0, m) \<and>
      write_message_to_buffer queued m = Some (queued @ out) \<and>
      parse_message (out @ rest) m0 = Some r \<and> msg_type r = mtype LOGIN \<and> msg_rc r = 0 \<and>
      parse_login_response r u0 = Some (0, u0\<lparr>user_id := user_id user, username := username user\<rparr>))"
proof -
  let ?pl = "encode_tlvs (user_tlvs user)"
  have short: "length ?pl \<le> MSG_MAX_PAYLOAD_SIZE" "length ?pl < 2 ^ 32" "?pl @ rest \<noteq> []"
    using length_u8_trunc_le [of "username user"] by (simp_all add: user_tlvs_def encode_tlv_def size_defs)
  have parsed: "\<exists>r. parse_message (encode_frame (request_frame ty (user_tlvs user)) @ rest) m0 = Some r \<and>
      msg_type r = mtype ty \<and> msg_rc r = 0 \<and> payload_inside r \<and> msg_payload r = ?pl" for ty
    using parse_message_frame [of "request_frame ty (user_tlvs user)" rest m0] short
    by (simp add: request_frame_def payload_inside_def msg_payload_def)
  have full: "MSG_MAX_PAYLOAD_SIZE \<le> length (replicate MSG_MAX_PAYLOAD_SIZE (0 :: u8))" by simp
  show ?thesis
    using build_auth_response_frame [OF empty_response_buffer full, of user]
      parsed [of REGISTER] parsed [of LOGIN] parse_response_user [OF _ _ assms]
    by (metis write_message_frame)
qed

theorem auth_response_roundtrip_witness:
  "\<exists>m out r. build_login_response empty_response \<lparr>user_id = 258, username = str ''bob'', password = []\<rparr> = Some (0, m) \<and>
      write_message_to_buffer [] m = Some ([] @ out) \<and> parse_message (out @ []) message_zero = Some r \<and>
      parse_login_response r user_zero = Some (0, user_zero\<lparr>user_id := 258, username := str ''bob''\<rparr>)"
  using auth_response_roundtrip [of "\<lparr>user_id = 258, username = str ''bob'', password = []\<rparr>" "[]" "[]" message_zero user_zero]
  by (fastforce simp: str_def size_defs)

text \<open>
  (C36) When a response makes the client write outside the \<open>user_id\<close> member: exactly when one of the pairs
  the payload holds is a user id of more than four bytes (the copy length is the sender's, up to 255)
  and the parser reaches it, all pairs before it being acceptable: user ids of at most four bytes, user
  names within their limit, or of other tags. This holds for both parsers and every payload.
\<close>

theorem response_user_id_overflow:
  assumes "payload_inside m"
  shows "(parse_register_response m u = None \<longleftrightarrow>
      (\<exists>pre v post. fst (split_tlvs (msg_payload m)) = pre @ (tag TAG_USER_ID, v) # post \<and> 4 < length v \<and>
         list_all (\<lambda>x. response_pair_ok (fst x) (snd x)) pre)) \<and>
    (parse_login_response m u = None \<longleftrightarrow> parse_register_response m u = None)"
  unfolding parse_response_undefined [OF assms] by simp

theorem response_user_id_overflow_witness:
  "parse_login_response (sample_message LOGIN [(2, [65]), (6, [1, 2, 3, 4, 5])]) user_zero = None"
proof -
  let ?xs = "[(2, [65]), (6, [1, 2, 3, 4, 5])] :: (u8 \<times> bytes) list"
  note m = sample_message_payload [of ?xs LOGIN, simplified]
  have "split_tlvs (encode_tlvs ?xs) = (?xs, True)" by (rule split_encode_tlvs) simp
  then have "fst (split_tlvs (msg_payload (sample_message LOGIN ?xs))) = [(2, [65])] @ (tag TAG_USER_ID, [1, 2, 3, 4, 5]) # []"
    using m(2) by simp
  moreover have "list_all (\<lambda>x. response_pair_ok (fst x) (snd x)) [(2, [65])]"
    by (simp add: response_pair_ok_def size_defs)
  ultimately show ?thesis
    using response_user_id_overflow [OF m(1), of user_zero] by fastforce
qed

text \<open>
  The message layer: a message that stands for a frame is appended to a buffer without
  disturbing it, and parsing what was appended, with anything after it, gives back its version,
  type, code, length and payload bytes.
\<close>

theorem message_roundtrip:
  assumes "message_ok m" "msg_payload m @ rest \<noteq> []"
  shows "\<exists>out r. write_message_to_buffer buffer m = Some (buffer @ out) \<and>
    length out = MSG_HEADER_SIZE + unat (payload_length m) \<and>
    parse_message (out @ rest) m0 = Some r \<and>
    msg_version r = msg_version m \<and> msg_type r = msg_type m \<and> msg_rc r = msg_rc m \<and>
    payload_length r = payload_length m \<and> msg_payload r = msg_payload m"
proof -
  let ?f = "message_frame m"
  have pl: "f_payload ?f = msg_payload m" "length (msg_payload m) = unat (payload_length m)"
    using assms(1) by (simp_all add: message_frame_def msg_payload_def message_ok_def)
  have len: "length (f_payload ?f) < 2 ^ 32" "u32_cast (length (f_payload ?f)) = payload_length m"
    using assms(1) pl by (simp_all add: message_ok_def size_defs)
  show ?thesis
    using write_message_frame [OF assms(1), of buffer] parse_message_frame [OF len(1), of rest m0] assms(2) pl len(2)
    by (simp add: length_encode_frame MSG_HEADER_SIZE_def msg_payload_def [of "_\<lparr>payload := _\<rparr>"])
      (simp add: message_frame_def)
qed

theorem message_roundtrip_witness:
  "\<exists>out r. write_message_to_buffer [9] (sample_message CHAT alice_says) = Some ([9] @ out) \<and>
     parse_message (out @ []) message_zero = Some r \<and> msg_payload r = encode_tlvs alice_says"
proof -
  have len: "length (encode_tlvs alice_says) \<le> MSG_MAX_PAYLOAD_SIZE"
    unfolding alice_says_def by (rule chat_tlvs_short)
  then have "unat (u32_cast (length (encode_tlvs alice_says))) = length (encode_tlvs alice_says)"
    by (intro unat_u32_cast_small) (simp add: size_defs)
  with len have ok: "message_ok (sample_message CHAT alice_says)"
    by (simp add: message_ok_def sample_message_def)
  have "msg_payload (sample_message CHAT alice_says) @ [] \<noteq> []"
    using alice_says_facts(2,3) by auto
  from message_roundtrip [OF ok this, of "[9]" message_zero] alice_says_facts(2) show ?thesis by auto
qed

section \<open>Input and output of a connection\<close>

text \<open>
  Writing loses and duplicates nothing: however the socket splits the output, what has been
  sent followed by what is still queued stays the same; a connection goes back to reading only
  when everything was sent and otherwise stays watched; and no other connection is affected.
\<close>

theorem write_conserves_output:
  assumes "same_sizes st" "fd < get_size st"
    and "ending \<noteq> Write_Broken_Pipe"
  shows "\<exists>st'. handle_write_connection fd rooms ending st = Some (Running st') \<and>
    wire st' fd @ outgoing_buffers st' ! fd = wire st fd @ outgoing_buffers st ! fd \<and>
    (has_flag (flags st' ! fd) WANT_READ \<longrightarrow> has_flag (flags st ! fd) WANT_READ \<or> outgoing_buffers st' ! fd = []) \<and>
    (outgoing_buffers st' ! fd \<noteq> [] \<longrightarrow> has_flag (flags st ! fd) WANT_WRITE \<longrightarrow> has_flag (flags st' ! fd) WANT_WRITE) \<and>
    (\<forall>i. i \<noteq> fd \<longrightarrow> wire st' i = wire st i \<and> outgoing_buffers st' ! i = outgoing_buffers st ! i \<and>
       flags st' ! i = flags st ! i)"
proof -
  obtain s l e where d: "drain rooms (outgoing_buffers st ! fd) = (s, l, e)" by (rule prod_cases3)
  note parts = drain_parts [OF d]
  let ?t = "transmit fd s l st"
  have "handle_write_connection fd rooms ending st = Some (Running (if e then mark fd READING ?t
      else case ending of Write_Error \<Rightarrow> mark fd CLOSING ?t | _ \<Rightarrow> ?t))"
    using handle_write_effect [OF assms(1,2), of rooms ending] d assms(3)
    by (simp add: write_outcome_def pipe_breaks_def write_effect_def Let_def)
  then show ?thesis
    using parts assms by (cases ending) (auto simp: table_simps flag_simps)
qed

theorem write_conserves_output_witness:
  "\<exists>st'. handle_write_connection 1 [2, 0] Write_Would_Block sample_server = Some (Running st') \<and>
    wire st' 1 @ outgoing_buffers st' ! 1 = []"
  using write_conserves_output [OF sample_sizes, of 1 Write_Would_Block "[2, 0]"] by auto

text \<open>
  (C38) End of file wins over pending requests: when the peer sends requests and closes before the
  server wakes up, \<open>read\<close> delivers both in one event, and the complete requests are never run: no
  answer is queued, no account or other connection changes, and the connection is marked for closing.
\<close>

theorem eof_drops_requests:
  assumes "same_sizes st" "fd < get_size st" "db_ok sq rows (db st)"
  shows "handle_read_connection sq fd chunks Read_Eof st =
    Some (mark fd CLOSING (receive fd (concat chunks) st))"
  using handle_read_effect [OF assms, of chunks Read_Eof] by (simp add: read_effect_def)

theorem eof_drops_requests_witness:
  "\<exists>st'. handle_read_connection list_sqlite 2 [encode_frame alice_logs_in] Read_Eof sample_server = Some st' \<and>
     outgoing_buffers st' ! 2 = [] \<and> \<not> has_flag (flags st' ! 2) IS_AUTH \<and>
     incoming_buffers st' ! 2 = encode_frame alice_logs_in"
  using eof_drops_requests [OF sample_sizes, of 2 list_sqlite "\<lambda>d. d"] sample_db_ok sample_sizes
  by (simp add: table_simps flag_simps)

text \<open>
  (C39) The \<open>/metrics\<close> command, in whatever pieces the terminal delivers the line, logs the number
  of active connections, the number of authenticated ones and the memory figures, in every reachable
  state; the whole report fits its 512-byte buffer whatever the figures are.
\<close>

theorem metrics_report_counts:
  assumes "reachable sq d (used, st)" "db_ok sq rows d"
    and "\<forall>c \<in> set cs. c \<noteq> []" "concat cs = str ''/metrics'' @ [10]"
    and "get_memory_usage src = Some mem" "get_size st < 2 ^ 31"
  shows "handle_server_input (flags st) src (map Stdin_Data cs) ending = Some (0, Some
    (metrics_text (card {i. i < get_size st \<and> epoll st i \<noteq> None})
      (card {i. i < get_size st \<and> has_flag (flags st ! i) IS_AUTH}) (physical_ram_bytes mem) src @ [10]))"
proof -
  from reachable_inv [OF assms(1,2)] have inv: "table_inv st" by (simp add: server_inv_def core_def)
  have act: "{i. i < get_size st \<and> epoll st i \<noteq> None} = {i. i < get_size st \<and> has_flag (flags st ! i) IS_ACTIVE}"
    using slot_ok_reg [OF table_inv_slot [OF inv]] by blast
  have "card {i. i < get_size st \<and> P i} < 2 ^ 31" for P
    using card_mono [of "{..< get_size st}" "{i. i < get_size st \<and> P i}"] assms(6) by (simp add: subset_iff)
  note report = log_server_metrics_report [OF count_connections_inv [OF inv] this this assms(5)]
  show ?thesis unfolding act handle_server_input_metrics [OF assms(3,4)] report by simp
qed

theorem metrics_report_counts_witness:
  "handle_server_input (flags (initial_server sample_users)) sample_memory
     (map Stdin_Data [str ''/met'', str ''rics'' @ [10]]) Stdin_Would_Block =
   Some (0, Some (metrics_text 0 0 (300 * 4096) sample_memory @ [10]))"
proof -
  let ?n = "{i. i < get_size (initial_server sample_users) \<and> has_flag (flags (initial_server sample_users) ! i) IS_AUTH}"
  have empty: "?n = {}" "epoll (initial_server sample_users) = (\<lambda>_. None)"
    by (auto simp: get_size_def initial_server_fields)
  have size: "get_size (initial_server sample_users) < 2 ^ 31"
    by (simp add: get_size_def initial_server_fields INITIAL_CAPACITY_def)
  have "handle_server_input (flags (initial_server sample_users)) sample_memory
      (map Stdin_Data [str ''/met'', str ''rics'' @ [10]]) Stdin_Would_Block =
    Some (0, Some (metrics_text (card {i. i < get_size (initial_server sample_users) \<and>
        epoll (initial_server sample_users) i \<noteq> None}) (card ?n) (300 * 4096) sample_memory @ [10]))"
    using metrics_report_counts [OF reachable.start sample_db_ok _ _ sample_memory_usage size,
        of "[str ''/met'', str ''rics'' @ [10]]" Stdin_Would_Block] by (simp add: str_def)
  then show ?thesis unfolding empty by simp
qed

text \<open>
  The flag operators are set operations on the five flags: or-assigning adds a flag,
  and-assigning the complement removes it, and neither touches another flag.
\<close>

theorem flag_operators:
  assumes "f \<in> {WANT_READ, WANT_WRITE, WANT_CLOSE, IS_ACTIVE, IS_AUTH}"
    and "g \<in> {WANT_READ, WANT_WRITE, WANT_CLOSE, IS_ACTIVE, IS_AUTH}"
  shows "(has_flag (flag_or_assign m f) g \<longleftrightarrow> f = g \<or> has_flag m g) \<and>
    (has_flag (flag_and_assign m (flag_not f)) g \<longleftrightarrow> f \<noteq> g \<and> has_flag m g)"
  using assms by (auto simp: flag_simps flag_distinct)

theorem flag_operators_witness:
  "has_flag (flag_or_assign IS_ACTIVE WANT_READ) IS_ACTIVE"
  using flag_operators [of WANT_READ IS_ACTIVE IS_ACTIVE] by (simp add: flag_simps)

section \<open>Client and server together\<close>

text \<open>
  (C21) Logging in, end to end: the line \<open>/login name pass\<close> sends one request; however the network
  cuts it up, the server authenticates the connection under the account's stored name and answers;
  and however the answer is cut up, the client that reads it is logged in as that account.
\<close>

theorem login_conversation:
  assumes "\<not> has_flag (c_flags conn) IS_AUTH" "writable s"
    and "name \<noteq> []" "\<forall>c \<in> set name. \<not> is_space c" "length name \<le> MAX_USERNAME_SIZE"
    and "pass \<noteq> []" "\<forall>c \<in> set pass. \<not> is_space c" "length pass \<le> MAX_PASSWORD_SIZE"
    and "same_sizes st" "fd < get_size st" "db_ok sq rows (db st)"
    and "incoming_buffers st ! fd = []" "outgoing_buffers st ! fd = []"
    and "account rows (db st) (account_key name) = Some a" "password a = pass"
    and "length (username a) \<le> MAX_USERNAME_SIZE"
  shows "\<exists>req st'. command_shell conn (str ''/login '' @ name @ str '' '' @ pass) s = Some (True, req) \<and>
    (\<forall>chunks. concat chunks = req \<longrightarrow> handle_read_connection sq fd chunks Read_Would_Block st = Some st') \<and>
    has_flag (flags st' ! fd) IS_AUTH \<and> usernames st' ! fd = username a \<and>
    (\<forall>pieces. flowing pieces \<and> arriving pieces = outgoing_buffers st' ! fd \<longrightarrow>
      handle_server_response conn pieces = Some (True,
        conn\<lparr>c_user := (c_user conn)\<lparr>user_id := user_id a, username := username a\<rparr>,
             c_flags := flag_or_assign (c_flags conn) IS_AUTH\<rparr>, []))"
proof -
  let ?g = "request_frame LOGIN (user_tlvs a)" and ?a = "authenticate fd a st"
  let ?st = "mark fd WRITING (queue fd [] (encode_frame ?g) ?a)"
  have k: "same_sizes ?a" "get_size ?a = get_size st" "outgoing_buffers ?a = outgoing_buffers st"
    using assms(9) keptD [OF kept_authenticate [of st fd a]] by (simp_all add: authenticate_def)
  have st: "has_flag (flags ?st ! fd) IS_AUTH" "usernames ?st ! fd = username a"
    "outgoing_buffers ?st ! fd = encode_frame ?g"
    using assms(9,10,13) k by (simp_all add: table_simps flag_simps del: state_flags.simps)
      (simp_all add: authenticate_def same_sizes_def get_size_def flag_simps)
  have cl: "handle_server_response conn pieces = Some (True,
        conn\<lparr>c_user := (c_user conn)\<lparr>user_id := user_id a, username := username a\<rparr>,
             c_flags := flag_or_assign (c_flags conn) IS_AUTH\<rparr>, [])"
    if "flowing pieces \<and> arriving pieces = outgoing_buffers ?st ! fd" for pieces
    using login_response_handled [OF assms(16), of "[]" pieces "[]" conn] that flowing_empty st(3)
    by (fastforce simp: MSG_HEADER_SIZE_def)
  from login_line_served [OF assms(1-12,14,15)] obtain req where
    r: "command_shell conn (str ''/login '' @ name @ str '' '' @ pass) s = Some (True, req)"
      "\<And>chunks. concat chunks = req \<Longrightarrow> handle_read_connection sq fd chunks Read_Would_Block st = Some ?st"
    by blast
  show ?thesis
    by (intro exI [of _ req] exI [of _ ?st] conjI allI impI) (erule r(2) cl | rule r(1) st)+
qed

theorem login_conversation_witness:
  "\<exists>req (st' :: user_row list server). command_shell visitor (str ''/login '' @ str ''alice'' @ str '' '' @ str ''pw'') [] = Some (True, req) \<and>
     usernames st' ! 2 = str ''Alice'' \<and>
     handle_server_response visitor [Avail (outgoing_buffers st' ! 2)] = Some (True,
       visitor\<lparr>c_user := (c_user visitor)\<lparr>user_id := 1, username := str ''Alice''\<rparr>,
               c_flags := flag_or_assign (c_flags visitor) IS_AUTH\<rparr>, [])"
proof -
  let ?a = "\<lparr>user_id = 1, username = str ''Alice'', password = str ''pw''\<rparr>"
  let ?in = "visitor\<lparr>c_user := (c_user visitor)\<lparr>user_id := 1, username := str ''Alice''\<rparr>,
             c_flags := flag_or_assign (c_flags visitor) IS_AUTH\<rparr>"
  have sizes: "str ''alice'' \<noteq> []" "\<forall>c \<in> set (str ''alice''). \<not> is_space c" "length (str ''alice'') \<le> MAX_USERNAME_SIZE"
    "str ''pw'' \<noteq> []" "\<forall>c \<in> set (str ''pw''). \<not> is_space c" "length (str ''pw'') \<le> MAX_PASSWORD_SIZE"
    "length (username ?a) \<le> MAX_USERNAME_SIZE"
    by (simp_all add: str_def is_space_def size_defs)
  have pre: "\<not> has_flag (c_flags visitor) IS_AUTH" "writable []" "2 < get_size sample_server"
    "db_ok list_sqlite (\<lambda>d. d) (db sample_server)" "incoming_buffers sample_server ! 2 = []"
    "outgoing_buffers sample_server ! 2 = []" "password ?a = str ''pw''"
    "account (\<lambda>d. d) (db sample_server) (account_key (str ''alice'')) = Some ?a"
    using sample_db_ok alice_account by (simp_all add: writable_def)
  from login_conversation [OF pre(1,2) sizes(1-6) sample_sizes pre(3-6,8,7) sizes(7)] obtain req and st' :: "user_row list server" where
    c: "command_shell visitor (str ''/login '' @ str ''alice'' @ str '' '' @ str ''pw'') [] = Some (True, req)"
      "usernames st' ! 2 = str ''Alice''"
    and read: "\<And>pieces. flowing pieces \<and> arriving pieces = outgoing_buffers st' ! 2 \<Longrightarrow>
      handle_server_response visitor pieces = Some (True, ?in, [])"
    unfolding user_t.simps by (elim exE conjE) (rule that, assumption, assumption, blast)
  have "outgoing_buffers st' ! 2 \<noteq> []"
  proof
    assume "outgoing_buffers st' ! 2 = []"
    with read [of "[]"] show False
      by (simp add: handle_server_response_def read_one_message_def read_header.simps [of 7] sock_read_def
          MSG_HEADER_SIZE_def)
  qed
  with read [of "[Avail (outgoing_buffers st' ! 2)]"] c show ?thesis by auto
qed

text \<open>
  (C22) Chatting, end to end: the line \<open>/world content\<close> typed by a user who is logged in puts one message
  behind whatever the server has queued for each logged-in connection, the sender's own included, and
  nothing behind the output of any other; and a client that comes to that message prints it, the name
  the sender is logged in under at the server and the content, both up to their first NUL, and has the
  rest of its input left, if its reads are neither interrupted nor failing. The bytes may be cut up on
  the way in both directions.
\<close>

theorem world_conversation:
  assumes "has_flag (c_flags conn) IS_AUTH" "writable s" "length (username (c_user conn)) \<le> MAX_USERNAME_SIZE"
    and "content \<noteq> []" "\<not> is_space (hd content)" "10 \<notin> set content" "length content \<le> MAX_MSG_CONTENT_SIZE"
    and "same_sizes st" "fd < get_size st" "db_ok sq rows (db st)" "incoming_buffers st ! fd = []"
    and "has_flag (flags st ! fd) IS_AUTH" "length (usernames st ! fd) \<le> MAX_USERNAME_SIZE"
  shows "\<exists>req msg st'. command_shell conn (str ''/world '' @ content) s = Some (True, req) \<and>
    (\<forall>chunks. concat chunks = req \<longrightarrow> handle_read_connection sq fd chunks Read_Would_Block st = Some st') \<and>
    (\<forall>j < get_size st. outgoing_buffers st' ! j =
       outgoing_buffers st ! j @ (if has_flag (flags st ! j) IS_AUTH then msg else [])) \<and>
    (\<forall>other pieces rest. flowing pieces \<and> arriving pieces = msg @ rest \<longrightarrow>
      (\<exists>left. handle_server_response other pieces = Some (True,
         other\<lparr>c_screen := c_screen other @ [GLOBAL (c_str (usernames st ! fd)) (c_str content)]\<rparr>, left) \<and>
       flowing left \<and> arriving left = rest))"
proof -
  let ?w = "\<lparr>world_sender_username = usernames st ! fd, world_message_content = content\<rparr>"
  let ?f = "request_frame CHAT (world_tlvs ?w)"
  let ?d = "deliver (other_authenticated fd st) (encode_frame ?f) st"
  let ?st = "mark fd WRITING (queue fd [] (encode_frame ?f) ?d)"
  have k: "same_sizes ?d" using assms(8) by (simp add: table_simps)
  have out: "\<forall>j < get_size st. outgoing_buffers ?st ! j =
      outgoing_buffers st ! j @ (if has_flag (flags st ! j) IS_AUTH then encode_frame ?f else [])"
    using assms(8,9,12) k
    by (auto simp: table_simps deliver_nth other_authenticated_def simp del: state_flags.simps)
  have cl: "\<exists>left. handle_server_response other pieces = Some (True,
        other\<lparr>c_screen := c_screen other @ [GLOBAL (c_str (usernames st ! fd)) (c_str content)]\<rparr>, left) \<and>
      flowing left \<and> arriving left = rest"
    if "flowing pieces \<and> arriving pieces = encode_frame ?f @ rest" for other pieces rest
    using chat_response_handled [of "[]" pieces "world_tlvs ?w" rest ?w
        "GLOBAL (c_str (usernames st ! fd)) (c_str content)" _ other] that assms(7,13)
    by (simp add: MSG_HEADER_SIZE_def print_chat_message_def)
  from world_line_served [OF assms(1-12)] obtain req where
    r: "command_shell conn (str ''/world '' @ content) s = Some (True, req)"
      "\<forall>chunks. concat chunks = req \<longrightarrow> handle_read_connection sq fd chunks Read_Would_Block st = Some ?st"
    by blast
  show ?thesis
    using r out cl by (intro exI [of _ req] exI [of _ "encode_frame ?f"] exI [of _ ?st] conjI allI impI) blast+
qed

theorem world_conversation_witness:
  "\<exists>req msg st'. command_shell alice_client (str ''/world '' @ str ''hi'') [] = Some (True, req) \<and>
     handle_read_connection list_sqlite 0 [req] Read_Would_Block sample_server = Some st' \<and>
     outgoing_buffers st' ! 1 = outgoing_buffers sample_server ! 1 @ msg \<and>
     (\<forall>pieces. flowing pieces \<and> arriving pieces = msg \<longrightarrow>
        (\<exists>left. handle_server_response visitor pieces = Some (True,
          visitor\<lparr>c_screen := c_screen visitor @ [GLOBAL (c_str (str ''Alice'')) (c_str (str ''hi''))]\<rparr>, left)))"
proof -
  have sizes: "length (str ''Alice'') \<le> MAX_USERNAME_SIZE" "str ''hi'' \<noteq> []" "\<not> is_space (hd (str ''hi''))"
    "10 \<notin> set (str ''hi'')" "length (str ''hi'') \<le> MAX_MSG_CONTENT_SIZE"
    by (simp_all add: str_def is_space_def size_defs)
  from world_conversation [where conn = alice_client and s = "[]" and st = sample_server and fd = 0 and sq = list_sqlite
      and rows = "\<lambda>d. d", OF _ _ _ sizes(2-5) sample_sizes] sizes(1) sample_db_ok sample_server_auth(1)
  obtain req msg st' where c: "command_shell alice_client (str ''/world '' @ str ''hi'') [] = Some (True, req)"
    "\<forall>chunks. concat chunks = req \<longrightarrow> handle_read_connection list_sqlite 0 chunks Read_Would_Block sample_server = Some st'"
    "\<forall>j < 3. outgoing_buffers st' ! j = outgoing_buffers sample_server ! j @
       (if has_flag (flags sample_server ! j) IS_AUTH then msg else [])"
    "\<forall>other pieces rest. flowing pieces \<and> arriving pieces = msg @ rest \<longrightarrow>
      (\<exists>left. handle_server_response other pieces = Some (True,
        other\<lparr>c_screen := c_screen other @ [GLOBAL (c_str (str ''Alice'')) (c_str (str ''hi''))]\<rparr>, left) \<and>
       flowing left \<and> arriving left = rest)"
    by (auto simp: writable_def)
  have "outgoing_buffers st' ! 1 = outgoing_buffers sample_server ! 1 @ msg"
    using c(3) sample_server_auth(2) by simp
  with c(1) c(2) [rule_format, of "[req]"] c(4) [rule_format, of _ "[]" visitor] show ?thesis
    by (intro exI [of _ req] exI [of _ msg] exI [of _ st']) fastforce
qed

text \<open>
  (C23) The client is safe with this server: whatever a server in a reachable state has sent and
  queued for a connection, the client at its other end runs every schedule to its end without
  leaving its memory, however the bytes are cut up on the way. (With other servers it is not, as
  \<open>response_user_id_overflow\<close> shows.)
\<close>

theorem client_safe_with_server:
  assumes "reachable sq d (used, st)" "db_ok sq rows d" "i < get_size st"
    and "client_main k inbox p = Inr s" "pipe_rc k \<noteq> -1"
    and "flowing inbox" "arriving inbox = wire st i @ outgoing_buffers st ! i" "schedule as s"
  shows "\<exists>s'. run_session as s = Some s'"
proof (rule schedule_safe [OF _ assms(8)])
  from reachable_inv [OF assms(1,2)] coreD(4) [of sq rows used st i] assms(3) obtain fs where
    "list_all answer_ok fs" "wire st i @ outgoing_buffers st ! i = encode_frames fs"
    by (auto simp: server_inv_def framed_def)
  moreover have "s_inbox s = inbox"
    using assms(4) by (auto simp: client_main_def open_session_def split: prod.splits if_splits)
  ultimately show "answers_waiting s" using assms(6,7) by (auto simp: answers_waiting_def)
qed

theorem client_safe_with_server_witness:
  "\<exists>st s'. reachable list_sqlite sample_users ([7], st) \<and> outgoing_buffers st ! 7 \<noteq> [] \<and>
     run_session [Wake (Poll_Bits False True), Sigint, Test 0] (sample_session [Avail (wire st 7 @ outgoing_buffers st ! 7)]) = Some s'"
proof -
  let ?as = "[Wake (Poll_Bits False True), Sigint, Test 0]"
  obtain st where st: "reachable list_sqlite sample_users ([7], st)" "7 < get_size st"
    "outgoing_buffers st ! 7 = encode_frame (request_frame LOGIN
       (user_tlvs \<lparr>user_id = 1, username = str ''Alice'', password = str ''pw''\<rparr>))"
    using sample_logged_in by blast
  let ?inbox = "[Avail (wire st 7 @ outgoing_buffers st ! 7)]"
  have ne: "outgoing_buffers st ! 7 \<noteq> []" by (simp add: st(3) encode_frame_def)
  then have fl: "flowing ?inbox" "arriving ?inbox = wire st 7 @ outgoing_buffers st ! 7" by (simp_all add: flowing_def)
  have start: "s_main (sample_session ?inbox) = Testing" "s_thread (sample_session ?inbox) = Listening"
    "\<not> s_signalled (sample_session ?inbox)" by (simp_all add: sample_session_def)
  then have "s_main x = Testing" if "socket_thread_handler (Poll_Bits False True) (sample_session ?inbox) = Some x" for x
    using thread_keeps_main [OF that] by simp
  with start have "schedule ?as (sample_session ?inbox)"
    by (simp add: handle_client_sigint_def split: option.split)
  moreover have "pipe_rc sample_client \<noteq> -1" by (simp add: sample_client_def)
  ultimately show ?thesis
    using client_safe_with_server [OF st(1) sample_db_ok st(2) sample_client_main _ fl] st(1) ne by blast
qed

section \<open>The terminal client\<close>

text \<open>
  (C29) A whole frame gets across: what \<open>write_one_message\<close> sends for a frame, in whatever pieces the
  socket takes it, is read by \<open>read_one_message\<close> as that frame, in whatever pieces it arrives and
  however often the reading of its header is interrupted, and what follows it stays in the socket.
\<close>

theorem frame_transfer:
  assumes "frame_ok f" "writable ws"
    and "write_one_message (encode_frame f) (u32_cast (length (encode_frame f))) ws = Some (rc, out)"
    and "payload m = Some mem" "MSG_MAX_PAYLOAD_SIZE \<le> length mem"
    and "steady a" "flowing b" "length (arriving a) < MSG_HEADER_SIZE" "arriving (a @ b) = out @ rest"
  shows "\<exists>m' s'. read_one_message m (a @ b) = Some (0, m', s') \<and> message_ok m' \<and> message_frame m' = f \<and>
    arriving s' = rest"
proof -
  have "length (encode_frame f) < 4294967296"
    using assms(1) by (simp add: length_encode_frame frame_ok_def size_defs)
  then have u: "unat (u32_cast (length (encode_frame f))) = length (encode_frame f)" by simp
  have "out = encode_frame f"
    using assms(3) write_one_message_complete [OF assms(2), of "u32_cast (length (encode_frame f))" "encode_frame f"]
    unfolding u by simp
  with read_one_message_frame [OF assms(1,4-8)] assms(9) show ?thesis by blast
qed

theorem frame_transfer_witness:
  "\<exists>m' s'. read_one_message (message_zero\<lparr>payload := Some (replicate 4096 0)\<rparr>)
      ([Avail [1], Interrupted] @ [Avail [0, 0, 0, 0, 0, 1], Avail [7, 9]]) = Some (0, m', s') \<and>
    message_frame m' = \<lparr>f_version = 1, f_type = 0, f_rc = 0, f_payload = [7]\<rparr> \<and> arriving s' = [9]"
proof -
  let ?f = "\<lparr>f_version = 1, f_type = 0, f_rc = 0, f_payload = [7]\<rparr>"
  have e: "encode_frame ?f = [1, 0, 0, 0, 0, 0, 1, 7]"
    by (simp add: encode_frame_def be_bytes_def bytes_of_u32_def)
  have ok: "frame_ok ?f" by (simp add: frame_ok_def size_defs)
  have w: "writable [Room 3, Write_Interrupted]" by (simp add: writable_def)
  have "write_one_message (encode_frame ?f) (u32_cast (length (encode_frame ?f))) [Room 3, Write_Interrupted] =
      Some (sint (u32_cast (length (encode_frame ?f))), encode_frame ?f)"
    by (subst write_one_message_complete [OF w]) (simp_all add: e)
  from frame_transfer [OF ok w this, of "message_zero\<lparr>payload := Some (replicate 4096 0)\<rparr>" "replicate 4096 0"
      "[Avail [1], Interrupted]" "[Avail [0, 0, 0, 0, 0, 1], Avail [7, 9]]" "[9]"]
  show ?thesis by (auto simp: e size_defs)
qed

text \<open>
  A signal while the client reads a payload loses the connection: unlike in the header,
  \<open>EINTR\<close> is not retried there, the handler reports the server as gone, and the rest of the frame is
  left in the socket.
\<close>

theorem interrupted_payload_lost:
  assumes "frame_ok f" "flowing a" "arriving a = take n (encode_frame f)"
    and "MSG_HEADER_SIZE \<le> n" "n < length (encode_frame f)"
  shows "handle_server_response conn (a @ Interrupted # b) = Some (False, conn, b)"
proof -
  have "length (arriving a) = n" using assms(3,5) by simp
  with read_one_message_interrupted [OF assms(1) _ _ assms(2),
      of "message_zero\<lparr>payload := Some (replicate MSG_MAX_PAYLOAD_SIZE 0)\<rparr>" "replicate MSG_MAX_PAYLOAD_SIZE 0" b]
    assms(3-5) show ?thesis by (auto simp: handle_server_response_def)
qed

theorem interrupted_payload_lost_witness:
  "handle_server_response visitor ([Avail [1, 1, 0, 0, 0, 0, 2, 7]] @ Interrupted # [Avail [7]]) =
     Some (False, visitor, [Avail [7]])"
proof -
  let ?f = "\<lparr>f_version = 1, f_type = 1, f_rc = 0, f_payload = [7, 7]\<rparr>"
  have "encode_frame ?f = [1, 1, 0, 0, 0, 0, 2, 7, 7]" by (simp add: encode_frame_def be_bytes_def bytes_of_u32_def)
  with interrupted_payload_lost [of ?f "[Avail [1, 1, 0, 0, 0, 0, 2, 7]]" 8] show ?thesis
    by (simp add: frame_ok_def size_defs)
qed

text \<open>
  (C30) Whatever is typed, a command line sends nothing or one well-formed request, of the kind the
  login state allows (chat when logged in, registration or login when not), and only \<open>/quit\<close> ends
  the loop.
\<close>

theorem command_sends_allowed_request:
  assumes "writable s"
  shows "\<exists>out. command_shell conn line s = Some (string_to_lower (fst (next_word line)) \<noteq> str ''/quit'', out) \<and>
    (out = [] \<or> (\<exists>f. out = encode_frame f \<and> frame_ok f \<and>
       (if has_flag (c_flags conn) IS_AUTH then f_type f = mtype CHAT
        else f_type f \<in> {mtype REGISTER, mtype LOGIN})))"
  using command_shell_sends [OF assms, of conn line] unfolding sends_def quits_def by (auto split: if_splits)

theorem command_sends_allowed_request_witness:
  "\<exists>out. command_shell visitor (str ''/QUIT'') [Room 1] = Some (False, out)"
  using command_sends_allowed_request [of "[Room 1]" visitor "str ''/QUIT''"]
  by (auto simp: writable_def next_word_def skip_ws_def is_space_def str_def string_to_lower_def tolower_def)



text \<open>
  (C33) Under every schedule the client has handled the server's messages in their order, each once:
  what its user has seen and who it is logged in as is the effect of the first so many messages. Those
  are all of them when the socket thread has ended, unless the user quit (the shutdown byte) or a call
  of \<open>poll\<close> failed, which the code does not retry even after a signal. The client has connected and made
  its pipe, and its socket gives it in some pieces exactly those messages, its reads neither failing nor
  interrupted.
\<close>

theorem messages_handled_in_order:
  assumes "client_main k inbox p = Inr s" "pipe_rc k \<noteq> -1"
    and "list_all notice_ok ns" "flowing inbox" "arriving inbox = notice_bytes ns" "schedule as s"
  shows "\<exists>s' n. run_session as s = Some s' \<and> n \<le> length ns \<and>
    s_conn s' = fold notice_effect (take n ns) client_zero \<and> arriving (s_inbox s') = notice_bytes (drop n ns) \<and>
    (s_thread s' = Finished \<longrightarrow> n = length ns \<or> s_signalled s' \<or> Wake Poll_Error \<in> set as)"
proof -
  from run_inv [OF client_main_inv(1) [OF assms(1,2,4,5)] assms(3,6)] obtain s' n where
    "run_session as s = Some s'" "shown ns client_zero s' n"
    "Wake Poll_Error \<notin> set as \<and> \<not> s_signalled s' \<and> s_thread s' = Finished \<longrightarrow> n = length ns"
    by (auto simp: session_inv_def)
  then show ?thesis by (intro exI [of _ s'] exI [of _ n]) (auto simp: shown_def)
qed

theorem messages_handled_in_order_witness:
  "\<exists>s'. run_session [Wake (Poll_Bits False True), Sigint, Wake (Poll_Bits False True)]
      (sample_session [Avail (notice_bytes sample_notices)]) = Some s' \<and>
     c_screen (s_conn s') = [GLOBAL (str ''Bob'') (str ''hi'')]"
proof -
  let ?as = "[Wake (Poll_Bits False True), Sigint, Wake (Poll_Bits False True)]"
  let ?inbox = "[Avail (notice_bytes sample_notices)]"
  obtain b where b: "handle_server_response client_zero ?inbox =
      Some (True, notice_effect (hd sample_notices) client_zero, b)" "flowing b" "arriving b = []"
    using notice_handled [of "hd sample_notices" ?inbox "[]"] sample_notices_ok by auto
  have fin: "handle_server_response c b = Some (False, c, [])" for c by (rule nothing_handled [OF b(2,3)])
  have sched: "schedule ?as (sample_session ?inbox)"
    using b(1) fin by (simp add: sample_session_def socket_thread_handler_def handle_client_sigint_def)
  from messages_handled_in_order [OF sample_client_main _ sample_notices_ok(1) sample_notices_ok(2) _ sched]
  obtain s' n where s': "run_session ?as (sample_session ?inbox) = Some s'"
    "s_conn s' = fold notice_effect (take n sample_notices) client_zero"
    "s_thread s' = Finished \<longrightarrow> n = length sample_notices \<or> s_signalled s'"
    by (auto simp: sample_client_def)
  have "s_thread s' = Finished" "\<not> s_signalled s'"
    using s'(1) b(1) fin by (auto simp: sample_session_def socket_thread_handler_def handle_client_sigint_def)
  with s' show ?thesis by (simp add: sample_notices_screen)
qed

text \<open>
  (C34) Quitting ends: once the main thread has signalled the socket thread, every schedule without
  further signals has at most two steps left, whatever \<open>poll\<close> answers; as long as the function has not
  returned one can be taken; and what still waits in the socket is not handled any more.
\<close>

theorem quitting_ends:
  assumes "s_main s = Joining" "s_signalled s" "Sigint \<notin> set as" "schedule as s"
  shows "\<exists>s'. run_session as s = Some s' \<and> length as \<le> 2 \<and> s_conn s' = s_conn s \<and>
    (s_main s' = Returned \<or> (\<exists>a. a \<noteq> Sigint \<and> enabled a s'))"
  using joining_run [OF assms] joining_progress by (auto simp: steps_left_def split: if_splits)

theorem quitting_ends_witness:
  "\<exists>s'. run_session [Wake (Poll_Bits True True), Join] sample_quitting = Some s' \<and> s_conn s' = client_zero"
proof -
  have "schedule [Wake (Poll_Bits True True), Join] sample_quitting"
    by (simp add: sample_quitting_def sample_session_def socket_thread_handler_def)
  with quitting_ends [of sample_quitting "[Wake (Poll_Bits True True), Join]"] show ?thesis
    by (auto simp: sample_quitting_def sample_session_def)
qed

text \<open>
  (C35) What the client gives back: when its main function has returned, the socket thread is over and the
  process holds exactly the descriptors it held before it connected; but when \<open>pipe\<close> failed, \<open>main\<close>
  returns at once and the connection is still open. When the client could not connect, it holds what it
  held before, and exits with 1.
\<close>

theorem client_closes_descriptors:
  assumes "list_all notice_ok ns" "flowing inbox" "arriving inbox = notice_bytes ns"
  shows "(\<forall>code p'. client_main k inbox p = Inl (code, p') \<longrightarrow> code = 1 \<and> held p' = held p) \<and>
    (\<forall>s as s'. client_main k inbox p = Inr s \<longrightarrow> schedule as s \<longrightarrow> run_session as s = Some s' \<longrightarrow>
       s_main s' = Returned \<longrightarrow> s_thread s' = Finished \<and>
       held (s_process s') = (if pipe_rc k = -1 then add_mset (s_fd s') (held p) else held p))"
proof (intro conjI [of "\<forall>code p'. _ code p'"] allI impI)
  fix s as s' assume s: "client_main k inbox p = Inr s" "schedule as s" "run_session as s = Some s'" "s_main s' = Returned"
  show "s_thread s' = Finished \<and> held (s_process s') = (if pipe_rc k = -1 then add_mset (s_fd s') (held p) else held p)"
  proof (cases "pipe_rc k = -1")
    case True
    from client_main_no_pipe [OF s(1) True] have s0: "s_main s = Returned" "s_thread s = Finished"
      "held (s_process s) = add_mset (s_fd s) (held p)" by simp_all
    have "as = []" using s(2) returned_stops [OF s0(1,2)] by (cases as) auto
    with s(3) s0 True show ?thesis by simp
  next
    case False
    from run_inv [OF client_main_inv(1) [OF s(1) False assms(2,3)] assms(1) s(2)] s(3,4) False
    show ?thesis by (auto simp: session_inv_def descriptors_def)
  qed
next
  fix code p' assume "client_main k inbox p = Inl (code, p')"
  then show "code = 1 \<and> held p' = held p"
    using create_client_connection_spec [of "connection k" "-1" p]
    by (auto simp: client_main_def Let_def split: prod.splits if_splits)
qed

theorem client_closes_descriptors_witness:
  "\<exists>s'. run_session [Sigint, Test 1, Wake (Poll_Bits True False), Join] (sample_session []) = Some s' \<and>
     held (s_process s') = {#0, 1, 2#}"
proof -
  let ?as = "[Sigint, Test 1, Wake (Poll_Bits True False), Join]"
  have "schedule ?as (sample_session [])"
    by (simp add: sample_session_def handle_client_sigint_def test_running_def signal_shutdown_def
        socket_thread_handler_def)
  moreover obtain s' where "run_session ?as (sample_session []) = Some s'" "s_main s' = Returned"
    by (simp add: sample_session_def handle_client_sigint_def test_running_def signal_shutdown_def
        socket_thread_handler_def)
  moreover have "list_all notice_ok []" "flowing []" "arriving [] = notice_bytes []" "pipe_rc sample_client \<noteq> -1"
    by (simp_all add: notice_bytes_def flowing_def sample_client_def)
  ultimately show ?thesis
    using client_closes_descriptors [of "[]" "[]" sample_client sample_process, THEN conjunct2]
      sample_client_main [of "[]"] sample_process_held by metis
qed

text \<open>
  (C31) A login response with code 0 is never refused: whatever its payload holds, even nothing,
  the client that survives reading it is logged in afterwards, because the handler looks for a
  result of \<open>-1\<close> that the parser never gives.
\<close>

theorem login_response_never_refused:
  assumes "f_type f = mtype LOGIN" "f_rc f = 0" "frame_ok f"
    and "flowing pieces" "arriving pieces = encode_frame f @ rest"
    and "handle_server_response conn pieces = Some (ok, conn', s')"
  shows "ok \<and> has_flag (c_flags conn') IS_AUTH"
proof -
  obtain m s1 where r: "read_one_message (message_zero\<lparr>payload := Some (replicate MSG_MAX_PAYLOAD_SIZE 0)\<rparr>) ([] @ pieces)
      = Some (0, m, s1)" "message_ok m" "message_frame m = f"
    by (rule response_read [OF assms(3) _ assms(4), of "[]" rest]) (simp_all add: assms(5) MSG_HEADER_SIZE_def)
  note fields = message_frame_fields [OF r(2,3)]
  from assms(6) r(1) fields(1) assms(1) obtain c where "handle_login_response m conn = Some c" "conn' = c" "ok"
    by (auto simp: handle_server_response_def bind_eq_Some_conv)
  with login_never_refused [OF fields(3), of conn c] fields(2) assms(2) show ?thesis by simp
qed

theorem login_response_never_refused_witness:
  "\<exists>conn' s'. handle_server_response visitor [Avail (encode_frame \<lparr>f_version = 1, f_type = 1, f_rc = 0, f_payload = []\<rparr>)]
     = Some (True, conn', s') \<and> has_flag (c_flags conn') IS_AUTH"
proof -
  let ?f = "\<lparr>f_version = 1, f_type = 1, f_rc = 0, f_payload = []\<rparr>"
  have ok: "frame_ok ?f" by (simp add: frame_ok_def)
  have ne: "encode_frame ?f \<noteq> []" by (simp add: encode_frame_def)
  obtain m s1 where r: "read_one_message (message_zero\<lparr>payload := Some (replicate MSG_MAX_PAYLOAD_SIZE 0)\<rparr>)
      ([] @ [Avail (encode_frame ?f)]) = Some (0, m, s1)" "message_ok m" "message_frame m = ?f"
    by (rule response_read [OF ok, of "[]" "[Avail (encode_frame ?f)]" "[]"]) (simp_all add: ne MSG_HEADER_SIZE_def)
  note fields = message_frame_fields [OF r(2,3)]
  have "payload_length m = 0" using r(2) fields(4) by (auto simp: message_ok_def msg_payload_def unat_eq_0)
  with malformed_login_accepted [of m visitor] fields(2) r(1) fields(1) obtain conn' where
    "handle_server_response visitor [Avail (encode_frame ?f)] = Some (True, conn', s1)"
    by (auto simp: handle_server_response_def)
  with login_response_never_refused [of ?f "[Avail (encode_frame ?f)]" "[]" visitor] ok ne show ?thesis by auto
qed

section \<open>Standard input\<close>

text \<open>
  (C40) \<open>get_string_cin\<close> returns exactly when the input holds a word, with that word and the stream
  behind its line; at the end of the input it loops for ever, since it leaves the loop on every
  failure but end of file.
\<close>

theorem get_string_cin_decides:
  assumes "good c"
  shows "get_string_cin c b =
    (if \<exists>x \<in> set (unread c). \<not> is_space x
     then let (word, s) = next_word (unread c) in
       Some (Word (ignore_line (c\<lparr>unread := s, eofbit := (s = [])\<rparr>)) word)
     else None)"
  using assms by (rule get_string_cin_decided)

theorem get_string_cin_decides_witness:
  "get_string_cin \<lparr>unread = [32, 10], eofbit = False, failbit = False\<rparr> [] = None"
  using get_string_cin_decides [of "\<lparr>unread = [32, 10], eofbit = False, failbit = False\<rparr>" "[]"]
  by (simp add: good_def is_space_def)

text \<open>
  \<open>get_stdin\<close> stays inside its buffer and leaves the stream at the next line: of a line of any
  length it keeps as much as fits in front of the terminating NUL, and the rest is thrown away.
\<close>

theorem get_stdin_keeps_lines:
  assumes "10 \<notin> set line" "0 \<notin> set line" "1 < n" "n \<le> length buffer"
  shows "\<exists>b. get_stdin buffer n (line @ 10 # s) = Some (Got b s) \<and> c_str b = take (n - 1) line"
  using get_stdin_line [OF assms, of s] by auto

theorem get_stdin_keeps_lines_witness:
  "\<exists>b. get_stdin [0, 0, 0] 3 ([97, 98, 99] @ 10 # [120]) = Some (Got b [120]) \<and> c_str b = [97, 98]"
  using get_stdin_keeps_lines [of "[97, 98, 99]" 3 "[0, 0, 0]" "[120]"] by simp

end
